theory Spec2Isabelle
  imports Complex_Main "HOL-Library.Word"
begin

unbundle bit_operations_syntax

section \<open>Board state (class HexGame)\<close>

text \<open>
  Cell values and players are the numeric constants of the source: \<open>EMPTY = 0\<close>,
  \<open>PLAYER_RED = 1\<close>, \<open>PLAYER_BLUE = 2\<close>. Coordinates handed to the board are integers
  (the bounds check of \<open>isValidMove\<close> tests \<open>row < 0\<close>), the board is a list of rows.
  \<open>winner\<close> is \<open>null\<close> or a player.
\<close>

definition EMPTY :: nat where "EMPTY = 0"
definition PLAYER_RED :: nat where "PLAYER_RED = 1"
definition PLAYER_BLUE :: nat where "PLAYER_BLUE = 2"

type_synonym cell = "int \<times> int"

record HexGame =
  size_g :: nat
  board :: "nat list list"
  currentPlayer :: nat
  moveCount :: nat
  gameOver :: bool
  winner :: "nat option"
  swapAvailable :: bool
  history :: "(int \<times> int \<times> nat) list"

text \<open>\<open>new HexGame(size)\<close>.\<close>

definition newGame :: "nat \<Rightarrow> HexGame" where
  "newGame n = \<lparr> size_g = n, board = replicate n (replicate n EMPTY),
     currentPlayer = PLAYER_RED, moveCount = 0, gameOver = False, winner = None,
     swapAvailable = False, history = [] \<rparr>"

text \<open>\<open>board[row][col]\<close> for coordinates that were checked to be in bounds.\<close>

definition cellAt :: "nat list list \<Rightarrow> int \<Rightarrow> int \<Rightarrow> nat" where
  "cellAt b row col = b ! nat row ! nat col"

text \<open>\<open>board[row][col] = v\<close>.\<close>

definition setCell :: "nat list list \<Rightarrow> int \<Rightarrow> int \<Rightarrow> nat \<Rightarrow> nat list list" where
  "setCell b row col v = b[nat row := (b ! nat row)[nat col := v]]"

definition isValidMove :: "HexGame \<Rightarrow> int \<Rightarrow> int \<Rightarrow> bool" where
  "isValidMove g row col =
     (if row < 0 \<or> row \<ge> int (size_g g) \<or> col < 0 \<or> col \<ge> int (size_g g) then False
      else if cellAt (board g) row col \<noteq> EMPTY then False
      else if size_g g = 7 \<and> moveCount g = 0 \<and>
              row = int (size_g g div 2) \<and> col = int (size_g g div 2) then False
      else True)"

definition getNeighbors :: "HexGame \<Rightarrow> int \<Rightarrow> int \<Rightarrow> cell list" where
  "getNeighbors g row col =
     filter (\<lambda>(r, c). r \<ge> 0 \<and> r < int (size_g g) \<and> c \<ge> 0 \<and> c < int (size_g g))
       [(row - 1, col), (row - 1, col + 1),
        (row, col - 1), (row, col + 1),
        (row + 1, col - 1), (row + 1, col)]"

subsection \<open>The reference win check (breadth-first search)\<close>

text \<open>
  The \<open>visited\<close> matrix of the source is the set of cells marked \<open>true\<close>; the queue is a
  list, \<open>shift\<close> takes its head and \<open>push\<close> appends. \<open>visitNeighbor\<close> is the body of the
  loop over the neighbours, \<open>bfsLoop\<close> the \<open>while (queue.length > 0)\<close> loop; the colour
  searched for and the test for the far edge are the only differences between the two
  branches of \<open>checkWin\<close>.
\<close>

definition visitNeighbor :: "HexGame \<Rightarrow> nat \<Rightarrow> cell \<Rightarrow> cell set \<times> cell list \<Rightarrow> cell set \<times> cell list" where
  "visitNeighbor g p n vq =
     (if n \<notin> fst vq \<and> cellAt (board g) (fst n) (snd n) = p
      then (insert n (fst vq), snd vq @ [n]) else vq)"

definition allCells :: "HexGame \<Rightarrow> cell set" where
  "allCells g = {0 ..< int (size_g g)} \<times> {0 ..< int (size_g g)}"

function bfsLoop :: "HexGame \<Rightarrow> nat \<Rightarrow> (cell \<Rightarrow> bool) \<Rightarrow> cell set \<Rightarrow> cell list \<Rightarrow> bool" where
  "bfsLoop g p goal visited [] = False"
| "bfsLoop g p goal visited ((row, col) # queue) =
     (if goal (row, col) then True
      else (let vq = fold (visitNeighbor g p) (getNeighbors g row col) (visited, queue)
            in bfsLoop g p goal (fst vq) (snd vq)))"
  by pat_completeness auto
termination
proof (relation "measures [\<lambda>(g, p, goal, visited, queue). card (allCells g - visited),
                           \<lambda>(g, p, goal, visited, queue). length queue]", goal_cases)
  case 1
  show ?case by simp
next
  case (2 g p goal visited row col queue vq)
  have step: "set ns \<subseteq> allCells g \<Longrightarrow>
      (fold (visitNeighbor g p) ns (v, q) = (v, q)) \<or>
      card (allCells g - fst (fold (visitNeighbor g p) ns (v, q))) < card (allCells g - v)"
    for ns v q
  proof (induction ns arbitrary: v q)
    case Nil
    show ?case by simp
  next
    case (Cons n ns)
    have fin: "finite (allCells g)" by (simp add: allCells_def)
    show ?case
    proof (cases "n \<notin> v \<and> cellAt (board g) (fst n) (snd n) = p")
      case False
      then have "visitNeighbor g p n (v, q) = (v, q)" by (auto simp: visitNeighbor_def)
      with Cons show ?thesis by auto
    next
      case True
      then have eq: "visitNeighbor g p n (v, q) = (insert n v, q @ [n])"
        by (simp add: visitNeighbor_def)
      from Cons.prems True have "n \<in> allCells g - v" by auto
      then have less: "card (allCells g - insert n v) < card (allCells g - v)"
        using fin by (metis Diff_insert card_Diff1_less finite_Diff)
      from Cons.IH [of "insert n v" "q @ [n]"] Cons.prems
      have "fold (visitNeighbor g p) ns (insert n v, q @ [n]) = (insert n v, q @ [n]) \<or>
            card (allCells g - fst (fold (visitNeighbor g p) ns (insert n v, q @ [n])))
              < card (allCells g - insert n v)" by simp
      with less eq show ?thesis by auto
    qed
  qed
  have "set (getNeighbors g row col) \<subseteq> allCells g"
    by (auto simp: getNeighbors_def allCells_def)
  from step [OF this, of visited queue] 2 show ?case by (auto simp: case_prod_beta)
qed

definition checkWin :: "HexGame \<Rightarrow> nat \<Rightarrow> bool" where
  "checkWin g player =
     (if player = PLAYER_RED then
        (let start = filter (\<lambda>n. cellAt (board g) (fst n) (snd n) = PLAYER_RED)
                       (map (\<lambda>col. (0, int col)) [0 ..< size_g g])
         in bfsLoop g PLAYER_RED (\<lambda>(row, col). row = int (size_g g) - 1) (set start) start)
      else
        (let start = filter (\<lambda>n. cellAt (board g) (fst n) (snd n) = PLAYER_BLUE)
                       (map (\<lambda>row. (int row, 0)) [0 ..< size_g g])
         in bfsLoop g PLAYER_BLUE (\<lambda>(row, col). col = int (size_g g) - 1) (set start) start))"

definition otherPlayer :: "nat \<Rightarrow> nat" where
  "otherPlayer p = (if p = PLAYER_RED then PLAYER_BLUE else PLAYER_RED)"

text \<open>\<open>makeMove\<close> returns its boolean result together with the game after the call.\<close>

definition makeMove :: "HexGame \<Rightarrow> int \<Rightarrow> int \<Rightarrow> bool \<times> HexGame" where
  "makeMove g row col =
     (if \<not> isValidMove g row col \<or> gameOver g then (False, g)
      else
        (let g1 = g \<lparr> board := setCell (board g) row col (currentPlayer g),
                      history := history g @ [(row, col, currentPlayer g)],
                      moveCount := moveCount g + 1 \<rparr>;
             g2 = (if moveCount g1 = 1 then g1 \<lparr> swapAvailable := True \<rparr> else g1)
         in if checkWin g2 (currentPlayer g2)
            then (True, g2 \<lparr> gameOver := True, winner := Some (currentPlayer g2) \<rparr>)
            else (True, g2 \<lparr> currentPlayer := otherPlayer (currentPlayer g2),
                             swapAvailable := False \<rparr>)))"

text \<open>The body of the two nested loops of \<open>swapSides\<close>, and the loops.\<close>

definition swapCell :: "nat \<Rightarrow> nat \<Rightarrow> nat list list \<Rightarrow> nat list list" where
  "swapCell r c b =
     (if b ! r ! c = PLAYER_RED then b[r := (b ! r)[c := PLAYER_BLUE]]
      else if b ! r ! c = PLAYER_BLUE then b[r := (b ! r)[c := PLAYER_RED]]
      else b)"

definition swapSides :: "HexGame \<Rightarrow> bool \<times> HexGame" where
  "swapSides g =
     (if moveCount g \<noteq> 1 \<or> \<not> swapAvailable g then (False, g)
      else (True, g \<lparr> board := fold (\<lambda>r b. fold (swapCell r) [0 ..< size_g g] b)
                                  [0 ..< size_g g] (board g),
                      swapAvailable := False,
                      currentPlayer := PLAYER_RED \<rparr>))"

definition getValidMoves :: "HexGame \<Rightarrow> cell list" where
  "getValidMoves g =
     concat (map (\<lambda>r. map (\<lambda>c. (int r, int c))
                         (filter (\<lambda>c. board g ! r ! c = EMPTY) [0 ..< size_g g]))
                 [0 ..< size_g g])"

text \<open>A well-formed board is a square of \<open>size\<close> rows of \<open>size\<close> cells, each one of the
  three cell values.\<close>

definition wf_board :: "HexGame \<Rightarrow> bool" where
  "wf_board g \<longleftrightarrow> length (board g) = size_g g \<and>
     list_all (\<lambda>row. length row = size_g g \<and>
                    list_all (\<lambda>v. v = EMPTY \<or> v = PLAYER_RED \<or> v = PLAYER_BLUE) row) (board g)"

text \<open>The recolouring of one cell by a swap: a red stone becomes blue, a blue one red.\<close>

definition invertCell :: "nat \<Rightarrow> nat" where
  "invertCell v = (if v = PLAYER_RED then PLAYER_BLUE else if v = PLAYER_BLUE then PLAYER_RED else v)"

section \<open>Position evaluator: bridge detection (HexEvaluator.isVirtuallyConnected)\<close>

text \<open>
  The chain of \<open>if\<close>/\<open>else if\<close> that selects the two intermediate cells from the offset
  \<open>(dr, dc)\<close>, in the order of the source; no branch leaves the list empty.
\<close>

definition intermediates :: "int \<Rightarrow> int \<Rightarrow> int \<Rightarrow> int \<Rightarrow> cell list" where
  "intermediates r1 c1 dr dc =
     (if dr = 2 \<and> dc = 0 then [(r1 + 1, c1 - 1), (r1 + 1, c1)]
      else if dr = - 2 \<and> dc = 0 then [(r1 - 1, c1), (r1 - 1, c1 + 1)]
      else if dr = 0 \<and> dc = 2 then [(r1 - 1, c1 + 1), (r1, c1 + 1)]
      else if dr = 0 \<and> dc = - 2 then [(r1, c1 - 1), (r1 + 1, c1 - 1)]
      else if dr = 1 \<and> dc = 1 then [(r1, c1 + 1), (r1 + 1, c1)]
      else if dr = - 1 \<and> dc = - 1 then [(r1 - 1, c1), (r1, c1 - 1)]
      else if dr = 1 \<and> dc = - 2 then [(r1, c1 - 1), (r1 + 1, c1 - 1)]
      else if dr = - 1 \<and> dc = 2 then [(r1 - 1, c1 + 1), (r1, c1 + 1)]
      else if dr = 2 \<and> dc = - 1 then [(r1 + 1, c1 - 1), (r1 + 1, c1)]
      else if dr = - 2 \<and> dc = 1 then [(r1 - 1, c1), (r1 - 1, c1 + 1)]
      else [])"

text \<open>The loop over the intermediate cells: the first cell that is out of bounds or not
  empty sets \<open>validBridge\<close> to \<open>false\<close> and leaves the loop.\<close>

fun checkIntermediates :: "HexGame \<Rightarrow> bool \<Rightarrow> cell list \<Rightarrow> bool" where
  "checkIntermediates g validBridge [] = validBridge"
| "checkIntermediates g validBridge ((ir, ic) # rest) =
     (if ir < 0 \<or> ir \<ge> int (size_g g) \<or> ic < 0 \<or> ic \<ge> int (size_g g) \<or>
         cellAt (board g) ir ic \<noteq> EMPTY
      then False
      else checkIntermediates g validBridge rest)"

definition isVirtuallyConnected :: "HexGame \<Rightarrow> cell \<Rightarrow> cell \<Rightarrow> nat \<Rightarrow> bool" where
  "isVirtuallyConnected g pos1 pos2 player =
     (let r1 = fst pos1; c1 = snd pos1; r2 = fst pos2; c2 = snd pos2;
          dr = r2 - r1; dc = c2 - c1
      in if \<bar>dr\<bar> + \<bar>dc\<bar> = 2
         then (let ims = intermediates r1 c1 dr dc
               in checkIntermediates g (length ims = 2) ims)
         else False)"

section \<open>Opening book (HexOpeningBook)\<close>

text \<open>
  \<open>Math.random()\<close> is an argument \<open>u\<close> of the model, a number with \<open>0 \<le> u < 1\<close>.
  \<open>xs[Math.floor(Math.random() * xs.length)]\<close> is \<open>pickRandom xs u\<close>; reading an array
  outside its range gives \<open>undefined\<close>, here \<open>None\<close>. A move or \<open>null\<close> is a
  \<open>cell option\<close>; reading a field of \<open>undefined\<close> raises a \<open>TypeError\<close>.
\<close>

datatype error = TypeError

definition pickRandom :: "'a list \<Rightarrow> real \<Rightarrow> 'a option" where
  "pickRandom xs u =
     (let i = \<lfloor>u * real (length xs)\<rfloor>
      in if 0 \<le> i \<and> i < int (length xs) then Some (xs ! nat i) else None)"

definition getOpening7x7 :: "HexGame \<Rightarrow> nat \<Rightarrow> real \<Rightarrow> error + cell option" where
  "getOpening7x7 g mc u =
     (let center = (3::int) in
      if mc = 0 then
        (let strongOpenings = [(2, 3), (3, 2), (3, 4), (4, 3), (2, 3), (3, 2), (3, 4), (4, 3)];
             goodOpenings = [(2, 2), (2, 4), (4, 2), (4, 4)];
             allOpenings = strongOpenings @ goodOpenings
         in Inr (pickRandom allOpenings u))
      else if mc = 1 \<and> currentPlayer g = PLAYER_BLUE then
        (case history g of
           [] \<Rightarrow> Inl TypeError
         | (row, col, pl) # _ \<Rightarrow>
            (let near = filter (\<lambda>(nr, nc). isValidMove g nr nc) (getNeighbors g row col);
                 far = concat (map (\<lambda>dr. concat (map (\<lambda>dc.
                         (let nr = row + dr; nc = col + dc;
                              distToCenter = \<bar>nr - center\<bar> + \<bar>nc - center\<bar>
                          in if isValidMove g nr nc \<and> distToCenter \<le> 2 then [(nr, nc)] else []))
                         [- 2, - 1, 0, 1, 2])) [- 2, - 1, 0, 1, 2]);
                 strongResponses = near @ far
             in if length strongResponses > 0 then Inr (pickRandom strongResponses u)
                else Inr None))
      else Inr None)"

definition getOpening11x11 :: "HexGame \<Rightarrow> nat \<Rightarrow> real \<Rightarrow> error + cell option" where
  "getOpening11x11 g mc u =
     (if mc = 0 then
        Inr (pickRandom [(4, 5), (5, 4), (5, 6), (6, 5),
                         (4, 4), (4, 6), (6, 4), (6, 6),
                         (3, 5), (5, 3), (5, 7), (7, 5)] u)
      else Inr None)"

definition getOpening13x13 :: "HexGame \<Rightarrow> nat \<Rightarrow> real \<Rightarrow> error + cell option" where
  "getOpening13x13 g mc u =
     (if mc = 0 then
        Inr (pickRandom [(5, 6), (6, 5), (6, 7), (7, 6),
                         (5, 5), (5, 7), (7, 5), (7, 7)] u)
      else Inr None)"

text \<open>\<open>offset\<close> is \<open>Math.floor(size / 6) || 1\<close>; the two loops run \<open>dr\<close> and \<open>dc\<close> from
  \<open>-offset\<close> to \<open>offset\<close>.\<close>

definition getDefaultOpening :: "HexGame \<Rightarrow> real \<Rightarrow> error + cell option" where
  "getDefaultOpening g u =
     (let center = int (size_g g div 2);
          offset = (if size_g g div 6 = 0 then 1 else int (size_g g div 6));
          candidates = concat (map (\<lambda>dr. concat (map (\<lambda>dc.
                         (if dr = 0 \<and> dc = 0 then []
                          else (let r = center + dr; c = center + dc
                                in if isValidMove g r c then [(r, c)] else [])))
                         [- offset ..  offset])) [- offset .. offset])
      in Inr (pickRandom candidates u))"

definition getOpeningMove :: "HexGame \<Rightarrow> real \<Rightarrow> error + cell option" where
  "getOpeningMove g u =
     (if moveCount g > 4 then Inr None
      else if size_g g = 7 then getOpening7x7 g (moveCount g) u
      else if size_g g = 11 then getOpening11x11 g (moveCount g) u
      else if size_g g = 13 then getOpening13x13 g (moveCount g) u
      else getDefaultOpening g u)"

text \<open>The invariant of a board state: the board is well formed and \<open>moveCount\<close> is the
  number of stones on it.\<close>

definition stoneCount :: "HexGame \<Rightarrow> nat" where
  "stoneCount g = sum_list (map (\<lambda>row. length (filter (\<lambda>v. v \<noteq> EMPTY) row)) (board g))"

definition wf_game :: "HexGame \<Rightarrow> bool" where
  "wf_game g \<longleftrightarrow> wf_board g \<and> moveCount g = stoneCount g"

section \<open>Connectivity tracker (classes UnionFind and FastHexGame)\<close>

text \<open>
  The typed arrays of the source are lists: \<open>board\<close> (\<open>Int8Array\<close>, holding the cell
  constants), \<open>groupStatus\<close> (\<open>Uint8Array\<close>, a list of 8-bit words) and the parent table
  of the union-find (\<open>Int16Array\<close>, a list of integers; every store goes through
  \<open>int16\<close>, the wrap-around of a 16-bit signed element). Reading a typed array outside
  its range gives \<open>undefined\<close> in the source; the operations of this section return
  \<open>None\<close> when that happens, and also when a loop does not terminate.
\<close>

definition int16 :: "int \<Rightarrow> int" where
  "int16 x = (x + 32768) mod 65536 - 32768"

text \<open>\<open>new UnionFind(n)\<close> followed by its \<open>reset\<close>: \<open>parent[i] = i\<close>.\<close>

definition uf_new :: "nat \<Rightarrow> int list" where
  "uf_new n = map (\<lambda>i. int16 (int i)) [0 ..< n]"

text \<open>The first loop of \<open>find\<close>: \<open>while (root !== this.parent[root]) root = this.parent[root]\<close>.\<close>

partial_function (option) findRoot :: "int list \<Rightarrow> int \<Rightarrow> int option" where
  "findRoot par rt =
     (if 0 \<le> rt \<and> rt < int (length par)
      then (if rt \<noteq> par ! nat rt then findRoot par (par ! nat rt) else Some rt)
      else None)"

declare findRoot.simps [code]

text \<open>The second loop of \<open>find\<close>, the path compression.\<close>

partial_function (option) compress :: "int list \<Rightarrow> int \<Rightarrow> int \<Rightarrow> int list option" where
  "compress par rt cur =
     (if cur \<noteq> rt
      then (if 0 \<le> cur \<and> cur < int (length par)
            then compress (par[nat cur := int16 rt]) rt (par ! nat cur)
            else None)
      else Some par)"

declare compress.simps [code]

definition find :: "int list \<Rightarrow> int \<Rightarrow> (int list \<times> int) option" where
  "find par i =
     (case findRoot par i of
        None \<Rightarrow> None
      | Some rt \<Rightarrow> (case compress par rt i of
                        None \<Rightarrow> None
                      | Some par' \<Rightarrow> Some (par', rt)))"

definition uf_union :: "int list \<Rightarrow> int \<Rightarrow> int \<Rightarrow> int list option" where
  "uf_union par i j =
     (case find par i of
        None \<Rightarrow> None
      | Some (par1, rootI) \<Rightarrow>
         (case find par1 j of
            None \<Rightarrow> None
          | Some (par2, rootJ) \<Rightarrow>
              if rootI \<noteq> rootJ then Some (par2[nat rootI := int16 rootJ]) else Some par2))"

record FastHexGame =
  size_f :: nat
  board_f :: "nat list"
  emptyCells :: "nat list"
  movesHistory :: "(nat \<times> nat) list"
  currentPlayer_f :: nat
  parent :: "int list"
  groupStatus :: "8 word list"
  initialBoard :: "nat list"
  initialPlayer :: nat
  initialEmpty :: "nat list"
  initialGroupStatus :: "8 word list"
  initialUF :: "int list"
  initialFilledCount :: nat
  filledCount :: nat

text \<open>The boundary bits of a cell: 1 top and 2 bottom for red, 4 left and 8 right for
  blue (every player other than 1 takes the \<open>else\<close> branch).\<close>

definition cellStatus :: "nat \<Rightarrow> nat \<Rightarrow> nat \<Rightarrow> 8 word" where
  "cellStatus n idx player =
     (let r = idx div n; c = idx mod n
      in if player = 1
         then (if r = 0 then 1 else 0) OR (if int r = int n - 1 then 2 else 0)
         else (if c = 0 then 4 else 0) OR (if int c = int n - 1 then 8 else 0))"

definition initCell :: "FastHexGame \<Rightarrow> nat \<Rightarrow> nat \<Rightarrow> FastHexGame option" where
  "initCell s idx player =
     (case find (parent s) (int idx) of
        None \<Rightarrow> None
      | Some (par, rt) \<Rightarrow>
          Some (s \<lparr> parent := par,
                    groupStatus := (groupStatus s)
                       [nat rt := (groupStatus s ! nat rt) OR cellStatus (size_f s) idx player] \<rparr>))"

definition unionGroups :: "FastHexGame \<Rightarrow> nat \<Rightarrow> nat \<Rightarrow> FastHexGame option" where
  "unionGroups s i j =
     (case find (parent s) (int i) of
        None \<Rightarrow> None
      | Some (par1, rootI) \<Rightarrow>
         (case find par1 (int j) of
            None \<Rightarrow> None
          | Some (par2, rootJ) \<Rightarrow>
              if rootI \<noteq> rootJ then
                (let status = (groupStatus s ! nat rootI) OR (groupStatus s ! nat rootJ)
                 in case uf_union par2 rootI rootJ of
                      None \<Rightarrow> None
                    | Some par3 \<Rightarrow>
                       (case find par3 rootI of
                          None \<Rightarrow> None
                        | Some (par4, newRoot) \<Rightarrow>
                            Some (s \<lparr> parent := par4,
                                      groupStatus := (groupStatus s)[nat newRoot := status] \<rparr>)))
              else Some (s \<lparr> parent := par2 \<rparr>)))"

definition getNeighborsIdx :: "FastHexGame \<Rightarrow> nat \<Rightarrow> nat list" where
  "getNeighborsIdx s idx =
     (let r = int (idx div size_f s); c = int (idx mod size_f s)
      in map (\<lambda>(nr, nc). nat (nr * int (size_f s) + nc))
           (filter (\<lambda>(nr, nc). nr \<ge> 0 \<and> nr < int (size_f s) \<and> nc \<ge> 0 \<and> nc < int (size_f s))
              (map (\<lambda>(dr, dc). (r + dr, c + dc))
                 (zip [- 1, - 1, 0, 0, 1, 1] [0, 1, - 1, 1, - 1, 0]))))"

text \<open>The loop \<open>for (const n of ns) if (board[n] === player) unionGroups(idx, n)\<close>.\<close>

fun unionNeighbors :: "FastHexGame \<Rightarrow> nat \<Rightarrow> nat \<Rightarrow> nat list \<Rightarrow> FastHexGame option" where
  "unionNeighbors s idx player [] = Some s"
| "unionNeighbors s idx player (n # ns) =
     (if board_f s ! n = player
      then (case unionGroups s idx n of
              None \<Rightarrow> None
            | Some s' \<Rightarrow> unionNeighbors s' idx player ns)
      else unionNeighbors s idx player ns)"

text \<open>The two loops of the constructor over the occupied cells.\<close>

fun initCells :: "FastHexGame \<Rightarrow> nat list \<Rightarrow> FastHexGame option" where
  "initCells s [] = Some s"
| "initCells s (i # is) =
     (if board_f s ! i \<noteq> 0
      then (case initCell s i (board_f s ! i) of
              None \<Rightarrow> None
            | Some s' \<Rightarrow> initCells s' is)
      else initCells s is)"

fun unionCells :: "FastHexGame \<Rightarrow> nat list \<Rightarrow> FastHexGame option" where
  "unionCells s [] = Some s"
| "unionCells s (i # is) =
     (if board_f s ! i \<noteq> 0
      then (case unionNeighbors s i (board_f s ! i) (getNeighborsIdx s i) of
              None \<Rightarrow> None
            | Some s' \<Rightarrow> unionCells s' is)
      else unionCells s is)"

text \<open>\<open>new FastHexGame(sourceGame)\<close>: the flat copy of the board in row-major order, the
  list of empty indices, the connectivity of the stones, and the snapshots for
  \<open>reset\<close>.\<close>

definition newFastHexGame :: "HexGame \<Rightarrow> FastHexGame option" where
  "newFastHexGame g =
     (let n = size_g g;
          flat = concat (map (\<lambda>r. map (\<lambda>c. board g ! r ! c) [0 ..< n]) [0 ..< n]);
          empties = concat (map (\<lambda>r. concat (map (\<lambda>c.
                       if board g ! r ! c = 0 then [r * n + c] else []) [0 ..< n])) [0 ..< n]);
          s0 = \<lparr> size_f = n, board_f = flat, emptyCells = empties, movesHistory = [],
                 currentPlayer_f = currentPlayer g,
                 parent = uf_new (n * n), groupStatus = replicate (n * n) 0,
                 initialBoard = [], initialPlayer = 0, initialEmpty = [],
                 initialGroupStatus = [], initialUF = [],
                 initialFilledCount = 0, filledCount = 0 \<rparr>
      in case initCells s0 [0 ..< length flat] of
           None \<Rightarrow> None
         | Some s1 \<Rightarrow>
            (case unionCells s1 [0 ..< length flat] of
               None \<Rightarrow> None
             | Some s2 \<Rightarrow>
                 Some (s2 \<lparr> initialBoard := board_f s2,
                            initialPlayer := currentPlayer_f s2,
                            initialEmpty := emptyCells s2,
                            initialGroupStatus := groupStatus s2,
                            initialUF := parent s2,
                            initialFilledCount := n * n - length (emptyCells s2),
                            filledCount := n * n - length (emptyCells s2) \<rparr>)))"

definition reset :: "FastHexGame \<Rightarrow> FastHexGame" where
  "reset s = s \<lparr> board_f := initialBoard s,
                 currentPlayer_f := initialPlayer s,
                 emptyCells := initialEmpty s,
                 movesHistory := [],
                 groupStatus := initialGroupStatus s,
                 parent := initialUF s,
                 filledCount := initialFilledCount s \<rparr>"

text \<open>\<open>emptyCells.indexOf(idx)\<close> followed by the swap with the last element and
  \<open>pop\<close>.\<close>

fun indexOf :: "nat list \<Rightarrow> nat \<Rightarrow> nat option" where
  "indexOf [] x = None"
| "indexOf (y # ys) x = (if y = x then Some 0 else map_option Suc (indexOf ys x))"

definition removeEmpty :: "nat list \<Rightarrow> nat \<Rightarrow> nat list" where
  "removeEmpty ec idx =
     (case indexOf ec idx of
        None \<Rightarrow> ec
      | Some k \<Rightarrow> butlast (ec[k := last ec]))"

text \<open>The part shared by \<open>makeMove\<close> and the end of each round of \<open>playoutSmart\<close>:
  place the stone, record it, update the empty list and the connectivity, pass the
  turn. A write to a cell outside the board is outside the model.\<close>

definition placeStone :: "FastHexGame \<Rightarrow> nat \<Rightarrow> FastHexGame option" where
  "placeStone s idx =
     (if idx < length (board_f s) then
        (let player = currentPlayer_f s;
             s1 = s \<lparr> board_f := (board_f s)[idx := player],
                       movesHistory := movesHistory s @ [(idx, player)],
                       emptyCells := removeEmpty (emptyCells s) idx \<rparr>
         in case initCell s1 idx player of
              None \<Rightarrow> None
            | Some s2 \<Rightarrow>
               (case unionNeighbors s2 idx player (getNeighborsIdx s2 idx) of
                  None \<Rightarrow> None
                | Some s3 \<Rightarrow> Some (s3 \<lparr> currentPlayer_f := (if player = 1 then 2 else 1) \<rparr>)))
      else None)"

definition makeMove_f :: "FastHexGame \<Rightarrow> nat \<Rightarrow> nat \<Rightarrow> FastHexGame option" where
  "makeMove_f s r c = placeStone (s \<lparr> filledCount := filledCount s + 1 \<rparr>) (r * size_f s + c)"

text \<open>\<open>checkWin\<close> of the tracker. \<open>find\<close> compresses paths, so the call returns the
  state as well.\<close>

fun checkWinLoop :: "nat \<Rightarrow> 8 word \<Rightarrow> nat list \<Rightarrow> FastHexGame \<Rightarrow> (bool \<times> FastHexGame) option" where
  "checkWinLoop player winningMask [] s = Some (False, s)"
| "checkWinLoop player winningMask (i # is) s =
     (if board_f s ! i = player
      then (case find (parent s) (int i) of
              None \<Rightarrow> None
            | Some (par, rt) \<Rightarrow>
                if (groupStatus s ! nat rt) AND winningMask = winningMask
                then Some (True, s \<lparr> parent := par \<rparr>)
                else checkWinLoop player winningMask is (s \<lparr> parent := par \<rparr>))
      else checkWinLoop player winningMask is s)"

definition checkWin_f :: "FastHexGame \<Rightarrow> nat \<Rightarrow> (bool \<times> FastHexGame) option" where
  "checkWin_f s player =
     checkWinLoop player (if player = 1 then 3 else 12) [0 ..< length (board_f s)] s"

subsection \<open>The playout of the optimized variant (FastHexGame.playoutSmart)\<close>

text \<open>\<open>getCommonEmptyNeighbor\<close> returns a cell or \<open>-1\<close>, here \<open>None\<close>.\<close>

definition getCommonEmptyNeighbor :: "FastHexGame \<Rightarrow> nat \<Rightarrow> nat \<Rightarrow> nat \<Rightarrow> nat option" where
  "getCommonEmptyNeighbor s n1 n2 exclude =
     List.find (\<lambda>n. n \<noteq> exclude \<and> board_f s ! n = 0 \<and> n \<in> set (getNeighborsIdx s n2))
       (getNeighborsIdx s n1)"

text \<open>The two nested loops over the pairs of own neighbours of the last move; the first
  pair with a common empty neighbour ends both loops.\<close>

fun firstCommon :: "FastHexGame \<Rightarrow> nat \<Rightarrow> nat \<Rightarrow> nat list \<Rightarrow> nat option" where
  "firstCommon s oppIdx n1 [] = None"
| "firstCommon s oppIdx n1 (n2 # rest) =
     (case getCommonEmptyNeighbor s n1 n2 oppIdx of
        Some common \<Rightarrow> Some common
      | None \<Rightarrow> firstCommon s oppIdx n1 rest)"

fun firstSave :: "FastHexGame \<Rightarrow> nat \<Rightarrow> nat list \<Rightarrow> nat option" where
  "firstSave s oppIdx [] = None"
| "firstSave s oppIdx (n1 # rest) =
     (case firstCommon s oppIdx n1 rest of
        Some common \<Rightarrow> Some common
      | None \<Rightarrow> firstSave s oppIdx rest)"

definition bridgeSave :: "FastHexGame \<Rightarrow> nat option" where
  "bridgeSave s =
     (if length (movesHistory s) > 0 then
        (let oppIdx = fst (last (movesHistory s));
             myPlayer = currentPlayer_f s;
             myNeighbors = filter (\<lambda>n. board_f s ! n = myPlayer) (getNeighborsIdx s oppIdx)
         in firstSave s oppIdx myNeighbors)
      else None)"

text \<open>The random choice of an empty cell. Each \<open>Math.random()\<close> takes the next number
  of the list \<open>rs\<close>; the retry loop for the centre of the 7x7 board takes one number per
  round. \<open>None\<close>: the numbers supplied do not suffice, or the index computed from one of
  them is outside \<open>emptyCells\<close>.\<close>

fun retryCenter :: "nat list \<Rightarrow> nat \<Rightarrow> nat \<Rightarrow> real list \<Rightarrow> (nat \<times> real list) option" where
  "retryCenter ec centerIdx best [] = (if best = centerIdx then None else Some (best, []))"
| "retryCenter ec centerIdx best (u # rs) =
     (if best = centerIdx
      then (case pickRandom ec u of
              None \<Rightarrow> None
            | Some b \<Rightarrow> retryCenter ec centerIdx b rs)
      else Some (best, u # rs))"

definition randomMove :: "FastHexGame \<Rightarrow> real list \<Rightarrow> (nat \<times> real list) option" where
  "randomMove s rs =
     (case rs of
        [] \<Rightarrow> None
      | u # rs' \<Rightarrow>
          (case pickRandom (emptyCells s) u of
             None \<Rightarrow> None
           | Some best \<Rightarrow>
               if size_f s = 7 \<and> filledCount s = 0
               then retryCenter (emptyCells s)
                      ((size_f s div 2) * size_f s + size_f s div 2) best rs'
               else Some (best, rs')))"

definition chooseMove :: "FastHexGame \<Rightarrow> real list \<Rightarrow> (nat \<times> real list) option" where
  "chooseMove s rs =
     (case bridgeSave s of
        Some common \<Rightarrow> Some (common, rs)
      | None \<Rightarrow> randomMove s rs)"

text \<open>The \<open>while (true)\<close> loop; the result is the winner (0 when no cell is left), the
  state and the random numbers not used.\<close>

partial_function (option) playoutSmart ::
    "real list \<Rightarrow> FastHexGame \<Rightarrow> (nat \<times> FastHexGame \<times> real list) option" where
  "playoutSmart rs s =
     (case checkWin_f s 1 of
        None \<Rightarrow> None
      | Some (w1, s1) \<Rightarrow>
          if w1 then Some (1, s1, rs)
          else (case checkWin_f s1 2 of
                  None \<Rightarrow> None
                | Some (w2, s2) \<Rightarrow>
                    if w2 then Some (2, s2, rs)
                    else if length (emptyCells s2) = 0 then Some (0, s2, rs)
                    else (case chooseMove s2 rs of
                            None \<Rightarrow> None
                          | Some (idx, rs') \<Rightarrow>
                              (case placeStone s2 idx of
                                 None \<Rightarrow> None
                               | Some s3 \<Rightarrow> playoutSmart rs' s3))))"

declare playoutSmart.simps [code]

text \<open>A sequence of calls on one FastHexGame.\<close>

datatype fastOp = MakeMove nat nat | PlayoutSmart "real list"

fun runOps :: "FastHexGame \<Rightarrow> fastOp list \<Rightarrow> FastHexGame option" where
  "runOps s [] = Some s"
| "runOps s (MakeMove r c # ops) =
     (case makeMove_f s r c of None \<Rightarrow> None | Some s' \<Rightarrow> runOps s' ops)"
| "runOps s (PlayoutSmart rs # ops) =
     (case playoutSmart rs s of None \<Rightarrow> None | Some (w, s', rs') \<Rightarrow> runOps s' ops)"

text \<open>The fields that the constructor writes once and \<open>reset\<close> reads.\<close>

definition snapshot ::
    "FastHexGame \<Rightarrow> nat \<times> nat list \<times> nat \<times> nat list \<times> 8 word list \<times> int list \<times> nat" where
  "snapshot s = (size_f s, initialBoard s, initialPlayer s, initialEmpty s,
                 initialGroupStatus s, initialUF s, initialFilledCount s)"

section \<open>Bounded search (HexHeuristicSearch.negamax)\<close>

text \<open>
  Scores are JavaScript numbers: a real number or one of the two infinities that start
  the search window. \<open>HexEvaluator.evaluatePosition\<close> is a floating-point computation;
  the search is modelled for an arbitrary evaluation function \<open>ev\<close> (game and player to a
  finite number), and every statement about the search below holds for each \<open>ev\<close>.
\<close>

datatype num = MInf | Num real | PInf

fun neg :: "num \<Rightarrow> num" where
  "neg MInf = PInf"
| "neg (Num x) = Num (- x)"
| "neg PInf = MInf"

text \<open>\<open>a > b\<close>, \<open>a >= b\<close> and \<open>Math.max(a, b)\<close>.\<close>

fun gt :: "num \<Rightarrow> num \<Rightarrow> bool" where
  "gt MInf b = False"
| "gt (Num x) MInf = True"
| "gt (Num x) (Num y) = (x > y)"
| "gt (Num x) PInf = False"
| "gt PInf PInf = False"
| "gt PInf b = True"

definition ge :: "num \<Rightarrow> num \<Rightarrow> bool" where
  "ge a b \<longleftrightarrow> gt a b \<or> a = b"

definition maxNum :: "num \<Rightarrow> num \<Rightarrow> num" where
  "maxNum a b = (if gt b a then b else a)"

type_synonym evaluator = "HexGame \<Rightarrow> nat \<Rightarrow> real"

text \<open>The result object \<open>{score, move}\<close> and the memo table: \<open>cache.set\<close> puts a new
  entry in front, \<open>cache.get\<close> finds the first entry with the key. The key string
  \<open>board|currentPlayer|player|depth\<close> is the tuple of its parts; the digits of the board
  are the cells in row-major order.\<close>

type_synonym result = "num \<times> cell option"
type_synonym cacheKey = "nat list \<times> nat \<times> nat \<times> nat"
type_synonym cache = "(cacheKey \<times> nat \<times> result) list"

definition getCacheKey :: "HexGame \<Rightarrow> nat \<Rightarrow> nat \<Rightarrow> cacheKey" where
  "getCacheKey g depth player = (concat (board g), currentPlayer g, player, depth)"

definition evaluate :: "evaluator \<Rightarrow> HexGame \<Rightarrow> nat \<Rightarrow> real" where
  "evaluate ev g player =
     (if gameOver g then
        (if winner g = Some player then 1000
         else if winner g = Some (otherPlayer player) then - 1000
         else 0)
      else (let playerScore = ev g player;
                opponent = otherPlayer player;
                opponentScore = ev g opponent
            in (playerScore - opponentScore) * 100))"

text \<open>\<open>orderMoves\<close>: score every empty cell by the evaluator on the board with the stone
  placed, sort by descending score (the sort is stable), keep the first
  \<open>Math.max(beamWidth, 1)\<close>.\<close>

definition orderMoves :: "evaluator \<Rightarrow> HexGame \<Rightarrow> nat \<Rightarrow> cell list" where
  "orderMoves ev g beamWidth =
     (let moves = getValidMoves g;
          scoredMoves = map (\<lambda>m. (m, ev (g \<lparr> board := setCell (board g) (fst m) (snd m)
                                                      (currentPlayer g) \<rparr>) (currentPlayer g))) moves;
          sorted = sort_key (\<lambda>ms. - snd ms) scoredMoves;
          limited = take (max beamWidth 1) sorted
      in map fst limited)"

text \<open>\<open>negamax\<close> and its loop over the ordered moves. The loop carries \<open>alpha\<close>,
  \<open>bestScore\<close>, \<open>bestMove\<close> and the memo table; \<open>d\<close> is \<open>depth - 1\<close>. The parameter
  \<open>player\<close> is handed on unchanged to the recursive call, as in the source.\<close>

fun negamax :: "evaluator \<Rightarrow> cache \<Rightarrow> HexGame \<Rightarrow> nat \<Rightarrow> num \<Rightarrow> num \<Rightarrow> nat \<Rightarrow> nat
                  \<Rightarrow> result \<times> cache"
and negamaxLoop :: "evaluator \<Rightarrow> cache \<Rightarrow> HexGame \<Rightarrow> nat \<Rightarrow> num \<Rightarrow> num \<Rightarrow> nat \<Rightarrow> nat
                  \<Rightarrow> num \<Rightarrow> cell option \<Rightarrow> cell list \<Rightarrow> result \<times> cache" where
  "negamax ev cache g 0 alpha beta player beamWidth =
     (let cacheKey = getCacheKey g 0 player
      in case map_of cache cacheKey of
           Some (cdepth, cresult) \<Rightarrow> (cresult, cache)
         | None \<Rightarrow>
            (let res = (Num (evaluate ev g player), None)
             in (res, (cacheKey, 0, res) # cache)))"
| "negamax ev cache g (Suc d) alpha beta player beamWidth =
     (let cacheKey = getCacheKey g (Suc d) player;
          cached = (case map_of cache cacheKey of
                      Some (cdepth, cresult) \<Rightarrow> if cdepth \<ge> Suc d then Some cresult else None
                    | None \<Rightarrow> None)
      in case cached of
           Some cresult \<Rightarrow> (cresult, cache)
         | None \<Rightarrow>
            if gameOver g then
              (let res = (Num (evaluate ev g player), None)
               in (res, (cacheKey, Suc d, res) # cache))
            else
              (let orderedMoves = orderMoves ev g beamWidth
               in if length orderedMoves = 0 then
                    (let res = (Num (evaluate ev g player), None)
                     in (res, (cacheKey, Suc d, res) # cache))
                  else
                    (let rc = negamaxLoop ev cache g d alpha beta player beamWidth
                                MInf None orderedMoves
                     in (fst rc, (cacheKey, Suc d, fst rc) # snd rc))))"
| "negamaxLoop ev cache g d alpha beta player beamWidth bestScore bestMove [] =
     ((bestScore, bestMove), cache)"
| "negamaxLoop ev cache g d alpha beta player beamWidth bestScore bestMove (m # ms) =
     (let child = snd (makeMove g (fst m) (snd m));
          nc = negamax ev cache child d (neg beta) (neg alpha) player beamWidth;
          score = neg (fst (fst nc));
          better = gt score bestScore;
          bestScore' = (if better then score else bestScore);
          bestMove' = (if better then Some m else bestMove);
          alpha' = maxNum alpha score
      in if ge alpha' beta then ((bestScore', bestMove'), snd nc)
         else negamaxLoop ev (snd nc) g d alpha' beta player beamWidth bestScore' bestMove' ms)"

text \<open>\<open>getBestMove\<close> of the search object, with its memo table.\<close>

definition getBestMove_search :: "evaluator \<Rightarrow> cache \<Rightarrow> HexGame \<Rightarrow> nat \<Rightarrow> nat \<Rightarrow> nat
                                    \<Rightarrow> cell option \<times> cache" where
  "getBestMove_search ev cache g player depth beam =
     (let rc = negamax ev cache g depth MInf PInf player beam in (snd (fst rc), snd rc))"

subsection \<open>The exact minimax value, as the specification words it\<close>

text \<open>
  The game-theoretic value of a position for a side, with the terminal values of the
  search: \<open>+1000\<close> when the side has won, \<open>-1000\<close> when its opponent has. The side
  maximises at its own turns and its opponent minimises. \<open>n\<close> bounds the number of plies
  and is at least the number of empty cells.
\<close>

definition terminalValue :: "HexGame \<Rightarrow> nat \<Rightarrow> real" where
  "terminalValue g side =
     (if winner g = Some side then 1000
      else if winner g = Some (otherPlayer side) then - 1000 else 0)"

definition legalMoves :: "HexGame \<Rightarrow> cell list" where
  "legalMoves g = filter (\<lambda>m. isValidMove g (fst m) (snd m)) (getValidMoves g)"

fun exactMinimax :: "nat \<Rightarrow> HexGame \<Rightarrow> nat \<Rightarrow> real" where
  "exactMinimax 0 g side = terminalValue g side"
| "exactMinimax (Suc n) g side =
     (if gameOver g \<or> legalMoves g = [] then terminalValue g side
      else (let vs = map (\<lambda>m. exactMinimax n (snd (makeMove g (fst m) (snd m))) side)
                         (legalMoves g)
            in if currentPlayer g = side then fold max (tl vs) (hd vs)
               else fold min (tl vs) (hd vs)))"

text \<open>A position late in a game on the 4x4 board: fifteen stones, no winner yet, blue to
  move; the one empty cell \<open>(1,2)\<close> completes blue's second row.\<close>

definition lateGame4 :: HexGame where
  "lateGame4 = \<lparr> size_g = 4,
       board = [[2, 2, 1, 1], [2, 2, 0, 2], [1, 1, 1, 1], [2, 2, 1, 1]],
       currentPlayer = 2, moveCount = 15, gameOver = False, winner = None,
       swapAvailable = False,
       history = [(0, 2, 1), (0, 0, 2), (0, 3, 1), (0, 1, 2), (2, 0, 1), (1, 0, 2),
                  (2, 1, 1), (1, 1, 2), (2, 2, 1), (1, 3, 2), (2, 3, 1), (3, 0, 2),
                  (3, 2, 1), (3, 1, 2), (3, 3, 1)] \<rparr>"

text \<open>The same position after blue's winning move.\<close>

definition wonGame4 :: HexGame where
  "wonGame4 = \<lparr> size_g = 4,
       board = [[2, 2, 1, 1], [2, 2, 2, 2], [1, 1, 1, 1], [2, 2, 1, 1]],
       currentPlayer = 2, moveCount = 16, gameOver = True, winner = Some 2,
       swapAvailable = False,
       history = [(0, 2, 1), (0, 0, 2), (0, 3, 1), (0, 1, 2), (2, 0, 1), (1, 0, 2),
                  (2, 1, 1), (1, 1, 2), (2, 2, 1), (1, 3, 2), (2, 3, 1), (3, 0, 2),
                  (3, 2, 1), (3, 1, 2), (3, 3, 1), (1, 2, 2)] \<rparr>"

text \<open>The 4x4 board after red's first move at \<open>(0,0)\<close>.\<close>

definition firstMove4 :: HexGame where
  "firstMove4 = \<lparr> size_g = 4,
       board = [[1, 0, 0, 0], [0, 0, 0, 0], [0, 0, 0, 0], [0, 0, 0, 0]],
       currentPlayer = 2, moveCount = 1, gameOver = False, winner = None,
       swapAvailable = False, history = [(0, 0, 1)] \<rparr>"

section \<open>Standard Monte-Carlo tree search (classes MCTSNode and MCTSAI)\<close>

text \<open>
  The nodes of the search tree live in a list; a node is addressed by its position, in
  the order of creation, so a parent comes before its children. \<open>parent\<close> and \<open>move\<close> are
  \<open>null\<close> at the root, \<open>aiPlayer\<close> is \<open>null\<close> until \<open>setPlayer\<close> is called.
\<close>

record MCTSNode =
  game_n :: HexGame
  aiPlayer_n :: "nat option"
  move_n :: "cell option"
  parent_n :: "nat option"
  children_n :: "nat list"
  wins_n :: nat
  visits_n :: nat
  raveWins_n :: nat
  raveVisits_n :: nat
  untriedMoves_n :: "cell list"

type_synonym tree = "MCTSNode list"

text \<open>The board with one cell overwritten, as in \<open>tempGame.board[r][c] = player\<close> on a
  copy.\<close>

definition withStone :: "HexGame \<Rightarrow> cell \<Rightarrow> nat \<Rightarrow> HexGame" where
  "withStone g m p = g \<lparr> board := setCell (board g) (fst m) (snd m) p \<rparr>"

text \<open>\<open>prioritizeMoves\<close> sorts the moves by a floating-point score, highest first; the
  score is the argument \<open>sc\<close>.\<close>

definition prioritizeMoves :: "(HexGame \<Rightarrow> cell \<Rightarrow> real) \<Rightarrow> HexGame \<Rightarrow> cell list \<Rightarrow> cell list" where
  "prioritizeMoves sc g moves =
     map fst (sort_key (\<lambda>ms. - snd ms) (map (\<lambda>m. (m, sc g m)) moves))"

definition newNode ::
    "(HexGame \<Rightarrow> cell \<Rightarrow> real) \<Rightarrow> HexGame \<Rightarrow> nat option \<Rightarrow> cell option \<Rightarrow> nat option \<Rightarrow> MCTSNode" where
  "newNode sc g ai mv par =
     \<lparr> game_n = g, aiPlayer_n = ai, move_n = mv, parent_n = par, children_n = [],
       wins_n = 0, visits_n = 0, raveWins_n = 0, raveVisits_n = 0,
       untriedMoves_n = prioritizeMoves sc g (getValidMoves g) \<rparr>"

text \<open>\<open>expand\<close>: the first untried move becomes a new child, appended to the list of
  nodes; the result is the tree and the child. On an empty \<open>untriedMoves\<close> the source
  reads \<open>move[0]\<close> of \<open>undefined\<close>.\<close>

definition expand :: "(HexGame \<Rightarrow> cell \<Rightarrow> real) \<Rightarrow> tree \<Rightarrow> nat \<Rightarrow> error + tree \<times> nat" where
  "expand sc t n =
     (case untriedMoves_n (t ! n) of
        [] \<Rightarrow> Inl TypeError
      | m # rest \<Rightarrow>
          (let newGame = snd (makeMove (game_n (t ! n)) (fst m) (snd m));
               childNode = newNode sc newGame (aiPlayer_n (t ! n)) (Some m) (Some n);
               c = length t;
               t1 = t[n := (t ! n) \<lparr> untriedMoves_n := rest,
                                      children_n := children_n (t ! n) @ [c] \<rparr>]
           in Inr (t1 @ [childNode], c)))"

text \<open>\<open>findSimulationCriticalMove\<close>: the first move that wins at once, else the first
  move with which the opponent would win at once, else \<open>null\<close>.\<close>

definition findSimulationCriticalMove :: "HexGame \<Rightarrow> cell option" where
  "findSimulationCriticalMove g =
     (let moves = getValidMoves g
      in case List.find (\<lambda>m. checkWin (withStone g m (currentPlayer g)) (currentPlayer g)) moves of
           Some m \<Rightarrow> Some m
         | None \<Rightarrow>
            (let opponent = otherPlayer (currentPlayer g)
             in List.find (\<lambda>m. checkWin (withStone g m opponent) opponent) moves))"

text \<open>
  The loop of \<open>simulate\<close>. When there is no critical move the source samples a move from
  a softmax over floating-point scores, or falls back to the first; here the index of
  the move chosen among \<open>moves\<close> is the next number of the list \<open>ks\<close>. Each move played is
  recorded with \<open>simGame.currentPlayer\<close> read after \<open>makeMove\<close>. \<open>None\<close>: the numbers
  supplied do not suffice or are not indices of \<open>moves\<close>, or the loop does not end.
\<close>

partial_function (option) simulateLoop ::
    "nat list \<Rightarrow> HexGame \<Rightarrow> (cell \<times> nat) list \<Rightarrow> (HexGame \<times> (cell \<times> nat) list) option" where
  "simulateLoop ks simGame playedMoves =
     (if gameOver simGame then Some (simGame, playedMoves)
      else (let moves = getValidMoves simGame
            in if length moves = 0 then Some (simGame, playedMoves)
               else (case findSimulationCriticalMove simGame of
                       Some m \<Rightarrow>
                         (let g' = snd (makeMove simGame (fst m) (snd m))
                          in simulateLoop ks g' (playedMoves @ [(m, currentPlayer g')]))
                     | None \<Rightarrow>
                         (case ks of
                            [] \<Rightarrow> None
                          | k # ks' \<Rightarrow>
                              if k < length moves then
                                (let m = moves ! k;
                                     g' = snd (makeMove simGame (fst m) (snd m))
                                 in simulateLoop ks' g' (playedMoves @ [(m, currentPlayer g')]))
                              else None))))"

declare simulateLoop.simps [code]

text \<open>The result object \<open>{winner, playedMoves}\<close> of \<open>simulate\<close>.\<close>

definition simulate :: "nat list \<Rightarrow> MCTSNode \<Rightarrow> (nat option \<times> (cell \<times> nat) list) option" where
  "simulate ks node =
     (case simulateLoop ks (game_n node) [] of
        None \<Rightarrow> None
      | Some (simGame, playedMoves) \<Rightarrow> Some (winner simGame, playedMoves))"

text \<open>
  \<open>backpropagate\<close>. \<open>raveMatch\<close> is the condition of the inner loop over the played
  moves, which stops at the first match; \<open>raveUpdate\<close> is the body of the loop over the
  children of the parent. The recursion follows the parent, which precedes its child in
  the list of nodes.
\<close>

definition raveMatch :: "MCTSNode \<Rightarrow> MCTSNode \<Rightarrow> (cell \<times> nat) list \<Rightarrow> bool" where
  "raveMatch this child playedMoves =
     list_ex (\<lambda>pm. (case move_n child of
                      None \<Rightarrow> False
                    | Some m \<Rightarrow> fst m = fst (fst pm) \<and> snd m = snd (fst pm)) \<and>
                   snd pm = currentPlayer (game_n this)) playedMoves"

definition raveUpdate ::
    "MCTSNode \<Rightarrow> nat option \<Rightarrow> (cell \<times> nat) list \<Rightarrow> nat \<Rightarrow> tree \<Rightarrow> tree" where
  "raveUpdate this w playedMoves c t =
     (if raveMatch this (t ! c) playedMoves
      then t[c := (t ! c) \<lparr> raveVisits_n := raveVisits_n (t ! c) + 1,
                             raveWins_n := (if w = aiPlayer_n this then raveWins_n (t ! c) + 1
                                            else raveWins_n (t ! c)) \<rparr>]
      else t)"

function backpropagate :: "tree \<Rightarrow> nat \<Rightarrow> nat option \<times> (cell \<times> nat) list \<Rightarrow> tree option" where
  "backpropagate t n res =
     (if n < length t then
        (let this = t ! n;
             t1 = t[n := this \<lparr> visits_n := visits_n this + 1,
                                wins_n := (if fst res = aiPlayer_n this then wins_n this + 1
                                           else wins_n this) \<rparr>]
         in case parent_n this of
              None \<Rightarrow> Some t1
            | Some p \<Rightarrow>
                if p < n
                then backpropagate
                       (fold (raveUpdate this (fst res) (snd res)) (children_n (t1 ! p)) t1) p res
                else None)
      else None)"
  by pat_completeness auto
termination
  by (relation "measure (\<lambda>(t, n, res). n)") auto

text \<open>
  The moves of a simulated episode with the side that played each of them: the loop of
  \<open>simulate\<close> again, recording \<open>simGame.currentPlayer\<close> as it is before \<open>makeMove\<close>. This is
  the "simulated sequence" of the specification, against which the tags of
  \<open>playedMoves\<close> are compared.
\<close>

partial_function (option) simulatedSequence ::
    "nat list \<Rightarrow> HexGame \<Rightarrow> (cell \<times> nat) list \<Rightarrow> (cell \<times> nat) list option" where
  "simulatedSequence ks simGame played =
     (if gameOver simGame then Some played
      else (let moves = getValidMoves simGame
            in if length moves = 0 then Some played
               else (case findSimulationCriticalMove simGame of
                       Some m \<Rightarrow>
                         simulatedSequence ks (snd (makeMove simGame (fst m) (snd m)))
                           (played @ [(m, currentPlayer simGame)])
                     | None \<Rightarrow>
                         (case ks of
                            [] \<Rightarrow> None
                          | k # ks' \<Rightarrow>
                              if k < length moves then
                                (let m = moves ! k
                                 in simulatedSequence ks' (snd (makeMove simGame (fst m) (snd m)))
                                      (played @ [(m, currentPlayer simGame)]))
                              else None))))"

declare simulatedSequence.simps [code]

text \<open>
  The entries of \<open>playedMoves\<close> against the moves of the episode. \<open>recorded played tags\<close>:
  apart from the last move of the episode, a move is recorded in \<open>tags\<close> with a side
  exactly when the other side played it in \<open>played\<close>; \<open>simulate\<close> records the side to move
  after the move.
\<close>

definition recorded :: "(cell \<times> nat) list \<Rightarrow> (cell \<times> nat) list \<Rightarrow> bool" where
  "recorded played tags \<longleftrightarrow>
     (tags = [] \<longleftrightarrow> played = []) \<and>
     (\<forall>m X. (X = PLAYER_RED \<or> X = PLAYER_BLUE) \<longrightarrow> (played = [] \<or> m \<noteq> fst (last played)) \<longrightarrow>
        ((m, X) \<in> set tags \<longleftrightarrow> (m, otherPlayer X) \<in> set played))"

text \<open>A well-formed tree: a parent precedes its child, the children of a node are
  distinct nodes of the tree, and a node is a child of exactly its parent.\<close>

definition wf_tree :: "tree \<Rightarrow> bool" where
  "wf_tree t \<longleftrightarrow>
     (\<forall>i < length t.
        (\<forall>p. parent_n (t ! i) = Some p \<longrightarrow> p < i) \<and>
        distinct (children_n (t ! i)) \<and>
        (\<forall>c \<in> set (children_n (t ! i)). c < length t \<and> parent_n (t ! c) = Some i))"

text \<open>\<open>onPath ps n a\<close>: \<open>a\<close> is the node \<open>n\<close> or one of its ancestors, where \<open>ps\<close> lists the
  parent of every node.\<close>

inductive onPath :: "nat option list \<Rightarrow> nat \<Rightarrow> nat \<Rightarrow> bool" where
  self: "onPath ps n n"
| up: "ps ! n = Some p \<Longrightarrow> onPath ps p a \<Longrightarrow> onPath ps n a"

text \<open>The fields of the nodes that backpropagation only reads.\<close>

definition shape ::
    "tree \<Rightarrow> (HexGame \<times> nat option \<times> cell option \<times> nat option \<times> nat list) list" where
  "shape t = map (\<lambda>nd. (game_n nd, aiPlayer_n nd, move_n nd, parent_n nd, children_n nd)) t"

text \<open>A tree on the 3x3 board, searched for red: the root (red to move), its child after
  red's move at \<open>(1,1)\<close>, and three children of that node, after blue's answers at
  \<open>(0,0)\<close>, at \<open>(2,0)\<close> and at \<open>(0,1)\<close>.\<close>

definition raveTree :: tree where
  "raveTree =
     [\<lparr> game_n = \<lparr> size_g = 3, board = [[0, 0, 0], [0, 0, 0], [0, 0, 0]], currentPlayer = 1,
                    moveCount = 0, gameOver = False, winner = None, swapAvailable = False,
                    history = [] \<rparr>,
         aiPlayer_n = Some 1, move_n = None, parent_n = None, children_n = [1],
         wins_n = 0, visits_n = 0, raveWins_n = 0, raveVisits_n = 0, untriedMoves_n = [] \<rparr>,
      \<lparr> game_n = \<lparr> size_g = 3, board = [[0, 0, 0], [0, 1, 0], [0, 0, 0]], currentPlayer = 2,
                    moveCount = 1, gameOver = False, winner = None, swapAvailable = False,
                    history = [(1, 1, 1)] \<rparr>,
         aiPlayer_n = Some 1, move_n = Some (1, 1), parent_n = Some 0, children_n = [2, 3, 4],
         wins_n = 0, visits_n = 0, raveWins_n = 0, raveVisits_n = 0, untriedMoves_n = [] \<rparr>,
      \<lparr> game_n = \<lparr> size_g = 3, board = [[2, 0, 0], [0, 1, 0], [0, 0, 0]], currentPlayer = 1,
                    moveCount = 2, gameOver = False, winner = None, swapAvailable = False,
                    history = [(1, 1, 1), (0, 0, 2)] \<rparr>,
         aiPlayer_n = Some 1, move_n = Some (0, 0), parent_n = Some 1, children_n = [],
         wins_n = 0, visits_n = 0, raveWins_n = 0, raveVisits_n = 0, untriedMoves_n = [] \<rparr>,
      \<lparr> game_n = \<lparr> size_g = 3, board = [[0, 0, 0], [0, 1, 0], [2, 0, 0]], currentPlayer = 1,
                    moveCount = 2, gameOver = False, winner = None, swapAvailable = False,
                    history = [(1, 1, 1), (2, 0, 2)] \<rparr>,
         aiPlayer_n = Some 1, move_n = Some (2, 0), parent_n = Some 1, children_n = [],
         wins_n = 0, visits_n = 0, raveWins_n = 0, raveVisits_n = 0, untriedMoves_n = [] \<rparr>,
      \<lparr> game_n = \<lparr> size_g = 3, board = [[0, 2, 0], [0, 1, 0], [0, 0, 0]], currentPlayer = 1,
                    moveCount = 2, gameOver = False, winner = None, swapAvailable = False,
                    history = [(1, 1, 1), (0, 1, 2)] \<rparr>,
         aiPlayer_n = Some 1, move_n = Some (0, 1), parent_n = Some 1, children_n = [],
         wins_n = 0, visits_n = 0, raveWins_n = 0, raveVisits_n = 0, untriedMoves_n = [] \<rparr>]"

text \<open>\<open>raveTree\<close> after the backpropagation of the episode that red wins with the moves
  \<open>(0,1)\<close> by red, \<open>(2,0)\<close> by blue and \<open>(2,1)\<close> by red, simulated from node 2.\<close>

definition raveTreeAfter :: tree where
  "raveTreeAfter =
     [\<lparr> game_n = \<lparr> size_g = 3, board = [[0, 0, 0], [0, 0, 0], [0, 0, 0]], currentPlayer = 1,
                    moveCount = 0, gameOver = False, winner = None, swapAvailable = False,
                    history = [] \<rparr>,
         aiPlayer_n = Some 1, move_n = None, parent_n = None, children_n = [1],
         wins_n = 1, visits_n = 1, raveWins_n = 0, raveVisits_n = 0, untriedMoves_n = [] \<rparr>,
      \<lparr> game_n = \<lparr> size_g = 3, board = [[0, 0, 0], [0, 1, 0], [0, 0, 0]], currentPlayer = 2,
                    moveCount = 1, gameOver = False, winner = None, swapAvailable = False,
                    history = [(1, 1, 1)] \<rparr>,
         aiPlayer_n = Some 1, move_n = Some (1, 1), parent_n = Some 0, children_n = [2, 3, 4],
         wins_n = 1, visits_n = 1, raveWins_n = 0, raveVisits_n = 0, untriedMoves_n = [] \<rparr>,
      \<lparr> game_n = \<lparr> size_g = 3, board = [[2, 0, 0], [0, 1, 0], [0, 0, 0]], currentPlayer = 1,
                    moveCount = 2, gameOver = False, winner = None, swapAvailable = False,
                    history = [(1, 1, 1), (0, 0, 2)] \<rparr>,
         aiPlayer_n = Some 1, move_n = Some (0, 0), parent_n = Some 1, children_n = [],
         wins_n = 1, visits_n = 1, raveWins_n = 0, raveVisits_n = 0, untriedMoves_n = [] \<rparr>,
      \<lparr> game_n = \<lparr> size_g = 3, board = [[0, 0, 0], [0, 1, 0], [2, 0, 0]], currentPlayer = 1,
                    moveCount = 2, gameOver = False, winner = None, swapAvailable = False,
                    history = [(1, 1, 1), (2, 0, 2)] \<rparr>,
         aiPlayer_n = Some 1, move_n = Some (2, 0), parent_n = Some 1, children_n = [],
         wins_n = 0, visits_n = 0, raveWins_n = 1, raveVisits_n = 1, untriedMoves_n = [] \<rparr>,
      \<lparr> game_n = \<lparr> size_g = 3, board = [[0, 2, 0], [0, 1, 0], [0, 0, 0]], currentPlayer = 1,
                    moveCount = 2, gameOver = False, winner = None, swapAvailable = False,
                    history = [(1, 1, 1), (0, 1, 2)] \<rparr>,
         aiPlayer_n = Some 1, move_n = Some (0, 1), parent_n = Some 1, children_n = [],
         wins_n = 0, visits_n = 0, raveWins_n = 0, raveVisits_n = 0, untriedMoves_n = [] \<rparr>]"

text \<open>
  What one backpropagation from node \<open>n\<close> does to the RAVE counters, from tree \<open>t\<close> to
  tree \<open>t'\<close>. For a node \<open>a\<close> on the path from \<open>n\<close> to the root with parent \<open>p\<close>, every child
  \<open>c\<close> of \<open>p\<close> gains one RAVE visit when a played move is the move of \<open>c\<close> and is recorded
  with the side to move in the game of \<open>a\<close>, and one RAVE win when moreover the winner is
  the \<open>aiPlayer\<close> of \<open>a\<close>; the counters of every other node stay.
\<close>

definition raveSpec :: "tree \<Rightarrow> nat \<Rightarrow> nat option \<Rightarrow> (cell \<times> nat) list \<Rightarrow> tree \<Rightarrow> bool" where
  "raveSpec t n w pms t' \<longleftrightarrow>
     (\<forall>a p c. onPath (map parent_n t) n a \<longrightarrow> parent_n (t ! a) = Some p \<longrightarrow>
        c \<in> set (children_n (t ! p)) \<longrightarrow>
          raveVisits_n (t' ! c)
            = raveVisits_n (t ! c) + (if raveMatch (t ! a) (t ! c) pms then 1 else 0) \<and>
          raveWins_n (t' ! c)
            = raveWins_n (t ! c)
              + (if raveMatch (t ! a) (t ! c) pms \<and> w = aiPlayer_n (t ! a) then 1 else 0)) \<and>
     (\<forall>c < length t.
        (\<forall>a p. onPath (map parent_n t) n a \<longrightarrow> parent_n (t ! a) = Some p \<longrightarrow>
           c \<notin> set (children_n (t ! p))) \<longrightarrow>
          raveVisits_n (t' ! c) = raveVisits_n (t ! c) \<and>
          raveWins_n (t' ! c) = raveWins_n (t ! c))"

subsection \<open>Move choice of the standard tree search (MCTSAI.getBestMove)\<close>

text \<open>\<open>findTwoMoveWin\<close>: the first move after which the player has at least two further
  moves that win at once.\<close>

definition findTwoMoveWin :: "HexGame \<Rightarrow> nat \<Rightarrow> cell option" where
  "findTwoMoveWin g player =
     List.find (\<lambda>move1.
         (let testGame1 = withStone g move1 player
          in length (filter (\<lambda>move2. checkWin (withStone testGame1 move2 player) player)
                       (getValidMoves testGame1)) \<ge> 2))
       (getValidMoves g)"

text \<open>The six patterns of \<open>findVirtualConnectionThreat\<close>, each with the offsets
  \<open>stone1\<close>, \<open>stone2\<close>, \<open>bridge1\<close>, \<open>bridge2\<close>.\<close>

definition bridgePatterns :: "(cell \<times> cell \<times> cell \<times> cell) list" where
  "bridgePatterns =
     [((- 1, - 1), (1, 1), (0, - 1), (1, 0)),
      ((- 1, 0), (1, - 1), (0, - 1), (- 1, - 1)),
      ((- 1, 1), (0, - 1), (- 1, 0), (0, 0)),
      ((0, 1), (1, - 1), (1, 0), (0, 0)),
      ((1, 0), (- 1, 1), (0, 1), (0, 0)),
      ((0, - 1), (- 1, 1), (- 1, 0), (0, 0))]"

definition inBoard :: "HexGame \<Rightarrow> int \<Rightarrow> int \<Rightarrow> bool" where
  "inBoard g r c \<longleftrightarrow> r \<ge> 0 \<and> r < int (size_g g) \<and> c \<ge> 0 \<and> c < int (size_g g)"

definition bridgeThreat :: "HexGame \<Rightarrow> nat \<Rightarrow> cell \<Rightarrow> cell \<times> cell \<times> cell \<times> cell \<Rightarrow> bool" where
  "bridgeThreat g opponent m pat =
     (case pat of (stone1, stone2, bridge1, bridge2) \<Rightarrow>
        (let s1r = fst m + fst stone1; s1c = snd m + snd stone1;
             s2r = fst m + fst stone2; s2c = snd m + snd stone2;
             b1r = fst m + fst bridge1; b1c = snd m + snd bridge1;
             b2r = fst m + fst bridge2; b2c = snd m + snd bridge2
         in if inBoard g s1r s1c \<and> inBoard g s2r s2c \<and> inBoard g b1r b1c \<and> inBoard g b2r b2c
            then cellAt (board g) s1r s1c = opponent \<and> cellAt (board g) s2r s2c = opponent \<and>
                 cellAt (board g) b1r b1c = EMPTY \<and> cellAt (board g) b2r b2c = EMPTY
            else False))"

definition findVirtualConnectionThreat :: "HexGame \<Rightarrow> cell option" where
  "findVirtualConnectionThreat g =
     (let opponent = otherPlayer (currentPlayer g)
      in List.find (\<lambda>m. length (filter (bridgeThreat g opponent m) bridgePatterns) \<ge> 2)
           (getValidMoves g))"

definition findCriticalMove_mcts :: "HexGame \<Rightarrow> cell option" where
  "findCriticalMove_mcts g =
     (let opponent = otherPlayer (currentPlayer g);
          moves = getValidMoves g
      in case List.find (\<lambda>m. (let testGame = snd (makeMove g (fst m) (snd m))
                               in gameOver testGame \<and> winner testGame = Some (currentPlayer g)))
                moves of
           Some m \<Rightarrow> Some m
         | None \<Rightarrow>
            (let immediateThreats =
                   filter (\<lambda>m. checkWin (withStone (g \<lparr> currentPlayer := opponent \<rparr>) m opponent)
                                  opponent) moves
             in if length immediateThreats = 1 then Some (immediateThreats ! 0)
                else if length immediateThreats > 1 then Some (immediateThreats ! 0)
                else (case (if length moves \<le> 20 then findTwoMoveWin g (currentPlayer g)
                            else None) of
                        Some m \<Rightarrow> Some m
                      | None \<Rightarrow>
                         (case (if length moves \<le> 20 then findTwoMoveWin g opponent
                                else None) of
                            Some m \<Rightarrow> Some m
                          | None \<Rightarrow> findVirtualConnectionThreat g))))"

definition shouldUseHeuristicSearch :: "string \<Rightarrow> HexGame \<Rightarrow> bool" where
  "shouldUseHeuristicSearch label g =
     (let smallBoard = size_g g \<le> 7;
          mediumBoard = size_g g \<le> 11;
          remaining = length (getValidMoves g);
          hardMode = (label = ''hard'');
          mediumMode = (label = ''medium'')
      in if remaining \<le> 15 then True
         else if smallBoard \<and> remaining \<le> 25 then True
         else if mediumBoard \<and> (mediumMode \<or> hardMode) \<and> remaining \<le> 35 then True
         else if hardMode \<and> remaining \<le> 40 then True
         else False)"

text \<open>\<open>getHeuristicConfig\<close> returns \<open>{maxDepth, beamWidth}\<close>.\<close>

definition getHeuristicConfig :: "string \<Rightarrow> HexGame \<Rightarrow> nat \<times> nat" where
  "getHeuristicConfig label g =
     (let remaining = length (getValidMoves g);
          hardMode = (label = ''hard'')
      in if size_g g \<le> 7 then
           (if remaining > 30 then (if hardMode then 5 else 4, 12)
            else if remaining > 20 then (if hardMode then 6 else 5, 10)
            else if remaining > 10 then (if hardMode then 8 else 6, 8)
            else (if hardMode then 10 else 8, 6))
         else if size_g g \<le> 11 then
           (if remaining \<le> 15 then (if hardMode then 7 else 5, 7)
            else if remaining \<le> 25 then (if hardMode then 5 else 4, 8)
            else (4, 10))
         else
           (if remaining \<le> 12 then (if hardMode then 6 else 5, 6)
            else (4, 8)))"

text \<open>
  \<open>selectChild\<close> reduces the children by a floating-point score; with no child the
  \<open>reduce\<close> of an empty array raises a \<open>TypeError\<close>. Which child wins the comparison is
  the argument \<open>sel\<close>, an index into the children. The selection loop descends while
  the node is fully expanded and not terminal.
\<close>

partial_function (option) selectLoop ::
    "(tree \<Rightarrow> nat \<Rightarrow> nat) \<Rightarrow> tree \<Rightarrow> nat \<Rightarrow> (error + nat) option" where
  "selectLoop sel t node =
     (if length (untriedMoves_n (t ! node)) = 0 \<and> \<not> gameOver (game_n (t ! node))
      then (if length (children_n (t ! node)) = 0 then Some (Inl TypeError)
            else if sel t node < length (children_n (t ! node))
                 then selectLoop sel t (children_n (t ! node) ! sel t node)
                 else None)
      else Some (Inr node))"

declare selectLoop.simps [code]

text \<open>One round of the loop of \<open>getBestMove\<close>: selection, expansion, simulation,
  backpropagation. \<open>ks\<close> are the choices of the simulation of this round.\<close>

definition mctsRound ::
    "(HexGame \<Rightarrow> cell \<Rightarrow> real) \<Rightarrow> (tree \<Rightarrow> nat \<Rightarrow> nat) \<Rightarrow> nat list \<Rightarrow> bool \<Rightarrow> nat \<Rightarrow> tree
       \<Rightarrow> (error + tree) option" where
  "mctsRound sc sel ks progressiveWidening i t =
     (case selectLoop sel t 0 of
        None \<Rightarrow> None
      | Some (Inl e) \<Rightarrow> Some (Inl e)
      | Some (Inr node) \<Rightarrow>
          (case (if \<not> gameOver (game_n (t ! node)) \<and> length (untriedMoves_n (t ! node)) > 0 \<and>
                    (\<not> progressiveWidening \<or> i mod 50 = 0)
                 then expand sc t node else Inr (t, node)) of
             Inl e \<Rightarrow> Some (Inl e)
           | Inr (t1, node1) \<Rightarrow>
               (case simulate ks (t1 ! node1) of
                  None \<Rightarrow> None
                | Some res \<Rightarrow>
                    (case backpropagate t1 node1 res of
                       None \<Rightarrow> None
                     | Some t2 \<Rightarrow> Some (Inr t2)))))"

fun mctsLoop ::
    "(HexGame \<Rightarrow> cell \<Rightarrow> real) \<Rightarrow> (tree \<Rightarrow> nat \<Rightarrow> nat) \<Rightarrow> (nat \<Rightarrow> nat list) \<Rightarrow> bool \<Rightarrow> nat list
       \<Rightarrow> tree \<Rightarrow> (error + tree) option" where
  "mctsLoop sc sel kss pw [] t = Some (Inr t)"
| "mctsLoop sc sel kss pw (i # is) t =
     (case mctsRound sc sel (kss i) pw i t of
        None \<Rightarrow> None
      | Some (Inl e) \<Rightarrow> Some (Inl e)
      | Some (Inr t') \<Rightarrow> mctsLoop sc sel kss pw is t')"

text \<open>The choice of the child after the loop: the first child, replaced by a later one
  on the comparisons of the source (in exact arithmetic here). Reading \<open>visits\<close> of
  \<open>root.children[0]\<close> raises a \<open>TypeError\<close> when the root has no child.\<close>

definition robustStep :: "tree \<Rightarrow> nat \<times> real \<times> real \<Rightarrow> nat \<Rightarrow> nat \<times> real \<times> real" where
  "robustStep t acc child =
     (case acc of (bestChild, maxVisits, bestWinRate) \<Rightarrow>
        (let cv = real (visits_n (t ! child));
             childWinRate = real (wins_n (t ! child)) / real (max (visits_n (t ! child)) 1)
         in if cv > maxVisits * 1.15 then (child, cv, childWinRate)
            else if cv \<ge> maxVisits * 0.85 then
              (if cv > maxVisits \<or> (cv \<ge> maxVisits * 0.95 \<and> childWinRate > bestWinRate)
               then (child, cv, childWinRate) else acc)
            else acc))"

definition chooseBestChild :: "tree \<Rightarrow> error + cell option" where
  "chooseBestChild t =
     (case children_n (t ! 0) of
        [] \<Rightarrow> Inl TypeError
      | c0 # _ \<Rightarrow>
          (let start = (c0, real (visits_n (t ! c0)),
                        real (wins_n (t ! c0)) / real (max (visits_n (t ! c0)) 1));
               best = fold (\<lambda>child acc. robustStep t acc child) (children_n (t ! 0)) start
           in Inr (move_n (t ! fst best))))"

text \<open>
  \<open>getBestMove\<close>: opening book, critical moves, the bounded search for small boards and
  late games, then the tree search with \<open>simulations\<close> rounds. The arguments that stand
  for what the source leaves to chance or to floating-point arithmetic are \<open>u\<close> (the
  random number of the opening book), \<open>sc\<close>, \<open>ev\<close>, \<open>sel\<close> and \<open>kss\<close> (the choices of the
  simulation of each round); \<open>cache\<close> is the memo table of the bounded search.
\<close>

definition getBestMove_mcts ::
    "(HexGame \<Rightarrow> cell \<Rightarrow> real) \<Rightarrow> evaluator \<Rightarrow> (tree \<Rightarrow> nat \<Rightarrow> nat) \<Rightarrow> (nat \<Rightarrow> nat list) \<Rightarrow> real
       \<Rightarrow> cache \<Rightarrow> string \<Rightarrow> nat \<Rightarrow> nat \<Rightarrow> HexGame \<Rightarrow> (error + cell option) option" where
  "getBestMove_mcts sc ev sel kss u cache label simulations aiPlayer g =
     (case getOpeningMove g u of
        Inl e \<Rightarrow> Some (Inl e)
      | Inr (Some bookMove) \<Rightarrow> Some (Inr (Some bookMove))
      | Inr None \<Rightarrow>
          (case findCriticalMove_mcts g of
             Some criticalMove \<Rightarrow> Some (Inr (Some criticalMove))
           | None \<Rightarrow>
               (case (if shouldUseHeuristicSearch label g
                      then fst (getBestMove_search ev cache g aiPlayer
                                  (fst (getHeuristicConfig label g))
                                  (snd (getHeuristicConfig label g)))
                      else None) of
                  Some heuristicMove \<Rightarrow> Some (Inr (Some heuristicMove))
                | None \<Rightarrow>
                    (let root = newNode sc g (Some aiPlayer) None None;
                         progressiveWidening = size_g g > 11
                     in case mctsLoop sc sel kss progressiveWidening [0 ..< simulations] [root] of
                          None \<Rightarrow> None
                        | Some (Inl e) \<Rightarrow> Some (Inl e)
                        | Some (Inr t) \<Rightarrow> Some (chooseBestChild t)))))"

text \<open>\<open>RandomAI.getMove\<close>; \<open>u\<close> is the random number of the call.\<close>

definition getMove_random :: "bool \<Rightarrow> real \<Rightarrow> HexGame \<Rightarrow> cell option" where
  "getMove_random smartMode u g =
     (let validMoves = getValidMoves g
      in if length validMoves = 0 then None
         else
           (case (if smartMode then
                    (case List.find (\<lambda>m. (let testGame = snd (makeMove g (fst m) (snd m))
                                           in gameOver testGame \<and>
                                              winner testGame = Some (currentPlayer g)))
                            validMoves of
                       Some m \<Rightarrow> Some (Some m)
                     | None \<Rightarrow>
                        (let opponent = otherPlayer (currentPlayer g);
                             blockingMoves =
                               filter (\<lambda>m. checkWin (withStone (g \<lparr> currentPlayer := opponent \<rparr>)
                                                        m opponent) opponent) validMoves
                         in if length blockingMoves > 0 then Some (pickRandom blockingMoves u)
                            else if size_g g = 7 \<and> moveCount g = 0 then
                              (let center = int (size_g g div 2);
                                   filteredMoves =
                                     filter (\<lambda>m. \<not> (fst m = center \<and> snd m = center)) validMoves
                               in if length filteredMoves > 0
                                  then Some (pickRandom filteredMoves u) else None)
                            else None))
                  else None) of
              Some mv \<Rightarrow> mv
            | None \<Rightarrow> pickRandom validMoves u))"

section \<open>Invariant of the connectivity tracker\<close>

text \<open>
  The parent table as a forest: \<open>pathTo par i k r\<close> says that following the parent
  entries from \<open>i\<close> reaches the root \<open>r\<close> after \<open>k\<close> steps, every index on the way being
  inside the table.
\<close>

inductive pathTo :: "int list \<Rightarrow> int \<Rightarrow> nat \<Rightarrow> int \<Rightarrow> bool" for par :: "int list" where
  root: "0 \<le> r \<Longrightarrow> r < int (length par) \<Longrightarrow> par ! nat r = r \<Longrightarrow> pathTo par r 0 r"
| step: "0 \<le> i \<Longrightarrow> i < int (length par) \<Longrightarrow> par ! nat i \<noteq> i \<Longrightarrow>
         pathTo par (par ! nat i) k r \<Longrightarrow> pathTo par i (Suc k) r"

text \<open>The table is a forest over its own indices, and every index fits a 16-bit signed
  element.\<close>

definition uf_inv :: "int list \<Rightarrow> bool" where
  "uf_inv par \<longleftrightarrow> length par \<le> 32768 \<and> (\<forall>i < length par. \<exists>k r. pathTo par (int i) k r)"

text \<open>
  The state of the tracker with respect to a set \<open>M\<close> of cells whose boundary bits were
  entered and a set \<open>E\<close> of pairs of cells that were united: two cells have the same root
  exactly when the pairs of \<open>E\<close> connect them, and the mask stored at a root has a bit
  exactly when a cell of \<open>M\<close> under this root has it.
\<close>

definition groups_inv ::
    "int list \<Rightarrow> 8 word list \<Rightarrow> (nat \<Rightarrow> 8 word) \<Rightarrow> nat set \<Rightarrow> (nat \<times> nat) set \<Rightarrow> bool" where
  "groups_inv par gs cs M E \<longleftrightarrow>
     uf_inv par \<and> length gs = length par \<and> M \<subseteq> {0 ..< length par} \<and>
     (\<forall>i < length par. \<forall>j < length par.
        findRoot par (int i) = findRoot par (int j) \<longleftrightarrow> (i, j) \<in> (E \<union> E\<inverse>)\<^sup>*) \<and>
     (\<forall>i < length par. \<forall>r b. findRoot par (int i) = Some r \<longrightarrow>
        bit (gs ! nat r) b \<longleftrightarrow> (\<exists>j \<in> M. findRoot par (int j) = Some r \<and> bit (cs j) b))"

definition tracker_rel :: "FastHexGame \<Rightarrow> nat set \<Rightarrow> (nat \<times> nat) set \<Rightarrow> bool" where
  "tracker_rel s M E \<longleftrightarrow>
     length (parent s) = length (board_f s) \<and>
     groups_inv (parent s) (groupStatus s) (\<lambda>j. cellStatus (size_f s) j (board_f s ! j)) M E"

text \<open>The flat board of the tracker read as the grid of the reference game, for the
  reference win check on the same grid.\<close>

definition gridOf :: "FastHexGame \<Rightarrow> HexGame" where
  "gridOf s = \<lparr> size_g = size_f s,
       board = map (\<lambda>r. map (\<lambda>c. board_f s ! (r * size_f s + c)) [0 ..< size_f s])
                 [0 ..< size_f s],
       currentPlayer = currentPlayer_f s, moveCount = filledCount s,
       gameOver = False, winner = None, swapAvailable = False, history = [] \<rparr>"

text \<open>The occupied cells, the pairs of neighbouring stones of one colour, and the
  invariant of the tracker between two moves.\<close>

definition occupied :: "FastHexGame \<Rightarrow> nat set" where
  "occupied s = {i. i < length (board_f s) \<and> board_f s ! i \<noteq> 0}"

definition sameEdges :: "FastHexGame \<Rightarrow> (nat \<times> nat) set" where
  "sameEdges s = {(i, n). i < length (board_f s) \<and> board_f s ! i \<noteq> 0 \<and>
                          n \<in> set (getNeighborsIdx s i) \<and> board_f s ! n = board_f s ! i}"

definition tracker_inv :: "FastHexGame \<Rightarrow> bool" where
  "tracker_inv s \<longleftrightarrow>
     length (board_f s) = size_f s * size_f s \<and>
     (\<forall>i < length (board_f s). board_f s ! i = 0 \<or> board_f s ! i = 1 \<or> board_f s ! i = 2) \<and>
     (currentPlayer_f s = 1 \<or> currentPlayer_f s = 2) \<and>
     tracker_rel s (occupied s) (sameEdges s)"

text \<open>One step of the reference search for colour \<open>p\<close>: from a cell to a neighbour that
  holds a stone of that colour.\<close>

definition stepRel :: "HexGame \<Rightarrow> nat \<Rightarrow> (cell \<times> cell) set" where
  "stepRel g p = {(a, b). b \<in> set (getNeighbors g (fst a) (snd a)) \<and>
                          cellAt (board g) (fst b) (snd b) = p}"

section \<open>Properties\<close>

subsection \<open>Board state\<close>

lemma swapCell_eq: "r < length b \<Longrightarrow> c < length (b ! r) \<Longrightarrow>
  swapCell r c b = b[r := (b ! r)[c := invertCell (b ! r ! c)]]"
  by (auto simp: swapCell_def invertCell_def list_update_same_conv)

lemma fold_swapCell_row:
  "r < length b \<Longrightarrow> n \<le> length (b ! r) \<Longrightarrow>
   fold (swapCell r) [0 ..< n] b = b[r := map invertCell (take n (b ! r)) @ drop n (b ! r)]"
proof (induction n)
  case 0
  then show ?case by simp
next
  case (Suc n)
  let ?row = "map invertCell (take n (b ! r)) @ drop n (b ! r)"
  have len: "length ?row = length (b ! r)" using Suc.prems by simp
  have nth: "?row ! n = b ! r ! n" using Suc.prems by (simp add: nth_append)
  have "fold (swapCell r) [0 ..< Suc n] b = swapCell r n (b[r := ?row])"
    using Suc by simp
  also have "\<dots> = b[r := ?row[n := invertCell (b ! r ! n)]]"
    using Suc.prems len nth by (simp add: swapCell_eq)
  also have "?row[n := invertCell (b ! r ! n)]
             = map invertCell (take (Suc n) (b ! r)) @ drop (Suc n) (b ! r)"
    using Suc.prems
    by (simp add: list_update_append take_Suc_conv_app_nth
          flip: Cons_nth_drop_Suc)
  finally show ?case .
qed

lemma fold_swapCell_board:
  "\<forall>row \<in> set b. length row = m \<Longrightarrow> n \<le> length b \<Longrightarrow>
   fold (\<lambda>r b. fold (swapCell r) [0 ..< m] b) [0 ..< n] b
     = map (map invertCell) (take n b) @ drop n b"
proof (induction n)
  case 0
  then show ?case by simp
next
  case (Suc n)
  let ?b = "map (map invertCell) (take n b) @ drop n b"
  have nth: "?b ! n = b ! n" using Suc.prems by (simp add: nth_append)
  have lenrow: "length (b ! n) = m" using Suc.prems by simp
  have "fold (\<lambda>r b. fold (swapCell r) [0 ..< m] b) [0 ..< Suc n] b
        = fold (swapCell n) [0 ..< m] ?b" using Suc by simp
  also have "\<dots> = ?b[n := map invertCell (b ! n)]"
    using Suc.prems nth lenrow by (simp add: fold_swapCell_row)
  also have "\<dots> = map (map invertCell) (take (Suc n) b) @ drop (Suc n) b"
    using Suc.prems
    by (simp add: list_update_append take_Suc_conv_app_nth flip: Cons_nth_drop_Suc)
  finally show ?case .
qed

text \<open>
  C2. \<open>makeMove\<close> on a cell out of bounds, on an occupied cell, or when the game is
  over returns \<open>false\<close> and leaves every field of the board state as it was.
\<close>

theorem makeMove_rejects:
  assumes "row < 0 \<or> row \<ge> int (size_g g) \<or> col < 0 \<or> col \<ge> int (size_g g)
           \<or> cellAt (board g) row col \<noteq> EMPTY \<or> gameOver g"
  shows "makeMove g row col = (False, g)"
  using assms by (auto simp: makeMove_def isValidMove_def)

theorem makeMove_rejects_witness:
  "makeMove \<lparr> size_g = 2, board = [[1, 0], [0, 0]], currentPlayer = 2, moveCount = 1,
      gameOver = False, winner = None, swapAvailable = False, history = [(0, 0, 1)] \<rparr> 0 0
   = (False, \<lparr> size_g = 2, board = [[1, 0], [0, 0]], currentPlayer = 2, moveCount = 1,
      gameOver = False, winner = None, swapAvailable = False, history = [(0, 0, 1)] \<rparr>)
   \<and> makeMove \<lparr> size_g = 2, board = [[1, 0], [0, 0]], currentPlayer = 2, moveCount = 1,
      gameOver = False, winner = None, swapAvailable = False, history = [(0, 0, 1)] \<rparr> 0 2
   = (False, \<lparr> size_g = 2, board = [[1, 0], [0, 0]], currentPlayer = 2, moveCount = 1,
      gameOver = False, winner = None, swapAvailable = False, history = [(0, 0, 1)] \<rparr>)
   \<and> makeMove \<lparr> size_g = 2, board = [[1, 2], [1, 0]], currentPlayer = 1, moveCount = 3,
      gameOver = True, winner = Some 1, swapAvailable = False,
      history = [(0, 0, 1), (0, 1, 2), (1, 0, 1)] \<rparr> 1 1
   = (False, \<lparr> size_g = 2, board = [[1, 2], [1, 0]], currentPlayer = 1, moveCount = 3,
      gameOver = True, winner = Some 1, swapAvailable = False,
      history = [(0, 0, 1), (0, 1, 2), (1, 0, 1)] \<rparr>)"
  using makeMove_rejects [of 0 "\<lparr> size_g = 2, board = [[1, 0], [0, 0]], currentPlayer = 2,
      moveCount = 1, gameOver = False, winner = None, swapAvailable = False,
      history = [(0, 0, 1)] \<rparr>" 0]
    makeMove_rejects [of 0 "\<lparr> size_g = 2, board = [[1, 0], [0, 0]], currentPlayer = 2,
      moveCount = 1, gameOver = False, winner = None, swapAvailable = False,
      history = [(0, 0, 1)] \<rparr>" 2]
    makeMove_rejects [of 1 "\<lparr> size_g = 2, board = [[1, 2], [1, 0]], currentPlayer = 1,
      moveCount = 3, gameOver = True, winner = Some 1, swapAvailable = False,
      history = [(0, 0, 1), (0, 1, 2), (1, 0, 1)] \<rparr>" 1]
  by (simp add: cellAt_def EMPTY_def)

text \<open>
  C3. On a well-formed board \<open>swapSides\<close> succeeds exactly when \<open>moveCount\<close> is 1 and
  \<open>swapAvailable\<close> is set. When it succeeds every red stone has become blue and every
  blue stone red, \<open>swapAvailable\<close> is cleared and red is to move; the other fields keep
  their values. When it fails it returns \<open>false\<close> and changes nothing.
\<close>

theorem swapSides_correct:
  assumes "wf_board g"
  shows "swapSides g =
     (if moveCount g = 1 \<and> swapAvailable g
      then (True, g \<lparr> board := map (map invertCell) (board g),
                      swapAvailable := False, currentPlayer := PLAYER_RED \<rparr>)
      else (False, g))"
proof -
  from assms have "\<forall>row \<in> set (board g). length row = size_g g" "length (board g) = size_g g"
    by (auto simp: wf_board_def list_all_iff)
  then have "fold (\<lambda>r b. fold (swapCell r) [0 ..< size_g g] b) [0 ..< size_g g] (board g)
             = map (map invertCell) (board g)"
    using fold_swapCell_board [of "board g" "size_g g" "size_g g"] by simp
  then show ?thesis by (simp add: swapSides_def)
qed

theorem swapSides_correct_witness:
  "wf_board \<lparr> size_g = 2, board = [[1, 0], [0, 0]], currentPlayer = 2, moveCount = 1,
      gameOver = False, winner = None, swapAvailable = True, history = [(0, 0, 1)] \<rparr>
   \<and> swapSides \<lparr> size_g = 2, board = [[1, 0], [0, 0]], currentPlayer = 2, moveCount = 1,
      gameOver = False, winner = None, swapAvailable = True, history = [(0, 0, 1)] \<rparr>
   = (True, \<lparr> size_g = 2, board = [[2, 0], [0, 0]], currentPlayer = 1, moveCount = 1,
      gameOver = False, winner = None, swapAvailable = False, history = [(0, 0, 1)] \<rparr>)"
  using swapSides_correct [of "\<lparr> size_g = 2, board = [[1, 0], [0, 0]], currentPlayer = 2,
      moveCount = 1, gameOver = False, winner = None, swapAvailable = True,
      history = [(0, 0, 1)] \<rparr>"]
  by (simp add: wf_board_def invertCell_def EMPTY_def PLAYER_RED_def PLAYER_BLUE_def)

subsection \<open>Bridge detection\<close>

text \<open>
  C7. Bridge detection is claimed to give the same verdict when its two stones are
  exchanged. On the board below red has stones at \<open>(0,1)\<close> and \<open>(2,1)\<close>. Looking from
  \<open>(0,1)\<close> the offset \<open>(2,0)\<close> selects the cells \<open>(1,0)\<close> and \<open>(1,1)\<close>, and \<open>(1,0)\<close>
  holds a blue stone; looking from \<open>(2,1)\<close> the offset \<open>(-2,0)\<close> selects \<open>(1,1)\<close> and
  \<open>(1,2)\<close>, both empty. The two calls disagree.
\<close>

theorem isVirtuallyConnected_asymmetric:
  "\<not> isVirtuallyConnected \<lparr> size_g = 4,
        board = [[0, 1, 0, 0], [2, 0, 0, 0], [0, 1, 0, 0], [0, 0, 0, 2]],
        currentPlayer = 1, moveCount = 4, gameOver = False, winner = None,
        swapAvailable = False,
        history = [(0, 1, 1), (1, 0, 2), (2, 1, 1), (3, 3, 2)] \<rparr> (0, 1) (2, 1) PLAYER_RED \<and>
    isVirtuallyConnected \<lparr> size_g = 4,
        board = [[0, 1, 0, 0], [2, 0, 0, 0], [0, 1, 0, 0], [0, 0, 0, 2]],
        currentPlayer = 1, moveCount = 4, gameOver = False, winner = None,
        swapAvailable = False,
        history = [(0, 1, 1), (1, 0, 2), (2, 1, 1), (3, 3, 2)] \<rparr> (2, 1) (0, 1) PLAYER_RED"
  by (simp add: isVirtuallyConnected_def intermediates_def cellAt_def EMPTY_def)

subsection \<open>Opening book\<close>

lemma pickRandom_mem: "pickRandom xs u = Some x \<Longrightarrow> x \<in> set xs"
proof -
  assume a: "pickRandom xs u = Some x"
  let ?i = "\<lfloor>u * real (length xs)\<rfloor>"
  from a have "0 \<le> ?i" "?i < int (length xs)" "x = xs ! nat ?i"
    by (auto simp: pickRandom_def Let_def split: if_splits)
  then have "nat ?i < length xs" by linarith
  with \<open>x = xs ! nat ?i\<close> show ?thesis by simp
qed

lemma empty_board:
  assumes "wf_game g" "moveCount g = 0" "r < size_g g" "c < size_g g"
  shows "board g ! r ! c = EMPTY"
proof -
  from assms have "sum_list (map (\<lambda>row. length (filter (\<lambda>v. v \<noteq> EMPTY) row)) (board g)) = 0"
    by (simp add: wf_game_def stoneCount_def)
  then have "\<forall>row \<in> set (board g). filter (\<lambda>v. v \<noteq> EMPTY) row = []"
    by auto
  moreover from assms have "board g ! r \<in> set (board g)" "c < length (board g ! r)"
    by (auto simp: wf_game_def wf_board_def list_all_iff)
  ultimately show ?thesis
    by (metis (mono_tags, lifting) filter_empty_conv nth_mem)
qed

lemma first_move_valid:
  assumes "wf_game g" "moveCount g = 0" "0 \<le> r" "r < int (size_g g)" "0 \<le> c" "c < int (size_g g)"
    and "\<not> (size_g g = 7 \<and> r = 3 \<and> c = 3)"
  shows "isValidMove g r c"
proof -
  from assms have "nat r < size_g g" "nat c < size_g g" by auto
  from empty_board [OF assms(1,2) this] have "cellAt (board g) r c = EMPTY"
    by (simp add: cellAt_def)
  with assms show ?thesis by (auto simp: isValidMove_def)
qed

lemma in_concat_grid:
  "m \<in> set (concat (map (\<lambda>dr. concat (map (h dr) ys)) xs)) \<Longrightarrow>
   \<exists>dr \<in> set xs. \<exists>dc \<in> set ys. m \<in> set (h dr dc)"
  by auto

lemma getOpening7x7_first:
  "getOpening7x7 g 0 u = Inr (pickRandom [(2, 3), (3, 2), (3, 4), (4, 3), (2, 3), (3, 2), (3, 4), (4, 3),
                                    (2, 2), (2, 4), (4, 2), (4, 4)] u)"
  by (simp add: getOpening7x7_def)

lemma getOpening7x7_none:
  "mc \<noteq> 0 \<Longrightarrow> \<not> (mc = 1 \<and> currentPlayer g = PLAYER_BLUE) \<Longrightarrow> getOpening7x7 g mc u = Inr None"
  unfolding getOpening7x7_def Let_def by (simp only: if_False simp_thms)

lemma getOpening7x7_error:
  "history g = [] \<Longrightarrow> currentPlayer g = PLAYER_BLUE \<Longrightarrow> getOpening7x7 g 1 u = Inl TypeError"
  unfolding getOpening7x7_def Let_def
  by (simp only: if_False if_True simp_thms list.case One_nat_def nat.distinct)

lemma getOpening7x7_second:
  "history g = (row, col, pl) # hs \<Longrightarrow> currentPlayer g = PLAYER_BLUE \<Longrightarrow>
   getOpening7x7 g 1 u =
    (let strongResponses = filter (\<lambda>(nr, nc). isValidMove g nr nc) (getNeighbors g row col) @
           concat (map (\<lambda>dr. concat (map (\<lambda>dc.
                         (let nr = row + dr; nc = col + dc;
                              distToCenter = \<bar>nr - 3\<bar> + \<bar>nc - 3\<bar>
                          in if isValidMove g nr nc \<and> distToCenter \<le> 2 then [(nr, nc)] else []))
                         [- 2, - 1, 0, 1, 2])) [- 2, - 1, 0, 1, 2])
     in if length strongResponses > 0 then Inr (pickRandom strongResponses u) else Inr None)"
  unfolding getOpening7x7_def Let_def
  by (simp only: if_False if_True simp_thms list.case prod.case One_nat_def nat.distinct)

lemma getOpening7x7_valid:
  assumes "wf_game g" "size_g g = 7" "getOpening7x7 g (moveCount g) u = Inr (Some (r, c))"
  shows "isValidMove g r c"
proof (cases "moveCount g = 0")
  case True
  with assms(3) have "pickRandom [(2, 3), (3, 2), (3, 4), (4, 3), (2, 3), (3, 2), (3, 4), (4, 3),
                                    (2, 2), (2, 4), (4, 2), (4, 4)] u = Some (r, c)"
    by (simp add: getOpening7x7_first)
  from pickRandom_mem [OF this]
  have "0 \<le> r \<and> r < 7 \<and> 0 \<le> c \<and> c < 7 \<and> \<not> (r = 3 \<and> c = 3)" by auto
  with first_move_valid [OF assms(1) True, of r c] assms(2) show ?thesis by simp
next
  case False
  show ?thesis
  proof (cases "moveCount g = 1 \<and> currentPlayer g = PLAYER_BLUE")
    case F2: False
    from getOpening7x7_none [OF False F2] assms(3) show ?thesis by simp
  next
    case True
    show ?thesis
    proof (cases "history g")
      case Nil
      from getOpening7x7_error [OF Nil] True assms(3) show ?thesis by simp
    next
      case (Cons h hs)
      obtain row col pl where h: "h = (row, col, pl)" by (cases h)
      let ?near = "filter (\<lambda>(nr, nc). isValidMove g nr nc) (getNeighbors g row col)"
      let ?h = "\<lambda>dr dc. (let nr = row + dr; nc = col + dc;
                              distToCenter = \<bar>nr - 3\<bar> + \<bar>nc - 3\<bar>
                          in if isValidMove g nr nc \<and> distToCenter \<le> 2 then [(nr, nc)] else [])"
      let ?far = "concat (map (\<lambda>dr. concat (map (?h dr) [- 2, - 1, 0, 1, 2])) [- 2, - 1, 0, 1, 2])"
      from Cons h have hist: "history g = (row, col, pl) # hs" by simp
      from True have cp: "currentPlayer g = PLAYER_BLUE" and mc: "moveCount g = 1" by simp_all
      from getOpening7x7_second [OF hist cp, of u] assms(3) mc
      have "(if length (?near @ ?far) > 0 then Inr (pickRandom (?near @ ?far) u) else Inr None)
              = (Inr (Some (r, c)) :: error + cell option)"
        by (simp only: Let_def)
      then have "pickRandom (?near @ ?far) u = Some (r, c)"
        by (metis (no_types, lifting) sum.inject(2) option.distinct(1))
      from pickRandom_mem [OF this] have "(r, c) \<in> set ?near \<or> (r, c) \<in> set ?far"
        by (simp only: set_append Un_iff)
      then show ?thesis
      proof
        assume "(r, c) \<in> set ?near"
        then show ?thesis by auto
      next
        assume "(r, c) \<in> set ?far"
        from in_concat_grid [OF this] obtain dr dc where "(r, c) \<in> set (?h dr dc)" by blast
        then show ?thesis by (auto simp: Let_def split: if_splits)
      qed
    qed
  qed
qed

lemma getOpening11x11_valid:
  assumes "wf_game g" "size_g g = 11" "getOpening11x11 g (moveCount g) u = Inr (Some (r, c))"
  shows "isValidMove g r c"
proof -
  from assms(3) have mc: "moveCount g = 0"
    by (cases "moveCount g = 0") (simp_all add: getOpening11x11_def)
  with assms(3) have "pickRandom [(4, 5), (5, 4), (5, 6), (6, 5), (4, 4), (4, 6), (6, 4), (6, 6),
                         (3, 5), (5, 3), (5, 7), (7, 5)] u = Some (r, c)"
    by (simp add: getOpening11x11_def)
  from pickRandom_mem [OF this] have "0 \<le> r \<and> r < 11 \<and> 0 \<le> c \<and> c < 11" by auto
  with first_move_valid [OF assms(1) mc, of r c] assms(2) show ?thesis by simp
qed

lemma getOpening13x13_valid:
  assumes "wf_game g" "size_g g = 13" "getOpening13x13 g (moveCount g) u = Inr (Some (r, c))"
  shows "isValidMove g r c"
proof -
  from assms(3) have mc: "moveCount g = 0"
    by (cases "moveCount g = 0") (simp_all add: getOpening13x13_def)
  with assms(3) have "pickRandom [(5, 6), (6, 5), (6, 7), (7, 6), (5, 5), (5, 7), (7, 5), (7, 7)] u
                        = Some (r, c)"
    by (simp add: getOpening13x13_def)
  from pickRandom_mem [OF this] have "0 \<le> r \<and> r < 13 \<and> 0 \<le> c \<and> c < 13" by auto
  with first_move_valid [OF assms(1) mc, of r c] assms(2) show ?thesis by simp
qed

lemma getDefaultOpening_valid:
  assumes "getDefaultOpening g u = Inr (Some (r, c))"
  shows "isValidMove g r c"
proof -
  let ?center = "int (size_g g div 2)"
  let ?offset = "(if size_g g div 6 = 0 then 1 else int (size_g g div 6))"
  let ?h = "\<lambda>dr dc. (if dr = 0 \<and> dc = 0 then []
                          else (let r = ?center + dr; c = ?center + dc
                                in if isValidMove g r c then [(r, c)] else []))"
  let ?cands = "concat (map (\<lambda>dr. concat (map (?h dr) [- ?offset ..  ?offset])) [- ?offset .. ?offset])"
  have "getDefaultOpening g u = Inr (pickRandom ?cands u)"
    unfolding getDefaultOpening_def Let_def by (rule refl)
  with assms have "pickRandom ?cands u = Some (r, c)" by simp
  from in_concat_grid [OF pickRandom_mem [OF this]]
  obtain dr dc where "(r, c) \<in> set (?h dr dc)" by blast
  then show ?thesis by (auto simp: Let_def split: if_splits)
qed


text \<open>
  C8. \<open>getOpeningMove\<close> returns \<open>null\<close> whenever \<open>moveCount\<close> exceeds 4, and on a board
  state that satisfies its invariant every move it returns passes \<open>isValidMove\<close>: it is
  in bounds, on an empty cell, and not the centre as first move of the 7x7 board. This
  holds for every value of the random number.
\<close>

theorem getOpeningMove_legal:
  "(moveCount g > 4 \<longrightarrow> getOpeningMove g u = Inr None) \<and>
   (wf_game g \<and> getOpeningMove g u = Inr (Some (r, c)) \<longrightarrow> isValidMove g r c)"
  using getOpening7x7_valid [of g u r c] getOpening11x11_valid [of g u r c]
    getOpening13x13_valid [of g u r c] getDefaultOpening_valid [of g u r c]
  by (auto simp: getOpeningMove_def split: if_splits)

theorem getOpeningMove_legal_witness:
  "wf_game (newGame 7) \<and> getOpeningMove (newGame 7) (1 / 2) = Inr (Some (3, 4)) \<and>
   isValidMove (newGame 7) 3 4 \<and>
   getOpeningMove \<lparr> size_g = 3, board = [[1, 2, 1], [2, 1, 0], [0, 0, 0]], currentPlayer = 2,
      moveCount = 5, gameOver = False, winner = None, swapAvailable = False,
      history = [(0, 0, 1), (0, 1, 2), (0, 2, 1), (1, 0, 2), (1, 1, 1)] \<rparr> (1 / 2) = Inr None"
proof -
  have wf: "wf_game (newGame 7)"
    by (simp add: wf_game_def wf_board_def newGame_def stoneCount_def EMPTY_def
        sum_list_replicate list_all_iff)
  have mv: "getOpeningMove (newGame 7) (1 / 2) = Inr (Some (3, 4))"
    by (simp add: getOpeningMove_def getOpening7x7_first newGame_def pickRandom_def)
  from getOpeningMove_legal [of "newGame 7" "1 / 2" 3 4] wf mv
  have "isValidMove (newGame 7) 3 4" by simp
  moreover from getOpeningMove_legal [of "\<lparr> size_g = 3, board = [[1, 2, 1], [2, 1, 0], [0, 0, 0]],
      currentPlayer = 2, moveCount = 5, gameOver = False, winner = None, swapAvailable = False,
      history = [(0, 0, 1), (0, 1, 2), (0, 2, 1), (1, 0, 2), (1, 1, 1)] \<rparr>" "1 / 2"]
  have "getOpeningMove \<lparr> size_g = 3, board = [[1, 2, 1], [2, 1, 0], [0, 0, 0]], currentPlayer = 2,
      moveCount = 5, gameOver = False, winner = None, swapAvailable = False,
      history = [(0, 0, 1), (0, 1, 2), (0, 2, 1), (1, 0, 2), (1, 1, 1)] \<rparr> (1 / 2) = Inr None"
    by simp
  ultimately show ?thesis using wf mv by simp
qed

subsection \<open>Reset of the optimized board\<close>

lemma initCell_frame:
  "initCell s i p = Some s' \<Longrightarrow> s' = s \<lparr> parent := parent s', groupStatus := groupStatus s' \<rparr>"
  by (auto simp: initCell_def split: option.splits)

lemma unionGroups_frame:
  "unionGroups s i j = Some s' \<Longrightarrow> s' = s \<lparr> parent := parent s', groupStatus := groupStatus s' \<rparr>"
  unfolding unionGroups_def Let_def
  by (auto split: option.splits if_splits)

lemma frame_trans:
  "s1 = s \<lparr> parent := parent s1, groupStatus := groupStatus s1 \<rparr> \<Longrightarrow>
   s' = s1 \<lparr> parent := parent s', groupStatus := groupStatus s' \<rparr> \<Longrightarrow>
   s' = s \<lparr> parent := parent s', groupStatus := groupStatus s' \<rparr>"
  by (metis (no_types, lifting) FastHexGame.surjective FastHexGame.update_convs(6,7))

lemma unionNeighbors_frame:
  "unionNeighbors s idx p ns = Some s' \<Longrightarrow>
   s' = s \<lparr> parent := parent s', groupStatus := groupStatus s' \<rparr>"
proof (induction ns arbitrary: s)
  case Nil
  then show ?case by simp
next
  case (Cons n ns)
  show ?case
  proof (cases "board_f s ! n = p")
    case False
    with Cons show ?thesis by simp
  next
    case True
    with Cons.prems obtain s1 where s1: "unionGroups s idx n = Some s1"
      and rest: "unionNeighbors s1 idx p ns = Some s'"
      by (auto split: option.splits)
    from frame_trans [OF unionGroups_frame [OF s1] Cons.IH [OF rest]] show ?thesis .
  qed
qed

lemma initCells_frame:
  "initCells s is = Some s' \<Longrightarrow> s' = s \<lparr> parent := parent s', groupStatus := groupStatus s' \<rparr>"
proof (induction "is" arbitrary: s)
  case Nil
  then show ?case by simp
next
  case (Cons i "is")
  show ?case
  proof (cases "board_f s ! i \<noteq> 0")
    case False
    with Cons show ?thesis by simp
  next
    case True
    with Cons.prems obtain s1 where s1: "initCell s i (board_f s ! i) = Some s1"
      and rest: "initCells s1 is = Some s'"
      by (auto split: option.splits)
    from frame_trans [OF initCell_frame [OF s1] Cons.IH [OF rest]] show ?thesis .
  qed
qed

lemma unionCells_frame:
  "unionCells s is = Some s' \<Longrightarrow> s' = s \<lparr> parent := parent s', groupStatus := groupStatus s' \<rparr>"
proof (induction "is" arbitrary: s)
  case Nil
  then show ?case by simp
next
  case (Cons i "is")
  show ?case
  proof (cases "board_f s ! i \<noteq> 0")
    case False
    with Cons show ?thesis by simp
  next
    case True
    with Cons.prems obtain s1 where
      s1: "unionNeighbors s i (board_f s ! i) (getNeighborsIdx s i) = Some s1"
      and rest: "unionCells s1 is = Some s'"
      by (auto split: option.splits)
    from frame_trans [OF unionNeighbors_frame [OF s1] Cons.IH [OF rest]] show ?thesis .
  qed
qed

lemma checkWinLoop_frame:
  "checkWinLoop p m is s = Some (b, s') \<Longrightarrow> s' = s \<lparr> parent := parent s' \<rparr>"
proof (induction "is" arbitrary: s)
  case Nil
  then show ?case by simp
next
  case (Cons i "is")
  show ?case
  proof (cases "board_f s ! i = p")
    case False
    with Cons show ?thesis by simp
  next
    case True
    with Cons.prems obtain par rt where f: "find (parent s) (int i) = Some (par, rt)"
      by (auto split: option.splits)
    show ?thesis
    proof (cases "(groupStatus s ! nat rt) AND m = m")
      case T: True
      with True f Cons.prems have "s' = s \<lparr> parent := par \<rparr>" by simp
      then show ?thesis by simp
    next
      case F: False
      with True f Cons.prems have "checkWinLoop p m is (s \<lparr> parent := par \<rparr>) = Some (b, s')"
        by simp
      from Cons.IH [OF this] have "s' = s \<lparr> parent := par \<rparr> \<lparr> parent := parent s' \<rparr>" .
      then show ?thesis by simp
    qed
  qed
qed

lemma checkWin_f_frame:
  "checkWin_f s p = Some (b, s') \<Longrightarrow> s' = s \<lparr> parent := parent s' \<rparr>"
  unfolding checkWin_f_def by (rule checkWinLoop_frame)

lemma frame_snapshot:
  "s' = s \<lparr> parent := par, groupStatus := gs \<rparr> \<Longrightarrow> snapshot s' = snapshot s"
  "s' = s \<lparr> parent := par \<rparr> \<Longrightarrow> snapshot s' = snapshot s"
  by (simp_all add: snapshot_def)

lemma placeStone_snapshot:
  assumes "placeStone s idx = Some s'"
  shows "snapshot s' = snapshot s"
proof -
  let ?p = "currentPlayer_f s"
  let ?s1 = "s \<lparr> board_f := (board_f s)[idx := ?p],
                 movesHistory := movesHistory s @ [(idx, ?p)],
                 emptyCells := removeEmpty (emptyCells s) idx \<rparr>"
  from assms obtain s2 s3 where s2: "initCell ?s1 idx ?p = Some s2"
    and s3: "unionNeighbors s2 idx ?p (getNeighborsIdx s2 idx) = Some s3"
    and s': "s' = s3 \<lparr> currentPlayer_f := (if ?p = 1 then 2 else 1) \<rparr>"
    unfolding placeStone_def Let_def by (auto split: if_splits option.splits)
  from frame_snapshot(1) [OF initCell_frame [OF s2]] have "snapshot s2 = snapshot s"
    by (simp add: snapshot_def)
  moreover from frame_snapshot(1) [OF unionNeighbors_frame [OF s3]]
  have "snapshot s3 = snapshot s2" .
  ultimately show ?thesis using s' by (simp add: snapshot_def)
qed

lemma makeMove_f_snapshot:
  "makeMove_f s r c = Some s' \<Longrightarrow> snapshot s' = snapshot s"
  unfolding makeMove_f_def by (drule placeStone_snapshot) (simp add: snapshot_def)

lemma playoutSmart_snapshot:
  assumes "playoutSmart rs s = Some y"
  shows "snapshot (fst (snd y)) = snapshot s"
proof (rule playoutSmart.raw_induct
    [where P = "\<lambda>rs s y. snapshot (fst (snd y)) = snapshot s", OF _ assms], goal_cases)
  case (1 f rs s y)
  note IH = 1(1) and body = 1(2)
  from body obtain w1 s1 where c1: "checkWin_f s 1 = Some (w1, s1)"
    by (auto split: option.splits)
  from frame_snapshot(2) [OF checkWin_f_frame [OF c1]] have sn1: "snapshot s1 = snapshot s" .
  show ?case
  proof (cases w1)
    case True
    with body c1 sn1 show ?thesis by auto
  next
    case w1: False
    with body c1 obtain w2 s2 where c2: "checkWin_f s1 2 = Some (w2, s2)"
      by (auto split: option.splits)
    from frame_snapshot(2) [OF checkWin_f_frame [OF c2]] sn1 have sn2: "snapshot s2 = snapshot s"
      by simp
    show ?thesis
    proof (cases "w2 \<or> length (emptyCells s2) = 0")
      case True
      with body c1 c2 w1 sn2 show ?thesis by (auto split: if_splits)
    next
      case False
      with body c1 c2 w1 obtain idx rs1 s3 where "placeStone s2 idx = Some s3"
        and rec: "f rs1 s3 = Some y"
        by (auto split: option.splits)
      from placeStone_snapshot [OF this(1)] sn2 IH [OF rec] show ?thesis by simp
    qed
  qed
qed

lemma runOps_snapshot:
  "runOps s ops = Some s' \<Longrightarrow> snapshot s' = snapshot s"
proof (induction s ops rule: runOps.induct)
  case (1 s)
  then show ?case by simp
next
  case (2 s r c ops)
  then show ?case by (auto split: option.splits dest: makeMove_f_snapshot)
next
  case (3 s rs ops)
  then show ?case by (auto split: option.splits dest: playoutSmart_snapshot)
qed

lemma newFastHexGame_reset:
  assumes "newFastHexGame g = Some s0"
  shows "reset s0 = s0"
proof -
  let ?n = "size_g g"
  let ?flat = "concat (map (\<lambda>r. map (\<lambda>c. board g ! r ! c) [0 ..< ?n]) [0 ..< ?n])"
  define init where "init = \<lparr> size_f = ?n, board_f = ?flat,
      emptyCells = concat (map (\<lambda>r. concat (map (\<lambda>c.
                       if board g ! r ! c = 0 then [r * ?n + c] else []) [0 ..< ?n])) [0 ..< ?n]),
      movesHistory = [], currentPlayer_f = currentPlayer g,
      parent = uf_new (?n * ?n), groupStatus = replicate (?n * ?n) 0,
      initialBoard = [], initialPlayer = 0, initialEmpty = [],
      initialGroupStatus = [], initialUF = [],
      initialFilledCount = 0, filledCount = 0 \<rparr>"
  from assms obtain s1 s2 where s1: "initCells init [0 ..< length ?flat] = Some s1"
    and s2: "unionCells s1 [0 ..< length ?flat] = Some s2"
    and s0: "s0 = s2 \<lparr> initialBoard := board_f s2,
                            initialPlayer := currentPlayer_f s2,
                            initialEmpty := emptyCells s2,
                            initialGroupStatus := groupStatus s2,
                            initialUF := parent s2,
                            initialFilledCount := ?n * ?n - length (emptyCells s2),
                            filledCount := ?n * ?n - length (emptyCells s2) \<rparr>"
    unfolding newFastHexGame_def Let_def init_def by (auto split: option.splits)
  from initCells_frame [OF s1] have "movesHistory s1 = movesHistory init"
    by (metis FastHexGame.select_convs(4) FastHexGame.surjective FastHexGame.update_convs(6,7))
  moreover from unionCells_frame [OF s2] have "movesHistory s2 = movesHistory s1"
    by (metis FastHexGame.select_convs(4) FastHexGame.surjective FastHexGame.update_convs(6,7))
  ultimately have "movesHistory s2 = []" by (simp add: init_def)
  with s0 show ?thesis by (simp add: reset_def)
qed

text \<open>
  C10. For every source game and every sequence of \<open>makeMove\<close> and \<open>playoutSmart\<close> calls
  on the FastHexGame built from it, \<open>reset\<close> gives back the state the constructor left:
  board, current player, filled count, empty cells, group status and parent table are
  those of the construction, and the moves history is empty.
\<close>

theorem reset_restores:
  assumes "newFastHexGame g = Some s0" and "runOps s0 ops = Some s"
  shows "reset s = s0"
proof -
  from runOps_snapshot [OF assms(2)] have "snapshot s = snapshot s0" .
  then have "reset s = reset s0" by (simp add: snapshot_def reset_def)
  with newFastHexGame_reset [OF assms(1)] show ?thesis by simp
qed


theorem reset_restores_witness:
  "newFastHexGame \<lparr> size_g = 2, board = [[1, 0], [0, 0]], currentPlayer = 2, moveCount = 1,
      gameOver = False, winner = None, swapAvailable = True, history = [(0, 0, 1)] \<rparr>
   = Some \<lparr> size_f = 2, board_f = [1, 0, 0, 0], emptyCells = [1, 2, 3],
       movesHistory = [], currentPlayer_f = 2, parent = [0, 1, 2, 3],
       groupStatus = [1, 0, 0, 0], initialBoard = [1, 0, 0, 0],
       initialPlayer = 2, initialEmpty = [1, 2, 3],
       initialGroupStatus = [1, 0, 0, 0], initialUF = [0, 1, 2, 3],
       initialFilledCount = 1, filledCount = 1 \<rparr>
   \<and> runOps \<lparr> size_f = 2, board_f = [1, 0, 0, 0], emptyCells = [1, 2, 3],
       movesHistory = [], currentPlayer_f = 2, parent = [0, 1, 2, 3],
       groupStatus = [1, 0, 0, 0], initialBoard = [1, 0, 0, 0],
       initialPlayer = 2, initialEmpty = [1, 2, 3],
       initialGroupStatus = [1, 0, 0, 0], initialUF = [0, 1, 2, 3],
       initialFilledCount = 1, filledCount = 1 \<rparr> [MakeMove 1 1, PlayoutSmart [1 / 2, 1 / 2]]
   = Some \<lparr> size_f = 2, board_f = [1, 0, 1, 2], emptyCells = [1],
       movesHistory = [(3, 2), (2, 1)], currentPlayer_f = 2,
       parent = [0, 1, 0, 3], groupStatus = [3, 0, 2, 8],
       initialBoard = [1, 0, 0, 0], initialPlayer = 2,
       initialEmpty = [1, 2, 3], initialGroupStatus = [1, 0, 0, 0],
       initialUF = [0, 1, 2, 3], initialFilledCount = 1, filledCount = 2 \<rparr>
   \<and> reset \<lparr> size_f = 2, board_f = [1, 0, 1, 2], emptyCells = [1],
       movesHistory = [(3, 2), (2, 1)], currentPlayer_f = 2,
       parent = [0, 1, 0, 3], groupStatus = [3, 0, 2, 8],
       initialBoard = [1, 0, 0, 0], initialPlayer = 2,
       initialEmpty = [1, 2, 3], initialGroupStatus = [1, 0, 0, 0],
       initialUF = [0, 1, 2, 3], initialFilledCount = 1, filledCount = 2 \<rparr>
   = \<lparr> size_f = 2, board_f = [1, 0, 0, 0], emptyCells = [1, 2, 3],
       movesHistory = [], currentPlayer_f = 2, parent = [0, 1, 2, 3],
       groupStatus = [1, 0, 0, 0], initialBoard = [1, 0, 0, 0],
       initialPlayer = 2, initialEmpty = [1, 2, 3],
       initialGroupStatus = [1, 0, 0, 0], initialUF = [0, 1, 2, 3],
       initialFilledCount = 1, filledCount = 1 \<rparr>"
proof -
  have a: "newFastHexGame \<lparr> size_g = 2, board = [[1, 0], [0, 0]], currentPlayer = 2, moveCount = 1,
      gameOver = False, winner = None, swapAvailable = True, history = [(0, 0, 1)] \<rparr>
     = Some \<lparr> size_f = 2, board_f = [1, 0, 0, 0], emptyCells = [1, 2, 3],
       movesHistory = [], currentPlayer_f = 2, parent = [0, 1, 2, 3],
       groupStatus = [1, 0, 0, 0], initialBoard = [1, 0, 0, 0],
       initialPlayer = 2, initialEmpty = [1, 2, 3],
       initialGroupStatus = [1, 0, 0, 0], initialUF = [0, 1, 2, 3],
       initialFilledCount = 1, filledCount = 1 \<rparr>"
    by code_simp
  have b: "runOps \<lparr> size_f = 2, board_f = [1, 0, 0, 0], emptyCells = [1, 2, 3],
       movesHistory = [], currentPlayer_f = 2, parent = [0, 1, 2, 3],
       groupStatus = [1, 0, 0, 0], initialBoard = [1, 0, 0, 0],
       initialPlayer = 2, initialEmpty = [1, 2, 3],
       initialGroupStatus = [1, 0, 0, 0], initialUF = [0, 1, 2, 3],
       initialFilledCount = 1, filledCount = 1 \<rparr> [MakeMove 1 1, PlayoutSmart [1 / 2, 1 / 2]]
     = Some \<lparr> size_f = 2, board_f = [1, 0, 1, 2], emptyCells = [1],
       movesHistory = [(3, 2), (2, 1)], currentPlayer_f = 2,
       parent = [0, 1, 0, 3], groupStatus = [3, 0, 2, 8],
       initialBoard = [1, 0, 0, 0], initialPlayer = 2,
       initialEmpty = [1, 2, 3], initialGroupStatus = [1, 0, 0, 0],
       initialUF = [0, 1, 2, 3], initialFilledCount = 1, filledCount = 2 \<rparr>"
    by code_simp
  from reset_restores [OF a b] a b show ?thesis by blast
qed

subsection \<open>Bounded search\<close>

lemma wf_lateGame4: "wf_game lateGame4 \<and> \<not> checkWin lateGame4 PLAYER_RED \<and> \<not> checkWin lateGame4 PLAYER_BLUE"
  by code_simp

lemma makeMove_lateGame4: "makeMove lateGame4 1 2 = (True, wonGame4)"
  by code_simp

lemma makeMove_newGame4: "makeMove (newGame 4) 0 0 = (True, firstMove4 \<lparr> swapAvailable := False \<rparr>)"
  by code_simp

lemma getValidMoves_lateGame4: "getValidMoves lateGame4 = [(1, 2)]"
  by code_simp

lemma orderMoves_lateGame4: "orderMoves ev lateGame4 bw = [(1, 2)]"
  by (simp add: orderMoves_def getValidMoves_lateGame4)

lemma negamax_leaf:
  "negamax ev [] g 0 a b player bw =
     ((Num (evaluate ev g player), None),
      [(getCacheKey g 0 player, 0, (Num (evaluate ev g player), None))])"
  by (simp add: Let_def)

lemma negamax_decided:
  "gameOver g \<Longrightarrow> negamax ev [] g d a b player bw =
     ((Num (evaluate ev g player), None),
      [(getCacheKey g d player, d, (Num (evaluate ev g player), None))])"
  by (cases d) (simp_all add: Let_def)

lemma evaluate_wonGame4: "evaluate ev wonGame4 PLAYER_BLUE = 1000"
  by (simp add: evaluate_def wonGame4_def PLAYER_BLUE_def)

lemma negamax_lateGame4:
  "fst (negamax ev [] lateGame4 (Suc d) MInf PInf PLAYER_BLUE bw) = (Num (- 1000), Some (1, 2))"
proof -
  have go: "\<not> gameOver lateGame4" by (simp add: lateGame4_def)
  have won: "gameOver wonGame4" by (simp add: wonGame4_def)
  show ?thesis
    by (simp add: Let_def go orderMoves_lateGame4 makeMove_lateGame4 negamax_decided [OF won]
        evaluate_wonGame4 maxNum_def ge_def)
qed

lemma legalMoves_lateGame4: "legalMoves lateGame4 = [(1, 2)]"
  by code_simp

lemma exactMinimax_lateGame4: "exactMinimax (Suc n) lateGame4 PLAYER_BLUE = 1000"
proof -
  have go: "\<not> gameOver lateGame4" by (simp add: lateGame4_def)
  have won: "gameOver wonGame4" by (simp add: wonGame4_def)
  have tv: "terminalValue wonGame4 PLAYER_BLUE = 1000"
    by (simp add: terminalValue_def wonGame4_def PLAYER_BLUE_def)
  have "exactMinimax n wonGame4 PLAYER_BLUE = 1000"
    using won tv by (cases n) simp_all
  moreover have "currentPlayer lateGame4 = PLAYER_BLUE"
    by (simp add: lateGame4_def PLAYER_BLUE_def)
  ultimately show ?thesis
    by (simp add: go legalMoves_lateGame4 makeMove_lateGame4 Let_def)
qed

text \<open>
  C4. The bounded search with beam width at least the number of legal moves and depth at
  least the number of empty cells is claimed to return the exact minimax value for the
  searching side. In \<open>lateGame4\<close> blue is to move and wins with the only move left, so
  the exact value for blue is \<open>+1000\<close>; \<open>negamax\<close> searching for blue returns \<open>-1000\<close>, for
  every depth from 1 on, every beam width and every evaluator.
\<close>

theorem negamax_not_minimax:
  "length (legalMoves lateGame4) = 1 \<and>
   length (getValidMoves lateGame4) = 1 \<and>
   exactMinimax (Suc n) lateGame4 PLAYER_BLUE = 1000 \<and>
   fst (fst (negamax ev [] lateGame4 (Suc d) MInf PInf PLAYER_BLUE bw)) = Num (- 1000)"
  using negamax_lateGame4 [of ev d bw] exactMinimax_lateGame4 [of n]
  by (simp add: legalMoves_lateGame4 getValidMoves_lateGame4)

text \<open>
  C5. Every call of \<open>negamax\<close> is claimed to return a value from the perspective of the
  side to move at its node, so that a parent negates the value of its child. The calls
  below show that the perspective is that of the parameter \<open>player\<close>, which the recursion
  hands on unchanged. At \<open>firstMove4\<close> blue is to move, and the leaf call made while
  searching for red returns the differential in red's favour. At \<open>lateGame4\<close> blue is to
  move and wins at once; \<open>wonGame4\<close> is the position after that move (lemma
  \<open>makeMove_lateGame4\<close>). The leaf \<open>wonGame4\<close> is valued \<open>+1000\<close> for blue, and the parent,
  where blue is to move, negates it to \<open>-1000\<close>.
\<close>

theorem negamax_perspective:
  "currentPlayer firstMove4 = PLAYER_BLUE \<and> \<not> gameOver firstMove4 \<and>
   fst (fst (negamax ev [] firstMove4 0 a b PLAYER_RED bw))
     = Num ((ev firstMove4 PLAYER_RED - ev firstMove4 PLAYER_BLUE) * 100) \<and>
   currentPlayer lateGame4 = PLAYER_BLUE \<and>
   winner wonGame4 = Some PLAYER_BLUE \<and>
   fst (fst (negamax ev [] wonGame4 0 MInf PInf PLAYER_BLUE 1)) = Num 1000 \<and>
   fst (negamax ev [] lateGame4 1 MInf PInf PLAYER_BLUE 1) = (Num (- 1000), Some (1, 2))"
proof -
  have 1: "currentPlayer firstMove4 = PLAYER_BLUE \<and> \<not> gameOver firstMove4"
    by (simp add: firstMove4_def PLAYER_BLUE_def)
  then have 2: "fst (fst (negamax ev [] firstMove4 0 a b PLAYER_RED bw))
     = Num ((ev firstMove4 PLAYER_RED - ev firstMove4 PLAYER_BLUE) * 100)"
    by (simp add: negamax_leaf evaluate_def otherPlayer_def Let_def)
  have 3: "currentPlayer lateGame4 = PLAYER_BLUE"
    by (simp add: lateGame4_def PLAYER_BLUE_def)
  have 4: "winner wonGame4 = Some PLAYER_BLUE"
    by (simp add: wonGame4_def PLAYER_BLUE_def)
  have 5: "fst (fst (negamax ev [] wonGame4 0 MInf PInf PLAYER_BLUE 1)) = Num 1000"
    by (simp add: evaluate_wonGame4 Let_def)
  from 1 2 3 4 5 negamax_lateGame4 [of ev 0 1] show ?thesis
    by simp
qed

subsection \<open>Backpropagation of the standard tree search\<close>

lemma shape_length: "shape t' = shape t \<Longrightarrow> length t' = length t"
  unfolding shape_def by (rule map_eq_imp_length_eq)

lemma shape_nth:
  assumes "shape t' = shape t" "i < length t"
  shows "game_n (t' ! i) = game_n (t ! i)" "aiPlayer_n (t' ! i) = aiPlayer_n (t ! i)"
    "move_n (t' ! i) = move_n (t ! i)" "parent_n (t' ! i) = parent_n (t ! i)"
    "children_n (t' ! i) = children_n (t ! i)"
proof -
  let ?f = "\<lambda>nd. (game_n nd, aiPlayer_n nd, move_n nd, parent_n nd, children_n nd)"
  from shape_length [OF assms(1)] assms(2) have len: "i < length t'" by simp
  from assms(1) have "map ?f t' ! i = map ?f t ! i" by (simp only: shape_def)
  then have "?f (t' ! i) = ?f (t ! i)"
    by (simp only: nth_map [OF len] nth_map [OF assms(2)])
  then show "game_n (t' ! i) = game_n (t ! i)" "aiPlayer_n (t' ! i) = aiPlayer_n (t ! i)"
    "move_n (t' ! i) = move_n (t ! i)" "parent_n (t' ! i) = parent_n (t ! i)"
    "children_n (t' ! i) = children_n (t ! i)" by (simp_all only: prod.inject)
qed

lemma shape_parents: "shape t' = shape t \<Longrightarrow> map parent_n t' = map parent_n t"
proof -
  assume a: "shape t' = shape t"
  have "map parent_n u = map (\<lambda>x. fst (snd (snd (snd x)))) (shape u)" for u
    by (simp add: shape_def comp_def)
  with a show ?thesis by simp
qed

lemma shape_wf:
  assumes "shape t' = shape t" "wf_tree t"
  shows "wf_tree t'"
  unfolding wf_tree_def
proof (intro allI impI)
  fix i assume "i < length t'"
  with shape_length [OF assms(1)] have i: "i < length t" by simp
  note pi = shape_nth(4) [OF assms(1) i] and ci = shape_nth(5) [OF assms(1) i]
  from assms(2) i have w: "(\<forall>p. parent_n (t ! i) = Some p \<longrightarrow> p < i) \<and>
        distinct (children_n (t ! i)) \<and>
        (\<forall>c \<in> set (children_n (t ! i)). c < length t \<and> parent_n (t ! c) = Some i)"
    by (simp add: wf_tree_def)
  have "\<forall>c \<in> set (children_n (t' ! i)). c < length t' \<and> parent_n (t' ! c) = Some i"
  proof
    fix c assume "c \<in> set (children_n (t' ! i))"
    with ci w have c: "c < length t" "parent_n (t ! c) = Some i" by auto
    with shape_nth(4) [OF assms(1) c(1)] shape_length [OF assms(1)]
    show "c < length t' \<and> parent_n (t' ! c) = Some i" by simp
  qed
  with w pi ci show "(\<forall>p. parent_n (t' ! i) = Some p \<longrightarrow> p < i) \<and>
        distinct (children_n (t' ! i)) \<and>
        (\<forall>c \<in> set (children_n (t' ! i)). c < length t' \<and> parent_n (t' ! c) = Some i)"
    by simp
qed

lemma raveMatch_shape:
  assumes "shape t' = shape t" "a < length t" "c < length t"
  shows "raveMatch (t' ! a) (t' ! c) pms = raveMatch (t ! a) (t ! c) pms"
  using shape_nth(1) [OF assms(1,2)] shape_nth(3) [OF assms(1,3)]
  by (simp add: raveMatch_def)

lemma map_update_same: "(map f t)[c := f (t ! c)] = map f t"
  by (metis list_update_id map_update)

lemma raveUpdate_shape:
  "shape (raveUpdate this w pms c t) = shape t"
proof -
  let ?f = "\<lambda>nd. (game_n nd, aiPlayer_n nd, move_n nd, parent_n nd, children_n nd)"
  have "map ?f (t[c := x]) = map ?f t" if "?f x = ?f (t ! c)" for x
    using that map_update_same [of ?f t c] by (simp add: map_update)
  then show ?thesis by (simp add: raveUpdate_def shape_def)
qed

lemma raveUpdate_length [simp]: "length (raveUpdate this w pms c t) = length t"
  by (simp add: raveUpdate_def)

lemma raveUpdate_other:
  "i \<noteq> c \<Longrightarrow> raveUpdate this w pms c t ! i = t ! i"
  by (simp add: raveUpdate_def)

lemma raveUpdate_same:
  "c < length t \<Longrightarrow>
   raveVisits_n (raveUpdate this w pms c t ! c)
     = raveVisits_n (t ! c) + (if raveMatch this (t ! c) pms then 1 else 0) \<and>
   raveWins_n (raveUpdate this w pms c t ! c)
     = raveWins_n (t ! c) + (if raveMatch this (t ! c) pms \<and> w = aiPlayer_n this then 1 else 0) \<and>
   move_n (raveUpdate this w pms c t ! c) = move_n (t ! c)"
  by (simp add: raveUpdate_def)

lemma fold_raveUpdate:
  assumes "distinct cs" "\<forall>c \<in> set cs. c < length t"
  shows "shape (fold (raveUpdate this w pms) cs t) = shape t \<and>
         (\<forall>i. i \<notin> set cs \<longrightarrow> fold (raveUpdate this w pms) cs t ! i = t ! i) \<and>
         (\<forall>c \<in> set cs.
            raveVisits_n (fold (raveUpdate this w pms) cs t ! c)
              = raveVisits_n (t ! c) + (if raveMatch this (t ! c) pms then 1 else 0) \<and>
            raveWins_n (fold (raveUpdate this w pms) cs t ! c)
              = raveWins_n (t ! c)
                + (if raveMatch this (t ! c) pms \<and> w = aiPlayer_n this then 1 else 0))"
  using assms
proof (induction cs arbitrary: t)
  case Nil
  show ?case by simp
next
  case (Cons c cs)
  let ?t1 = "raveUpdate this w pms c t"
  have len: "length ?t1 = length t" by simp
  from Cons.prems have d: "distinct cs" and cn: "c \<notin> set cs" and cl: "c < length t"
    and r: "\<forall>c \<in> set cs. c < length ?t1" by simp_all
  note IH = Cons.IH [OF d r]
  have sh: "shape (fold (raveUpdate this w pms) (c # cs) t) = shape t"
    using IH raveUpdate_shape [of this w pms c t] by simp
  have oth: "\<forall>i. i \<notin> set (c # cs) \<longrightarrow> fold (raveUpdate this w pms) (c # cs) t ! i = t ! i"
    using IH by (simp add: raveUpdate_other)
  have "fold (raveUpdate this w pms) (c # cs) t ! c = ?t1 ! c"
    using IH cn by simp
  with raveUpdate_same [OF cl, of this w pms]
  have hd: "raveVisits_n (fold (raveUpdate this w pms) (c # cs) t ! c)
              = raveVisits_n (t ! c) + (if raveMatch this (t ! c) pms then 1 else 0) \<and>
            raveWins_n (fold (raveUpdate this w pms) (c # cs) t ! c)
              = raveWins_n (t ! c)
                + (if raveMatch this (t ! c) pms \<and> w = aiPlayer_n this then 1 else 0)"
    by simp
  have tl: "\<forall>c' \<in> set cs.
            raveVisits_n (fold (raveUpdate this w pms) (c # cs) t ! c')
              = raveVisits_n (t ! c') + (if raveMatch this (t ! c') pms then 1 else 0) \<and>
            raveWins_n (fold (raveUpdate this w pms) (c # cs) t ! c')
              = raveWins_n (t ! c')
                + (if raveMatch this (t ! c') pms \<and> w = aiPlayer_n this then 1 else 0)"
  proof
    fix c' assume c': "c' \<in> set cs"
    with cn have "c' \<noteq> c" by auto
    then have "?t1 ! c' = t ! c'" by (simp add: raveUpdate_other)
    with IH c' show "raveVisits_n (fold (raveUpdate this w pms) (c # cs) t ! c')
              = raveVisits_n (t ! c') + (if raveMatch this (t ! c') pms then 1 else 0) \<and>
            raveWins_n (fold (raveUpdate this w pms) (c # cs) t ! c')
              = raveWins_n (t ! c')
                + (if raveMatch this (t ! c') pms \<and> w = aiPlayer_n this then 1 else 0)"
      by simp
  qed
  from sh oth hd tl show ?case by simp
qed

lemma onPath_le:
  assumes "onPath ps n a" "\<forall>i < length ps. \<forall>p. ps ! i = Some p \<longrightarrow> p < i" "n < length ps"
  shows "a \<le> n"
  using assms
proof (induction rule: onPath.induct)
  case (self ps n)
  show ?case by simp
next
  case (up ps n p a)
  from up.hyps(1) up.prems have pn: "p < n" by blast
  with up.prems have "p < length ps" by simp
  with up.IH up.prems(1) have "a \<le> p" by blast
  with pn show ?case by simp
qed

lemma wf_tree_parents:
  "wf_tree t \<Longrightarrow> \<forall>i < length (map parent_n t). \<forall>p. map parent_n t ! i = Some p \<longrightarrow> p < i"
  by (simp add: wf_tree_def)

lemma visit_update:
  assumes "n < length t"
  shows "shape (t[n := (t ! n) \<lparr> visits_n := v, wins_n := x \<rparr>]) = shape t"
    and "raveVisits_n (t[n := (t ! n) \<lparr> visits_n := v, wins_n := x \<rparr>] ! i) = raveVisits_n (t ! i)"
    and "raveWins_n (t[n := (t ! n) \<lparr> visits_n := v, wins_n := x \<rparr>] ! i) = raveWins_n (t ! i)"
    and "move_n (t[n := (t ! n) \<lparr> visits_n := v, wins_n := x \<rparr>] ! i) = move_n (t ! i)"
proof -
  let ?f = "\<lambda>nd. (game_n nd, aiPlayer_n nd, move_n nd, parent_n nd, children_n nd)"
  let ?nd = "(t ! n) \<lparr> visits_n := v, wins_n := x \<rparr>"
  have "?f ?nd = ?f (t ! n)" by simp
  then have "map ?f (t[n := ?nd]) = map ?f t"
    using map_update_same [of ?f t n] by (simp add: map_update)
  then show "shape (t[n := ?nd]) = shape t" by (simp add: shape_def)
  show "raveVisits_n (t[n := ?nd] ! i) = raveVisits_n (t ! i)"
    using assms by (cases "i = n") simp_all
  show "raveWins_n (t[n := ?nd] ! i) = raveWins_n (t ! i)"
    using assms by (cases "i = n") simp_all
  show "move_n (t[n := ?nd] ! i) = move_n (t ! i)"
    using assms by (cases "i = n") simp_all
qed

lemma raveMatch_cong:
  "currentPlayer (game_n a') = currentPlayer (game_n a) \<Longrightarrow> move_n c' = move_n c \<Longrightarrow>
   raveMatch a' c' pms = raveMatch a c pms"
  by (simp add: raveMatch_def)

lemma onPath_cases_first:
  assumes "onPath ps n a"
  shows "a = n \<or> (\<exists>p. ps ! n = Some p \<and> onPath ps p a)"
  using assms by (cases rule: onPath.cases) auto

lemma wf_treeD:
  assumes "wf_tree t" "i < length t"
  shows "parent_n (t ! i) = Some p \<Longrightarrow> p < i"
    and "distinct (children_n (t ! i))"
    and "c \<in> set (children_n (t ! i)) \<Longrightarrow> c < length t"
    and "c \<in> set (children_n (t ! i)) \<Longrightarrow> parent_n (t ! c) = Some i"
  using assms unfolding wf_tree_def by blast+

lemma backpropagate_main:
  "wf_tree t \<Longrightarrow> n < length t \<Longrightarrow>
   \<exists>t'. backpropagate t n (w, pms) = Some t' \<and> shape t' = shape t \<and> raveSpec t n w pms t'"
proof (induction n arbitrary: t rule: less_induct)
  case (less n)
  note wf = less.prems(1) and n = less.prems(2)
  let ?ps = "map parent_n t"
  let ?nd = "t ! n"
  let ?t1 = "t[n := ?nd \<lparr> visits_n := visits_n ?nd + 1,
                            wins_n := (if w = aiPlayer_n ?nd then wins_n ?nd + 1
                                       else wins_n ?nd) \<rparr>]"
  note t1 = visit_update [OF n, where v = "visits_n ?nd + 1"
      and x = "if w = aiPlayer_n ?nd then wins_n ?nd + 1 else wins_n ?nd"]
  have psn: "?ps ! i = parent_n (t ! i)" if "i < length t" for i
    using that by simp
  show ?case
  proof (cases "parent_n ?nd")
    case None
    have bp: "backpropagate t n (w, pms) = Some ?t1"
      using n None by (subst backpropagate.simps) (simp add: Let_def)
    have onlyn: "a = n" if "onPath ?ps n a" for a
      using onPath_cases_first [OF that] None psn [OF n] by auto
    have "raveSpec t n w pms ?t1"
      unfolding raveSpec_def
    proof (intro conjI allI impI)
      fix a p c
      assume pth: "onPath ?ps n a" and pa: "parent_n (t ! a) = Some p"
      from onlyn [OF pth] pa None have False by simp
      then show "raveVisits_n (?t1 ! c)
            = raveVisits_n (t ! c) + (if raveMatch (t ! a) (t ! c) pms then 1 else 0)"
        and "raveWins_n (?t1 ! c)
            = raveWins_n (t ! c)
              + (if raveMatch (t ! a) (t ! c) pms \<and> w = aiPlayer_n (t ! a) then 1 else 0)"
        by blast+
    next
      fix c
      show "raveVisits_n (?t1 ! c) = raveVisits_n (t ! c)" by (rule t1(2))
      show "raveWins_n (?t1 ! c) = raveWins_n (t ! c)" by (rule t1(3))
    qed
    with bp t1(1) show ?thesis by blast
  next
    case (Some p)
    from wf_treeD(1) [OF wf n Some] have pn: "p < n" .
    with n have pl: "p < length t" by simp
    let ?cs = "children_n (t ! p)"
    from pn n have t1p: "?t1 ! p = t ! p" by simp
    let ?t2 = "fold (raveUpdate ?nd w pms) ?cs ?t1"
    have dcs: "distinct ?cs" by (rule wf_treeD(2) [OF wf pl])
    have csl: "\<forall>c \<in> set ?cs. c < length ?t1"
      using wf_treeD(3) [OF wf pl] by simp
    note f = fold_raveUpdate [OF dcs csl, of ?nd w pms]
    from f t1(1) have sh2: "shape ?t2 = shape t" by simp
    have wf2: "wf_tree ?t2" by (rule shape_wf [OF sh2 wf])
    from shape_length [OF sh2] pl have pl2: "p < length ?t2" by simp
    from less.IH [OF pn wf2 pl2] obtain t' where
      bp2: "backpropagate ?t2 p (w, pms) = Some t'" and sh': "shape t' = shape ?t2"
      and spec2: "raveSpec ?t2 p w pms t'" by blast
    have bp: "backpropagate t n (w, pms) = Some t'"
      using n Some pn bp2 t1p by (subst backpropagate.simps) (simp add: Let_def)
    have ps2: "map parent_n ?t2 = ?ps" by (rule shape_parents [OF sh2])
    have wfps: "\<forall>i < length ?ps. \<forall>q. ?ps ! i = Some q \<longrightarrow> q < i"
      by (rule wf_tree_parents [OF wf])
    have le_p: "a \<le> p" if "onPath ?ps p a" for a
      using onPath_le [OF that wfps] pl by simp
    have not_cs: "c \<notin> set ?cs"
      if "onPath ?ps p a" "parent_n (t ! a) = Some q" "c \<in> set (children_n (t ! q))" for a q c
    proof
      assume "c \<in> set ?cs"
      from wf_treeD(4) [OF wf pl this] have pc: "parent_n (t ! c) = Some p" .
      from le_p [OF that(1)] pl have al: "a < length t" by simp
      from wf_treeD(1) [OF wf al that(2)] have qa: "q < a" .
      with al have ql: "q < length t" by simp
      from wf_treeD(4) [OF wf ql that(3)] pc have "q = p" by simp
      with qa le_p [OF that(1)] show False by simp
    qed
    have keep: "raveVisits_n (?t2 ! c) = raveVisits_n (t ! c) \<and>
                raveWins_n (?t2 ! c) = raveWins_n (t ! c)" if "c \<notin> set ?cs" for c
    proof -
      from f that have "?t2 ! c = ?t1 ! c" by blast
      with t1(2) [of c] t1(3) [of c] show ?thesis by simp
    qed
    from spec2 have A2: "\<And>a q c. onPath ?ps p a \<Longrightarrow> parent_n (?t2 ! a) = Some q \<Longrightarrow>
        c \<in> set (children_n (?t2 ! q)) \<Longrightarrow>
          raveVisits_n (t' ! c)
            = raveVisits_n (?t2 ! c) + (if raveMatch (?t2 ! a) (?t2 ! c) pms then 1 else 0) \<and>
          raveWins_n (t' ! c)
            = raveWins_n (?t2 ! c)
              + (if raveMatch (?t2 ! a) (?t2 ! c) pms \<and> w = aiPlayer_n (?t2 ! a) then 1 else 0)"
      unfolding raveSpec_def ps2 by blast
    from spec2 have B2: "\<And>c. c < length ?t2 \<Longrightarrow>
        (\<forall>a q. onPath ?ps p a \<longrightarrow> parent_n (?t2 ! a) = Some q \<longrightarrow>
           c \<notin> set (children_n (?t2 ! q))) \<Longrightarrow>
          raveVisits_n (t' ! c) = raveVisits_n (?t2 ! c) \<and>
          raveWins_n (t' ! c) = raveWins_n (?t2 ! c)"
      unfolding raveSpec_def ps2 by blast
    have "raveSpec t n w pms t'"
      unfolding raveSpec_def
    proof (intro conjI allI impI)
      fix a q c
      assume path: "onPath ?ps n a" and pa: "parent_n (t ! a) = Some q"
        and cq: "c \<in> set (children_n (t ! q))"
      have "raveVisits_n (t' ! c)
            = raveVisits_n (t ! c) + (if raveMatch (t ! a) (t ! c) pms then 1 else 0) \<and>
          raveWins_n (t' ! c)
            = raveWins_n (t ! c)
              + (if raveMatch (t ! a) (t ! c) pms \<and> w = aiPlayer_n (t ! a) then 1 else 0)"
      proof (cases "a = n")
        case True
        with pa Some have qp: "q = p" by simp
        with cq have cin: "c \<in> set ?cs" by simp
        from wf_treeD(3) [OF wf pl cin] have cl: "c < length t" .
        have m: "raveMatch ?nd (?t1 ! c) pms = raveMatch (t ! n) (t ! c) pms"
          by (rule raveMatch_cong) (simp_all only: t1(4))
        from f cin m have step: "raveVisits_n (?t2 ! c)
              = raveVisits_n (t ! c) + (if raveMatch (t ! n) (t ! c) pms then 1 else 0) \<and>
            raveWins_n (?t2 ! c)
              = raveWins_n (t ! c)
                + (if raveMatch (t ! n) (t ! c) pms \<and> w = aiPlayer_n (t ! n) then 1 else 0)"
          using t1(2) [of c] t1(3) [of c] by simp
        have "\<forall>a' q'. onPath ?ps p a' \<longrightarrow> parent_n (?t2 ! a') = Some q' \<longrightarrow>
                 c \<notin> set (children_n (?t2 ! q'))"
        proof (intro allI impI)
          fix a' q'
          assume p': "onPath ?ps p a'" and pa': "parent_n (?t2 ! a') = Some q'"
          from le_p [OF p'] pl have al: "a' < length t" by simp
          from pa' shape_nth(4) [OF sh2 al] have pa2: "parent_n (t ! a') = Some q'" by simp
          from wf_treeD(1) [OF wf al pa2] al have ql: "q' < length t" by simp
          show "c \<notin> set (children_n (?t2 ! q'))"
          proof
            assume "c \<in> set (children_n (?t2 ! q'))"
            with shape_nth(5) [OF sh2 ql] have "c \<in> set (children_n (t ! q'))" by simp
            from not_cs [OF p' pa2 this] cin show False by simp
          qed
        qed
        with B2 [of c] cl shape_length [OF sh2] have "raveVisits_n (t' ! c) = raveVisits_n (?t2 ! c) \<and>
          raveWins_n (t' ! c) = raveWins_n (?t2 ! c)" by simp
        with step True show ?thesis by simp
      next
        case False
        with onPath_cases_first [OF path] psn [OF n] Some have pp: "onPath ?ps p a" by auto
        from le_p [OF pp] pl have al: "a < length t" by simp
        from wf_treeD(1) [OF wf al pa] al have ql: "q < length t" by simp
        from wf_treeD(3) [OF wf ql cq] have cl: "c < length t" .
        from pa shape_nth(4) [OF sh2 al] have pa2: "parent_n (?t2 ! a) = Some q" by simp
        from cq shape_nth(5) [OF sh2 ql] have cq2: "c \<in> set (children_n (?t2 ! q))" by simp
        have m: "raveMatch (?t2 ! a) (?t2 ! c) pms = raveMatch (t ! a) (t ! c) pms"
          by (rule raveMatch_shape [OF sh2 al cl])
        from not_cs [OF pp pa cq] have "c \<notin> set ?cs" .
        from keep [OF this] A2 [OF pp pa2 cq2] m shape_nth(2) [OF sh2 al]
        show ?thesis by simp
      qed
      then show "raveVisits_n (t' ! c)
            = raveVisits_n (t ! c) + (if raveMatch (t ! a) (t ! c) pms then 1 else 0)"
        and "raveWins_n (t' ! c)
            = raveWins_n (t ! c)
              + (if raveMatch (t ! a) (t ! c) pms \<and> w = aiPlayer_n (t ! a) then 1 else 0)"
        by blast+
    next
      fix c
      assume cl: "c < length t"
        and none: "\<forall>a q. onPath ?ps n a \<longrightarrow> parent_n (t ! a) = Some q \<longrightarrow>
                     c \<notin> set (children_n (t ! q))"
      from none onPath.self [of ?ps n] Some have "c \<notin> set ?cs" by blast
      note k = keep [OF this]
      have "\<forall>a' q'. onPath ?ps p a' \<longrightarrow> parent_n (?t2 ! a') = Some q' \<longrightarrow>
                 c \<notin> set (children_n (?t2 ! q'))"
      proof (intro allI impI)
        fix a' q'
        assume p': "onPath ?ps p a'" and pa': "parent_n (?t2 ! a') = Some q'"
        from le_p [OF p'] pl have al: "a' < length t" by simp
        from pa' shape_nth(4) [OF sh2 al] have pa2: "parent_n (t ! a') = Some q'" by simp
        from wf_treeD(1) [OF wf al pa2] al have ql: "q' < length t" by simp
        from psn [OF n] Some have "?ps ! n = Some p" by simp
        from onPath.up [OF this p'] none pa2 have "c \<notin> set (children_n (t ! q'))" by blast
        with shape_nth(5) [OF sh2 ql] show "c \<notin> set (children_n (?t2 ! q'))" by simp
      qed
      with B2 [of c] cl shape_length [OF sh2] have "raveVisits_n (t' ! c) = raveVisits_n (?t2 ! c) \<and>
          raveWins_n (t' ! c) = raveWins_n (?t2 ! c)" by simp
      with k show "raveVisits_n (t' ! c) = raveVisits_n (t ! c)"
        and "raveWins_n (t' ! c) = raveWins_n (t ! c)" by simp_all
    qed
    moreover from sh' sh2 have "shape t' = shape t" by simp
    ultimately show ?thesis using bp by blast
  qed
qed

subsection \<open>Move choice on a board without an empty cell\<close>

lemma in_getValidMoves:
  "(int r, int c) \<in> set (getValidMoves g) \<longleftrightarrow> r < size_g g \<and> c < size_g g \<and> board g ! r ! c = EMPTY"
proof -
  have row: "(int r, int c) \<in> set (map (\<lambda>c. (int x, int c)) (filter (\<lambda>c. board g ! x ! c = EMPTY) [0..<size_g g]))
     \<longleftrightarrow> r = x \<and> c < size_g g \<and> board g ! x ! c = EMPTY" for x
    by (auto simp: image_iff)
  have "(int r, int c) \<in> set (getValidMoves g) \<longleftrightarrow>
        (\<exists>x \<in> {0 ..< size_g g}. r = x \<and> c < size_g g \<and> board g ! x ! c = EMPTY)"
    unfolding getValidMoves_def set_concat set_map set_upt
    by (simp only: UN_iff image_iff bex_simps row)
  then show ?thesis by auto
qed


lemma no_empty_cell:
  assumes "getValidMoves g = []" "r < size_g g" "c < size_g g"
  shows "board g ! r ! c \<noteq> EMPTY"
proof
  assume e: "board g ! r ! c = EMPTY"
  with assms(2,3) have "(int r, int c) \<in> set (getValidMoves g)"
    by (simp only: in_getValidMoves)
  with assms(1) show False by simp
qed

lemma isValidMove_D:
  assumes "isValidMove g r c"
  shows "\<not> (r < 0 \<or> r \<ge> int (size_g g) \<or> c < 0 \<or> c \<ge> int (size_g g))"
    and "cellAt (board g) r c = EMPTY"
proof -
  show "\<not> (r < 0 \<or> r \<ge> int (size_g g) \<or> c < 0 \<or> c \<ge> int (size_g g))"
  proof
    assume "r < 0 \<or> r \<ge> int (size_g g) \<or> c < 0 \<or> c \<ge> int (size_g g)"
    then have "isValidMove g r c = False" unfolding isValidMove_def by (rule if_P)
    with assms show False by simp
  qed
  then have eq: "isValidMove g r c = (if cellAt (board g) r c \<noteq> EMPTY then False
      else if size_g g = 7 \<and> moveCount g = 0 \<and>
              r = int (size_g g div 2) \<and> c = int (size_g g div 2) then False
      else True)" unfolding isValidMove_def by (rule if_not_P)
  show "cellAt (board g) r c = EMPTY"
  proof (rule ccontr)
    assume "cellAt (board g) r c \<noteq> EMPTY"
    then have "isValidMove g r c = False" unfolding eq by (rule if_P)
    with assms show False by simp
  qed
qed

lemma no_valid_move:
  assumes "getValidMoves g = []"
  shows "\<not> isValidMove g r c"
proof
  assume v: "isValidMove g r c"
  from isValidMove_D(1) [OF v] have "nat r < size_g g" "nat c < size_g g" by linarith+
  from no_empty_cell [OF assms this] isValidMove_D(1) [OF v] isValidMove_D(2) [OF v]
  show False by (simp add: cellAt_def)
qed

lemma full_stoneCount:
  assumes "wf_board g" "getValidMoves g = []"
  shows "stoneCount g = size_g g * size_g g"
proof -
  from assms(1) have len: "length (board g) = size_g g"
    and rows: "\<forall>row \<in> set (board g). length row = size_g g"
    by (auto simp: wf_board_def list_all_iff)
  have "length (filter (\<lambda>v. v \<noteq> EMPTY) row) = size_g g" if "row \<in> set (board g)" for row
  proof -
    from that obtain r where r: "r < length (board g)" "row = board g ! r"
      by (auto simp: in_set_conv_nth)
    have "\<forall>v \<in> set row. v \<noteq> EMPTY"
    proof
      fix v assume "v \<in> set row"
      then obtain c where c: "c < length row" "v = row ! c" by (auto simp: in_set_conv_nth)
      with rows that have "c < size_g g" by simp
      from no_empty_cell [OF assms(2) _ this, of r] r len c show "v \<noteq> EMPTY" by simp
    qed
    then have "filter (\<lambda>v. v \<noteq> EMPTY) row = row" by (simp add: filter_id_conv)
    with rows that show ?thesis by simp
  qed
  then have "map (\<lambda>row. length (filter (\<lambda>v. v \<noteq> EMPTY) row)) (board g)
             = map (\<lambda>row. size_g g) (board g)" by simp
  then have "stoneCount g = sum_list (map (\<lambda>row. size_g g) (board g))"
    by (simp only: stoneCount_def)
  also have "\<dots> = length (board g) * size_g g" by (simp add: sum_list_triv)
  finally show ?thesis using len by simp
qed

lemma pickRandom_Nil: "pickRandom [] u = None"
  by (simp add: pickRandom_def)


lemma concat_map_Nil: "concat (map (\<lambda>x. []) xs) = []"
  by (induction xs) simp_all

lemma getDefaultOpening_full:
  assumes "getValidMoves g = []"
  shows "getDefaultOpening g u = Inr None"
  unfolding getDefaultOpening_def Let_def
  by (simp only: no_valid_move [OF assms] if_False if_cancel concat_map_Nil pickRandom_Nil)

lemma getOpeningMove_full:
  assumes "wf_game g" "getValidMoves g = []"
  shows "getOpeningMove g u = Inr None"
proof (cases "moveCount g > 4")
  case True
  then show ?thesis unfolding getOpeningMove_def by (rule if_P)
next
  case False
  from assms have mc: "moveCount g = size_g g * size_g g"
    using full_stoneCount [of g] by (simp add: wf_game_def)
  with False have le: "size_g g * size_g g \<le> 4" by simp
  have small: "size_g g \<le> 2"
  proof (rule ccontr)
    assume "\<not> size_g g \<le> 2"
    then have "3 \<le> size_g g" by arith
    then have "3 * 3 \<le> size_g g * size_g g" by (intro mult_le_mono)
    with le show False by simp
  qed
  then have "size_g g \<noteq> 7" "size_g g \<noteq> 11" "size_g g \<noteq> 13" by arith+
  with False show ?thesis
    unfolding getOpeningMove_def by (simp only: if_False getDefaultOpening_full [OF assms(2)])
qed

lemma findCriticalMove_mcts_full:
  "getValidMoves g = [] \<Longrightarrow> findCriticalMove_mcts g = None"
  by (simp add: findCriticalMove_mcts_def findTwoMoveWin_def findVirtualConnectionThreat_def Let_def)

lemma orderMoves_full: "getValidMoves g = [] \<Longrightarrow> orderMoves ev g bw = []"
  by (simp add: orderMoves_def)

lemma negamax_full:
  "getValidMoves g = [] \<Longrightarrow> snd (fst (negamax ev [] g d a b p bw)) = None"
  by (cases d) (simp_all add: Let_def orderMoves_full)

lemma heuristic_full:
  "getValidMoves g = [] \<Longrightarrow> fst (getBestMove_search ev [] g p d bw) = None"
  by (simp add: getBestMove_search_def Let_def negamax_full)

lemma selectLoop_bare:
  assumes "children_n (t ! 0) = []" "untriedMoves_n (t ! 0) = []"
  shows "selectLoop sel t 0
           = (if gameOver (game_n (t ! 0)) then Some (Inr 0) else Some (Inl TypeError))"
  by (subst selectLoop.simps) (simp add: assms)

lemma simulate_over:
  "gameOver (game_n nd) \<Longrightarrow> simulate ks nd = Some (winner (game_n nd), [])"
  unfolding simulate_def by (subst simulateLoop.simps) simp

lemma backpropagate_root:
  "parent_n r = None \<Longrightarrow>
   backpropagate [r] 0 res
     = Some [r \<lparr> visits_n := visits_n r + 1,
                    wins_n := (if fst res = aiPlayer_n r then wins_n r + 1 else wins_n r) \<rparr>]"
  by (subst backpropagate.simps) (simp add: Let_def)

lemma mctsRound_bare:
  assumes "children_n r = []" "untriedMoves_n r = []" "parent_n r = None"
  shows "mctsRound sc sel ks pw i [r]
           = (if gameOver (game_n r)
              then Some (Inr [r \<lparr> visits_n := visits_n r + 1,
                                     wins_n := (if winner (game_n r) = aiPlayer_n r
                                                then wins_n r + 1 else wins_n r) \<rparr>])
              else Some (Inl TypeError))"
proof (cases "gameOver (game_n r)")
  case True
  from assms(1,2) True have "selectLoop sel [r] 0 = Some (Inr 0)"
    by (simp add: selectLoop_bare)
  with True assms show ?thesis
    by (simp add: mctsRound_def simulate_over backpropagate_root)
next
  case False
  from assms(1,2) False have "selectLoop sel [r] 0 = Some (Inl TypeError)"
    by (simp add: selectLoop_bare)
  with False show ?thesis by (simp add: mctsRound_def)
qed

lemma mctsLoop_bare:
  assumes "children_n r = []" "untriedMoves_n r = []" "parent_n r = None"
  shows "mctsLoop sc sel kss pw js [r] = Some (Inl TypeError) \<or>
         (\<exists>r'. mctsLoop sc sel kss pw js [r] = Some (Inr [r']) \<and> children_n r' = [])"
  using assms
proof (induction js arbitrary: r)
  case Nil
  then show ?case by simp
next
  case (Cons i js)
  show ?case
  proof (cases "gameOver (game_n r)")
    case True
    let ?r = "r \<lparr> visits_n := visits_n r + 1,
                     wins_n := (if winner (game_n r) = aiPlayer_n r
                                then wins_n r + 1 else wins_n r) \<rparr>"
    from Cons.prems True have rd: "mctsRound sc sel (kss i) pw i [r] = Some (Inr [?r])"
      by (simp only: mctsRound_bare if_True)
    from Cons.prems have "children_n ?r = []" "untriedMoves_n ?r = []" "parent_n ?r = None"
      by simp_all
    from Cons.IH [OF this] rd show ?thesis by simp
  next
    case False
    with Cons.prems have "mctsRound sc sel (kss i) pw i [r] = Some (Inl TypeError)"
      by (simp only: mctsRound_bare if_False)
    then show ?thesis by simp
  qed
qed

lemma chooseBestChild_bare: "children_n r = [] \<Longrightarrow> chooseBestChild [r] = Inl TypeError"
  by (simp add: chooseBestChild_def)

lemma prioritizeMoves_Nil: "prioritizeMoves sc g [] = []"
  by (simp add: prioritizeMoves_def)

lemma getMove_random_full: "getValidMoves g = [] \<Longrightarrow> getMove_random smartMode u g = None"
  by (simp add: getMove_random_def)

text \<open>
  Claim C9. On a well-formed board state without an empty cell \<open>RandomAI.getMove\<close> returns
  \<open>null\<close>, while \<open>MCTSAI.getBestMove\<close>, called with a fresh memo table of the bounded
  search, raises a \<open>TypeError\<close>, whatever the number of simulations, the difficulty and
  the side: the opening book, the critical moves and the bounded search find nothing, the
  root of the tree never gets a child, and either \<open>selectChild\<close> reduces an empty array
  (game not over) or \<open>root.children[0].visits\<close> is read after the loop (game over, or
  no simulation).
\<close>

theorem no_move_choice:
  assumes "wf_game g" "getValidMoves g = []"
  shows "getMove_random smartMode u' g = None \<and>
         getBestMove_mcts sc ev sel kss u [] label simulations aiPlayer g = Some (Inl TypeError)"
proof -
  let ?root = "newNode sc g (Some aiPlayer) None None"
  have r: "children_n ?root = []" "untriedMoves_n ?root = []" "parent_n ?root = None"
    by (simp_all add: newNode_def assms(2) prioritizeMoves_Nil)
  have h: "(if shouldUseHeuristicSearch label g
            then fst (getBestMove_search ev [] g aiPlayer (fst (getHeuristicConfig label g))
                        (snd (getHeuristicConfig label g)))
            else None) = None"
    by (simp add: heuristic_full [OF assms(2)])
  from mctsLoop_bare [OF r, of sc sel kss "size_g g > 11" "[0 ..< simulations]"]
  have "(case mctsLoop sc sel kss (size_g g > 11) [0 ..< simulations] [?root] of
           None \<Rightarrow> None
         | Some (Inl e) \<Rightarrow> Some (Inl e)
         | Some (Inr t) \<Rightarrow> Some (chooseBestChild t)) = Some (Inl TypeError)"
    by (auto simp: chooseBestChild_bare)
  then have "getBestMove_mcts sc ev sel kss u [] label simulations aiPlayer g
               = Some (Inl TypeError)"
    unfolding getBestMove_mcts_def Let_def
    by (simp only: getOpeningMove_full [OF assms] findCriticalMove_mcts_full [OF assms(2)] h
          sum.case option.case)
  with getMove_random_full [OF assms(2)] show ?thesis by simp
qed

text \<open>The full 4x4 board \<open>wonGame4\<close>, won by blue, is such a state.\<close>

theorem no_move_choice_witness:
  "wf_game wonGame4 \<and> getValidMoves wonGame4 = [] \<and>
   getMove_random True 0 wonGame4 = None \<and>
   getBestMove_mcts (\<lambda>g m. 0) (\<lambda>g p. 0) (\<lambda>t n. 0) (\<lambda>i. []) 0 [] ''hard'' 1000 PLAYER_BLUE
     wonGame4 = Some (Inl TypeError)"
proof -
  have 1: "wf_game wonGame4" by code_simp
  have 2: "getValidMoves wonGame4 = []" by code_simp
  show ?thesis by (rule conjI [OF 1 conjI [OF 2 no_move_choice [OF 1 2]]])
qed

subsection \<open>RAVE counters after a simulated episode\<close>

lemma otherPlayer_range: "otherPlayer p = PLAYER_RED \<or> otherPlayer p = PLAYER_BLUE"
  by (simp add: otherPlayer_def)

lemma otherPlayer_invol:
  "p = PLAYER_RED \<or> p = PLAYER_BLUE \<Longrightarrow> otherPlayer (otherPlayer p) = p"
  by (auto simp: otherPlayer_def PLAYER_RED_def PLAYER_BLUE_def)

lemma otherPlayer_swap:
  assumes "X = PLAYER_RED \<or> X = PLAYER_BLUE" "s = PLAYER_RED \<or> s = PLAYER_BLUE"
  shows "X = otherPlayer s \<longleftrightarrow> otherPlayer X = s"
  using assms by (auto simp: otherPlayer_def PLAYER_RED_def PLAYER_BLUE_def)

lemma recorded_Nil: "recorded [] []"
  by (simp add: recorded_def)

lemma recorded_Cons:
  assumes r: "recorded played tags" and s: "snd e = PLAYER_RED \<or> snd e = PLAYER_BLUE"
    and f: "fst t = fst e" and o: "played \<noteq> [] \<Longrightarrow> snd t = otherPlayer (snd e)"
  shows "recorded (e # played) (t # tags)"
  unfolding recorded_def
proof (intro conjI allI impI)
  show "(t # tags = []) = (e # played = [])" by simp
next
  fix m X
  assume X: "X = PLAYER_RED \<or> X = PLAYER_BLUE" and m: "e # played = [] \<or> m \<noteq> fst (last (e # played))"
  show "(m, X) \<in> set (t # tags) \<longleftrightarrow> (m, otherPlayer X) \<in> set (e # played)"
  proof (cases "played = []")
    case True
    with r have "tags = []" by (simp add: recorded_def)
    with True m f show ?thesis by (cases t; cases e) auto
  next
    case False
    with m have "m \<noteq> fst (last played)" by simp
    with r X have tl: "(m, X) \<in> set tags \<longleftrightarrow> (m, otherPlayer X) \<in> set played"
      unfolding recorded_def by blast
    from o [OF False] f have t: "t = (fst e, otherPlayer (snd e))" by (cases t) simp
    have "(m, X) = t \<longleftrightarrow> (m, otherPlayer X) = e"
      unfolding t using otherPlayer_swap [OF X s] by (cases e) auto
    with tl show ?thesis by auto
  qed
qed

lemma getValidMoves_valid:
  assumes "m \<in> set (getValidMoves g)" "size_g g \<noteq> 7 \<or> moveCount g \<noteq> 0"
  shows "isValidMove g (fst m) (snd m)"
proof -
  from assms(1) obtain r c where m: "m = (int r, int c)"
    unfolding getValidMoves_def set_concat set_map by auto
  from assms(1) have "r < size_g g \<and> c < size_g g \<and> board g ! r ! c = EMPTY"
    unfolding m in_getValidMoves .
  with assms(2) show ?thesis unfolding m by (auto simp: isValidMove_def cellAt_def)
qed

lemma makeMove_turn:
  assumes "isValidMove g r c" "\<not> gameOver g"
  shows "size_g (snd (makeMove g r c)) = size_g g"
    and "moveCount (snd (makeMove g r c)) = Suc (moveCount g)"
    and "\<not> gameOver (snd (makeMove g r c)) \<Longrightarrow>
           currentPlayer (snd (makeMove g r c)) = otherPlayer (currentPlayer g)"
    and "currentPlayer (snd (makeMove g r c)) = currentPlayer g \<or>
         currentPlayer (snd (makeMove g r c)) = otherPlayer (currentPlayer g)"
  using assms by (auto simp add: makeMove_def Let_def)

lemma findSimulationCriticalMove_mem:
  "findSimulationCriticalMove g = Some m \<Longrightarrow> m \<in> set (getValidMoves g)"
  by (auto simp: findSimulationCriticalMove_def Let_def find_Some_iff split: option.splits)

lemma simulatedSequence_stop:
  "gameOver g \<or> getValidMoves g = [] \<Longrightarrow> simulatedSequence ks g pl = Some pl"
  by (subst simulatedSequence.simps) auto

lemma simulateLoop_recorded:
  assumes "simulateLoop ks g pms0 = Some y"
  shows "(size_g g \<noteq> 7 \<or> moveCount g \<noteq> 0) \<longrightarrow>
         (currentPlayer g = PLAYER_RED \<or> currentPlayer g = PLAYER_BLUE) \<longrightarrow>
         (\<forall>pl0. \<exists>played tags. simulatedSequence ks g pl0 = Some (pl0 @ played) \<and>
                   snd y = pms0 @ tags \<and> recorded played tags)"
proof (rule simulateLoop.raw_induct
    [where P = "\<lambda>ks g pms0 y. (size_g g \<noteq> 7 \<or> moveCount g \<noteq> 0) \<longrightarrow>
         (currentPlayer g = PLAYER_RED \<or> currentPlayer g = PLAYER_BLUE) \<longrightarrow>
         (\<forall>pl0. \<exists>played tags. simulatedSequence ks g pl0 = Some (pl0 @ played) \<and>
                   snd y = pms0 @ tags \<and> recorded played tags)", OF _ assms], goal_cases)
  case (1 f ks g pms0 y)
  note IH = 1(1) and body = 1(2)
  show ?case
  proof (intro impI allI)
    fix pl0
    assume ok: "size_g g \<noteq> 7 \<or> moveCount g \<noteq> 0"
      and cp: "currentPlayer g = PLAYER_RED \<or> currentPlayer g = PLAYER_BLUE"
    show "\<exists>played tags. simulatedSequence ks g pl0 = Some (pl0 @ played) \<and>
                   snd y = pms0 @ tags \<and> recorded played tags"
    proof (cases "gameOver g \<or> getValidMoves g = []")
      case True
      have "y = (g, pms0)"
      proof (cases "gameOver g")
        case True
        with body show ?thesis by simp
      next
        case False
        with \<open>gameOver g \<or> getValidMoves g = []\<close> have "getValidMoves g = []" by simp
        with body False show ?thesis by (simp add: Let_def)
      qed
      then have "snd y = pms0 @ []" by simp
      moreover from simulatedSequence_stop [OF True] have "simulatedSequence ks g pl0 = Some (pl0 @ [])"
        by simp
      ultimately show ?thesis using recorded_Nil by blast
    next
      case False
      let ?g' = "\<lambda>m. snd (makeMove g (fst m) (snd m))"
      have "\<exists>m ks1. m \<in> set (getValidMoves g) \<and>
              f ks1 (?g' m) (pms0 @ [(m, currentPlayer (?g' m))]) = Some y \<and>
              simulatedSequence ks g pl0
                = simulatedSequence ks1 (?g' m) (pl0 @ [(m, currentPlayer g)])"
      proof (cases "findSimulationCriticalMove g")
        case (Some m)
        with body False have "f ks (?g' m) (pms0 @ [(m, currentPlayer (?g' m))]) = Some y"
          by (simp add: Let_def)
        moreover from Some False have "simulatedSequence ks g pl0
                = simulatedSequence ks (?g' m) (pl0 @ [(m, currentPlayer g)])"
          by (subst simulatedSequence.simps) (simp add: Let_def)
        ultimately show ?thesis using findSimulationCriticalMove_mem [OF Some] by blast
      next
        case None
        with body False obtain k ks' where ks: "ks = k # ks'" "k < length (getValidMoves g)"
          by (auto simp: Let_def split: list.splits if_splits)
        let ?m = "getValidMoves g ! k"
        from body False None ks
        have "f ks' (?g' ?m) (pms0 @ [(?m, currentPlayer (?g' ?m))]) = Some y"
          by (simp add: Let_def)
        moreover from None False ks have "simulatedSequence ks g pl0
                = simulatedSequence ks' (?g' ?m) (pl0 @ [(?m, currentPlayer g)])"
          by (subst simulatedSequence.simps) (simp add: Let_def)
        moreover from ks(2) have "?m \<in> set (getValidMoves g)" by simp
        ultimately show ?thesis by blast
      qed
      then obtain m ks1 where m: "m \<in> set (getValidMoves g)"
        and rec: "f ks1 (?g' m) (pms0 @ [(m, currentPlayer (?g' m))]) = Some y"
        and seq: "simulatedSequence ks g pl0
                = simulatedSequence ks1 (?g' m) (pl0 @ [(m, currentPlayer g)])" by blast
      from getValidMoves_valid [OF m ok] have v: "isValidMove g (fst m) (snd m)" .
      from False have no: "\<not> gameOver g" by simp
      note mt = makeMove_turn [OF v no]
      from mt(1,2) have ok': "size_g (?g' m) \<noteq> 7 \<or> moveCount (?g' m) \<noteq> 0" by simp
      from mt(4) cp otherPlayer_range [of "currentPlayer g"]
      have cp': "currentPlayer (?g' m) = PLAYER_RED \<or> currentPlayer (?g' m) = PLAYER_BLUE"
        by auto
      from IH [OF rec] ok' cp' obtain played tags where
        p: "simulatedSequence ks1 (?g' m) (pl0 @ [(m, currentPlayer g)])
              = Some ((pl0 @ [(m, currentPlayer g)]) @ played)"
           "snd y = (pms0 @ [(m, currentPlayer (?g' m))]) @ tags" "recorded played tags"
        by blast
      have "currentPlayer (?g' m) = otherPlayer (currentPlayer g)" if "played \<noteq> []"
      proof (rule mt(3), rule notI)
        assume "gameOver (?g' m)"
        then have "simulatedSequence ks1 (?g' m) (pl0 @ [(m, currentPlayer g)])
                     = Some (pl0 @ [(m, currentPlayer g)])"
          by (intro simulatedSequence_stop) simp
        with p(1) that show False by simp
      qed
      with recorded_Cons [OF p(3), of "(m, currentPlayer g)" "(m, currentPlayer (?g' m))"] cp
      have "recorded ((m, currentPlayer g) # played) ((m, currentPlayer (?g' m)) # tags)"
        by simp
      moreover from seq p(1) have "simulatedSequence ks g pl0
          = Some (pl0 @ ((m, currentPlayer g) # played))" by simp
      moreover from p(2) have "snd y = pms0 @ ((m, currentPlayer (?g' m)) # tags)" by simp
      ultimately show ?thesis by blast
    qed
  qed
qed

lemma raveMatch_iff:
  "move_n c = Some m \<Longrightarrow>
   raveMatch this c pms \<longleftrightarrow> (m, currentPlayer (game_n this)) \<in> set pms"
  by (force simp: raveMatch_def list_ex_iff prod_eq_iff)

lemma simulate_recorded:
  assumes sim: "simulate ks nd = Some (w, pms)"
    and start: "size_g (game_n nd) \<noteq> 7 \<or> moveCount (game_n nd) \<noteq> 0"
    and turn: "currentPlayer (game_n nd) = PLAYER_RED \<or> currentPlayer (game_n nd) = PLAYER_BLUE"
  shows "\<exists>played. simulatedSequence ks (game_n nd) [] = Some played \<and> recorded played pms"
proof -
  from sim obtain gf where "simulateLoop ks (game_n nd) [] = Some (gf, pms)"
    by (auto simp: simulate_def split: option.splits)
  from simulateLoop_recorded [OF this] start turn show ?thesis by fastforce
qed

text \<open>
  Claim C6, as amended. Let the tree be well formed, let the episode simulated from node
  \<open>n\<close> return (the first-move rule of the 7x7 board not applying at \<open>n\<close>), and let the
  turn alternate between every node on the path from \<open>n\<close> to the root and its parent.
  Then backpropagation returns, and for every node \<open>a\<close> on this path with parent \<open>p\<close>, every
  child \<open>c\<close> of \<open>p\<close> whose move is not the last move of the episode receives a RAVE visit
  increment exactly when its move was played in the simulated sequence by the side to
  move at \<open>p\<close>, the side that makes the move of \<open>c\<close>, and a RAVE win increment exactly
  when, additionally, the winner of the episode is \<open>aiPlayer\<close>. The RAVE counters of
  all nodes that are not such children are unchanged. The simulated sequence is
  \<open>simulatedSequence\<close>, the moves with the side that played each of them; nothing is said
  about a child whose move is the last move of the episode.
\<close>

theorem backpropagate_rave:
  assumes wf: "wf_tree t" and n: "n < length t"
    and sim: "simulate ks (t ! n) = Some (w, pms)"
    and start: "size_g (game_n (t ! n)) \<noteq> 7 \<or> moveCount (game_n (t ! n)) \<noteq> 0"
    and turn: "currentPlayer (game_n (t ! n)) = PLAYER_RED \<or>
               currentPlayer (game_n (t ! n)) = PLAYER_BLUE"
    and alt: "\<not> gameOver (game_n (t ! n)) \<Longrightarrow>
              \<forall>a p. onPath (map parent_n t) n a \<longrightarrow> parent_n (t ! a) = Some p \<longrightarrow>
                (currentPlayer (game_n (t ! p)) = PLAYER_RED \<or>
                 currentPlayer (game_n (t ! p)) = PLAYER_BLUE) \<and>
                currentPlayer (game_n (t ! a)) = otherPlayer (currentPlayer (game_n (t ! p)))"
  shows "\<exists>t' played. backpropagate t n (w, pms) = Some t' \<and>
     simulatedSequence ks (game_n (t ! n)) [] = Some played \<and>
     (\<forall>a p c m. onPath (map parent_n t) n a \<longrightarrow> parent_n (t ! a) = Some p \<longrightarrow>
        c \<in> set (children_n (t ! p)) \<longrightarrow> move_n (t ! c) = Some m \<longrightarrow>
        (played = [] \<or> m \<noteq> fst (last played)) \<longrightarrow>
          raveVisits_n (t' ! c)
            = raveVisits_n (t ! c)
              + (if (m, currentPlayer (game_n (t ! p))) \<in> set played then 1 else 0) \<and>
          raveWins_n (t' ! c)
            = raveWins_n (t ! c)
              + (if (m, currentPlayer (game_n (t ! p))) \<in> set played \<and> w = aiPlayer_n (t ! a)
                 then 1 else 0)) \<and>
     (\<forall>c < length t.
        (\<forall>a p. onPath (map parent_n t) n a \<longrightarrow> parent_n (t ! a) = Some p \<longrightarrow>
           c \<notin> set (children_n (t ! p))) \<longrightarrow>
          raveVisits_n (t' ! c) = raveVisits_n (t ! c) \<and>
          raveWins_n (t' ! c) = raveWins_n (t ! c))"
proof -
  from backpropagate_main [OF wf n, of w pms] obtain t' where
    bp: "backpropagate t n (w, pms) = Some t'" and rs: "raveSpec t n w pms t'" by blast
  from simulate_recorded [OF sim start turn] obtain played where
    seq: "simulatedSequence ks (game_n (t ! n)) [] = Some played" and rec: "recorded played pms"
    by blast
  have match: "raveMatch (t ! a) (t ! c) pms \<longleftrightarrow> (m, currentPlayer (game_n (t ! p))) \<in> set played"
    if a: "onPath (map parent_n t) n a" "parent_n (t ! a) = Some p"
      and m: "move_n (t ! c) = Some m" "played = [] \<or> m \<noteq> fst (last played)" for a p c m
  proof (cases "played = []")
    case True
    with rec have "pms = []" by (simp add: recorded_def)
    with True show ?thesis by (simp add: raveMatch_def)
  next
    case False
    have "\<not> gameOver (game_n (t ! n))"
    proof
      assume "gameOver (game_n (t ! n))"
      then have "simulatedSequence ks (game_n (t ! n)) [] = Some []"
        by (intro simulatedSequence_stop) simp
      with seq False show False by simp
    qed
    from alt [OF this] a
    have p: "currentPlayer (game_n (t ! p)) = PLAYER_RED \<or>
             currentPlayer (game_n (t ! p)) = PLAYER_BLUE"
      and ap: "currentPlayer (game_n (t ! a)) = otherPlayer (currentPlayer (game_n (t ! p)))"
      by blast+
    from rec m(2) otherPlayer_range [of "currentPlayer (game_n (t ! p))"]
    have "(m, otherPlayer (currentPlayer (game_n (t ! p)))) \<in> set pms
            \<longleftrightarrow> (m, otherPlayer (otherPlayer (currentPlayer (game_n (t ! p))))) \<in> set played"
      unfolding recorded_def by blast
    then show ?thesis unfolding raveMatch_iff [OF m(1)] ap otherPlayer_invol [OF p] .
  qed
  from rs have A: "\<And>a p c. onPath (map parent_n t) n a \<Longrightarrow> parent_n (t ! a) = Some p \<Longrightarrow>
        c \<in> set (children_n (t ! p)) \<Longrightarrow>
          raveVisits_n (t' ! c)
            = raveVisits_n (t ! c) + (if raveMatch (t ! a) (t ! c) pms then 1 else 0) \<and>
          raveWins_n (t' ! c)
            = raveWins_n (t ! c)
              + (if raveMatch (t ! a) (t ! c) pms \<and> w = aiPlayer_n (t ! a) then 1 else 0)"
    and B: "\<forall>c < length t.
        (\<forall>a p. onPath (map parent_n t) n a \<longrightarrow> parent_n (t ! a) = Some p \<longrightarrow>
           c \<notin> set (children_n (t ! p))) \<longrightarrow>
          raveVisits_n (t' ! c) = raveVisits_n (t ! c) \<and>
          raveWins_n (t' ! c) = raveWins_n (t ! c)"
    unfolding raveSpec_def by blast+
  have C: "\<forall>a p c m. onPath (map parent_n t) n a \<longrightarrow> parent_n (t ! a) = Some p \<longrightarrow>
        c \<in> set (children_n (t ! p)) \<longrightarrow> move_n (t ! c) = Some m \<longrightarrow>
        (played = [] \<or> m \<noteq> fst (last played)) \<longrightarrow>
          raveVisits_n (t' ! c)
            = raveVisits_n (t ! c)
              + (if (m, currentPlayer (game_n (t ! p))) \<in> set played then 1 else 0) \<and>
          raveWins_n (t' ! c)
            = raveWins_n (t ! c)
              + (if (m, currentPlayer (game_n (t ! p))) \<in> set played \<and> w = aiPlayer_n (t ! a)
                 then 1 else 0)"
  proof (intro allI impI)
    fix a p c m
    assume h: "onPath (map parent_n t) n a" "parent_n (t ! a) = Some p"
      "c \<in> set (children_n (t ! p))" "move_n (t ! c) = Some m"
      "played = [] \<or> m \<noteq> fst (last played)"
    from A [OF h(1,2,3)] show "raveVisits_n (t' ! c)
            = raveVisits_n (t ! c)
              + (if (m, currentPlayer (game_n (t ! p))) \<in> set played then 1 else 0) \<and>
          raveWins_n (t' ! c)
            = raveWins_n (t ! c)
              + (if (m, currentPlayer (game_n (t ! p))) \<in> set played \<and> w = aiPlayer_n (t ! a)
                 then 1 else 0)"
      unfolding match [OF h(1,2,4,5)] .
  qed
  from bp seq C B show ?thesis by blast
qed

lemma raveTree_links:
  "length raveTree = 5"
  "parent_n (raveTree ! 0) = None" "children_n (raveTree ! 0) = [1]"
  "parent_n (raveTree ! 1) = Some 0" "children_n (raveTree ! 1) = [2, 3, 4]"
  "parent_n (raveTree ! 2) = Some 1" "children_n (raveTree ! 2) = []"
  "parent_n (raveTree ! 3) = Some 1" "children_n (raveTree ! 3) = []"
  "parent_n (raveTree ! 4) = Some 1" "children_n (raveTree ! 4) = []"
  by (simp_all add: raveTree_def)

lemma wf_raveTree: "wf_tree raveTree"
  unfolding wf_tree_def
proof (intro allI impI)
  fix i assume "i < length raveTree"
  then have "i = 0 \<or> i = 1 \<or> i = 2 \<or> i = 3 \<or> i = 4" by (auto simp: raveTree_links(1))
  then show "(\<forall>p. parent_n (raveTree ! i) = Some p \<longrightarrow> p < i) \<and>
        distinct (children_n (raveTree ! i)) \<and>
        (\<forall>c \<in> set (children_n (raveTree ! i)).
            c < length raveTree \<and> parent_n (raveTree ! c) = Some i)"
    by (elim disjE) (simp_all add: raveTree_links raveTree_links [unfolded One_nat_def])
qed

lemma onPath_raveTree:
  assumes "onPath (map parent_n raveTree) 2 a"
  shows "a = 2 \<or> a = 1 \<or> a = 0"
proof -
  have ps: "map parent_n raveTree ! 2 = Some 1" "map parent_n raveTree ! 1 = Some 0"
    "map parent_n raveTree ! 0 = None"
    by (simp_all add: raveTree_links raveTree_links [unfolded One_nat_def])
  from onPath_cases_first [OF assms] ps(1) have "a = 2 \<or> onPath (map parent_n raveTree) 1 a"
    by auto
  moreover have "a = 1 \<or> a = 0" if "onPath (map parent_n raveTree) 1 a"
  proof -
    from onPath_cases_first [OF that] ps(2) have "a = 1 \<or> onPath (map parent_n raveTree) 0 a"
      by auto
    moreover have "a = 0" if "onPath (map parent_n raveTree) 0 a"
      using onPath_cases_first [OF that] ps(3) by auto
    ultimately show ?thesis by blast
  qed
  ultimately show ?thesis by blast
qed

lemma simulate_raveTree:
  "simulate [0] (raveTree ! 2)
     = Some (Some PLAYER_RED, [((0, 1), PLAYER_BLUE), ((2, 0), PLAYER_RED), ((2, 1), PLAYER_RED)])"
  by code_simp

lemma simulatedSequence_raveTree:
  "simulatedSequence [0] (game_n (raveTree ! 2)) []
     = Some [((0, 1), PLAYER_RED), ((2, 0), PLAYER_BLUE), ((2, 1), PLAYER_RED)]"
  by code_simp

text \<open>
  The episode simulated from node 2 of \<open>raveTree\<close> is \<open>(0,1)\<close> by red, \<open>(2,0)\<close> by blue and
  \<open>(2,1)\<close> by red, who wins. Of the children of node 1, where blue is to move, node 3
  (move \<open>(2,0)\<close>, played by blue) is credited; node 2 (move \<open>(0,0)\<close>, not played) and
  node 4 (move \<open>(0,1)\<close>, played by red only) are not.
\<close>

theorem backpropagate_rave_witness:
  "wf_tree raveTree \<and>
   simulate [0] (raveTree ! 2)
     = Some (Some PLAYER_RED, [((0, 1), PLAYER_BLUE), ((2, 0), PLAYER_RED), ((2, 1), PLAYER_RED)]) \<and>
   simulatedSequence [0] (game_n (raveTree ! 2)) []
     = Some [((0, 1), PLAYER_RED), ((2, 0), PLAYER_BLUE), ((2, 1), PLAYER_RED)] \<and>
   currentPlayer (game_n (raveTree ! 1)) = PLAYER_BLUE \<and>
   move_n (raveTree ! 2) = Some (0, 0) \<and> move_n (raveTree ! 3) = Some (2, 0) \<and>
   move_n (raveTree ! 4) = Some (0, 1) \<and>
   (\<exists>t'. backpropagate raveTree 2
            (Some PLAYER_RED, [((0, 1), PLAYER_BLUE), ((2, 0), PLAYER_RED), ((2, 1), PLAYER_RED)])
          = Some t' \<and>
         raveVisits_n (t' ! 2) = 0 \<and> raveWins_n (t' ! 2) = 0 \<and>
         raveVisits_n (t' ! 3) = 1 \<and> raveWins_n (t' ! 3) = 1 \<and>
         raveVisits_n (t' ! 4) = 0 \<and> raveWins_n (t' ! 4) = 0)"
proof -
  let ?pms = "[((0, 1), PLAYER_BLUE), ((2, 0), PLAYER_RED), ((2, 1), PLAYER_RED)] :: (cell \<times> nat) list"
  let ?played = "[((0, 1), PLAYER_RED), ((2, 0), PLAYER_BLUE), ((2, 1), PLAYER_RED)] :: (cell \<times> nat) list"
  have len: "2 < length raveTree" by (simp add: raveTree_links)
  have start: "size_g (game_n (raveTree ! 2)) \<noteq> 7 \<or> moveCount (game_n (raveTree ! 2)) \<noteq> 0"
    by code_simp
  have turn: "currentPlayer (game_n (raveTree ! 2)) = PLAYER_RED \<or>
              currentPlayer (game_n (raveTree ! 2)) = PLAYER_BLUE" by code_simp
  have cp: "currentPlayer (game_n (raveTree ! 0)) = PLAYER_RED"
    "currentPlayer (game_n (raveTree ! 1)) = PLAYER_BLUE"
    "currentPlayer (game_n (raveTree ! 2)) = PLAYER_RED" by code_simp+
  have alt: "\<forall>a p. onPath (map parent_n raveTree) 2 a \<longrightarrow> parent_n (raveTree ! a) = Some p \<longrightarrow>
                (currentPlayer (game_n (raveTree ! p)) = PLAYER_RED \<or>
                 currentPlayer (game_n (raveTree ! p)) = PLAYER_BLUE) \<and>
                currentPlayer (game_n (raveTree ! a))
                  = otherPlayer (currentPlayer (game_n (raveTree ! p)))"
  proof (intro allI impI)
    fix a p assume "onPath (map parent_n raveTree) 2 a" "parent_n (raveTree ! a) = Some p"
    with onPath_raveTree [of a] have "(a = 2 \<and> p = 1) \<or> (a = 1 \<and> p = 0)"
      by (auto simp: raveTree_links raveTree_links [unfolded One_nat_def])
    then show "(currentPlayer (game_n (raveTree ! p)) = PLAYER_RED \<or>
                 currentPlayer (game_n (raveTree ! p)) = PLAYER_BLUE) \<and>
                currentPlayer (game_n (raveTree ! a))
                  = otherPlayer (currentPlayer (game_n (raveTree ! p)))"
      using cp by (auto simp: otherPlayer_def PLAYER_RED_def PLAYER_BLUE_def)
  qed
  from backpropagate_rave [OF wf_raveTree len simulate_raveTree start turn alt]
  obtain t' played where
    bp: "backpropagate raveTree 2 (Some PLAYER_RED, ?pms) = Some t'"
    and seq: "simulatedSequence [0] (game_n (raveTree ! 2)) [] = Some played"
    and A: "\<And>a p c m. onPath (map parent_n raveTree) 2 a \<Longrightarrow> parent_n (raveTree ! a) = Some p \<Longrightarrow>
        c \<in> set (children_n (raveTree ! p)) \<Longrightarrow> move_n (raveTree ! c) = Some m \<Longrightarrow>
        (played = [] \<or> m \<noteq> fst (last played)) \<Longrightarrow>
          raveVisits_n (t' ! c)
            = raveVisits_n (raveTree ! c)
              + (if (m, currentPlayer (game_n (raveTree ! p))) \<in> set played then 1 else 0) \<and>
          raveWins_n (t' ! c)
            = raveWins_n (raveTree ! c)
              + (if (m, currentPlayer (game_n (raveTree ! p))) \<in> set played \<and>
                    Some PLAYER_RED = aiPlayer_n (raveTree ! a) then 1 else 0)"
    by blast
  from seq simulatedSequence_raveTree have played: "played = ?played" by simp
  have p2: "parent_n (raveTree ! 2) = Some 1" by (simp add: raveTree_links)
  have ch: "2 \<in> set (children_n (raveTree ! 1))" "3 \<in> set (children_n (raveTree ! 1))"
    "4 \<in> set (children_n (raveTree ! 1))"
    by (simp_all add: raveTree_links [unfolded One_nat_def])
  have mv: "move_n (raveTree ! 2) = Some (0, 0)" "move_n (raveTree ! 3) = Some (2, 0)"
    "move_n (raveTree ! 4) = Some (0, 1)" by code_simp+
  have ai: "aiPlayer_n (raveTree ! 2) = Some PLAYER_RED" by code_simp
  have r: "raveVisits_n (raveTree ! 2) = 0" "raveWins_n (raveTree ! 2) = 0"
    "raveVisits_n (raveTree ! 3) = 0" "raveWins_n (raveTree ! 3) = 0"
    "raveVisits_n (raveTree ! 4) = 0" "raveWins_n (raveTree ! 4) = 0"
    by code_simp+
  have nl: "played = [] \<or> (0, 0) \<noteq> fst (last played)" "played = [] \<or> (2, 0) \<noteq> fst (last played)"
    "played = [] \<or> (0, 1) \<noteq> fst (last played)"
    unfolding played by simp_all
  from A [OF onPath.self p2 ch(1) mv(1) nl(1)] A [OF onPath.self p2 ch(2) mv(2) nl(2)]
    A [OF onPath.self p2 ch(3) mv(3) nl(3)] ai r cp(2)
  have "raveVisits_n (t' ! 2) = 0 \<and> raveWins_n (t' ! 2) = 0 \<and>
         raveVisits_n (t' ! 3) = 1 \<and> raveWins_n (t' ! 3) = 1 \<and>
         raveVisits_n (t' ! 4) = 0 \<and> raveWins_n (t' ! 4) = 0"
    unfolding played by (simp add: PLAYER_RED_def PLAYER_BLUE_def)
  with bp wf_raveTree simulate_raveTree simulatedSequence_raveTree cp(2) mv show ?thesis by blast
qed

text \<open>
  Claim C6, as stated, fails. In \<open>raveTree\<close> the search is for red; node 3 is a child of
  node 1, where blue is to move, and its move is \<open>(2,0)\<close>. The episode simulated from its
  sibling, node 2, is \<open>(0,1)\<close> by red, \<open>(2,0)\<close> by blue, \<open>(2,1)\<close> by red, and red wins.
  Blue, the side that makes the move of node 3, played it and lost, yet the RAVE win
  counter of node 3 goes from 0 to 1 together with its RAVE visit counter.
\<close>

theorem rave_win_counterexample:
  "simulate [0] (raveTree ! 2)
     = Some (Some PLAYER_RED, [((0, 1), PLAYER_BLUE), ((2, 0), PLAYER_RED), ((2, 1), PLAYER_RED)]) \<and>
   simulatedSequence [0] (game_n (raveTree ! 2)) []
     = Some [((0, 1), PLAYER_RED), ((2, 0), PLAYER_BLUE), ((2, 1), PLAYER_RED)] \<and>
   parent_n (raveTree ! 2) = Some 1 \<and> children_n (raveTree ! 1) = [2, 3, 4] \<and>
   move_n (raveTree ! 3) = Some (2, 0) \<and>
   currentPlayer (game_n (raveTree ! 1)) = PLAYER_BLUE \<and>
   backpropagate raveTree 2
       (Some PLAYER_RED, [((0, 1), PLAYER_BLUE), ((2, 0), PLAYER_RED), ((2, 1), PLAYER_RED)])
     = Some raveTreeAfter \<and>
   raveVisits_n (raveTree ! 3) = 0 \<and> raveVisits_n (raveTreeAfter ! 3) = 1 \<and>
   raveWins_n (raveTree ! 3) = 0 \<and> raveWins_n (raveTreeAfter ! 3) = 1"
  by code_simp

subsection \<open>Connectivity tracker against the reference win check\<close>

lemma int16_id: "0 \<le> x \<Longrightarrow> x < 32768 \<Longrightarrow> int16 x = x"
  by (simp add: int16_def)

lemma pathTo_range: "pathTo par i k r \<Longrightarrow> 0 \<le> i \<and> i < int (length par)"
  by (induction rule: pathTo.induct) simp_all

lemma pathTo_root: "pathTo par i k r \<Longrightarrow> 0 \<le> r \<and> r < int (length par) \<and> par ! nat r = r"
  by (induction rule: pathTo.induct) simp_all

lemma pathTo_findRoot: "pathTo par i k r \<Longrightarrow> findRoot par i = Some r"
proof (induction rule: pathTo.induct)
  case (root r)
  then show ?case by (subst findRoot.simps) simp
next
  case (step i k r)
  then show ?case by (subst findRoot.simps) simp
qed

lemma pathTo_self: "pathTo par i k r \<Longrightarrow> pathTo par r 0 r"
  using pathTo_root [of par i k r] by (simp add: pathTo.root)

lemma pathTo_zero: "pathTo par i 0 r \<Longrightarrow> i = r"
  by (erule pathTo.cases) simp_all

lemma pathTo_Suc:
  "pathTo par i (Suc k) r \<Longrightarrow> par ! nat i \<noteq> i \<and> pathTo par (par ! nat i) k r"
  by (erule pathTo.cases) simp_all

lemma pathTo_ne: "pathTo par i k r \<Longrightarrow> i \<noteq> r \<Longrightarrow> \<exists>k'. k = Suc k'"
  by (erule pathTo.cases) simp_all

lemma pathTo_det: "pathTo par i k r \<Longrightarrow> pathTo par i k' r' \<Longrightarrow> r = r'"
  using pathTo_findRoot [of par i k r] pathTo_findRoot [of par i k' r'] by simp

text \<open>Redirecting a node to its own root keeps every root and lengthens no path.\<close>

lemma pathTo_compress_step:
  assumes c: "pathTo par cur kc r" and ne: "cur \<noteq> r" and len: "length par \<le> 32768"
    and p: "pathTo par j m rj"
  shows "\<exists>m'. m' \<le> m \<and> pathTo (par[nat cur := int16 r]) j m' rj"
proof -
  from pathTo_root [OF c] len have r: "0 \<le> r" "r < int (length par)" "par ! nat r = r" "int16 r = r"
    by (simp_all add: int16_id)
  from pathTo_range [OF c] have cr: "0 \<le> cur" "cur < int (length par)" by simp_all
  have upd: "par[nat cur := int16 r] ! nat x = par ! nat x" if "0 \<le> x" "x \<noteq> cur" for x
  proof -
    from that cr have "nat x \<noteq> nat cur" by simp
    then show ?thesis by (simp add: nth_list_update)
  qed
  show ?thesis using p
proof (induction rule: pathTo.induct)
  case (root rj)
  have "rj \<noteq> cur"
  proof
    assume "rj = cur"
    with root have "pathTo par cur 0 cur" by (simp add: pathTo.root)
    from pathTo_det [OF this c] ne show False by simp
  qed
  with root have "pathTo (par[nat cur := int16 r]) rj 0 rj"
    by (intro pathTo.root) (simp_all add: upd)
  then show ?case by blast
next
  case (step j m rj)
  show ?case
  proof (cases "j = cur")
    case True
    from step.hyps have "pathTo par j (Suc m) rj" by (intro pathTo.step)
    with True c have rj: "rj = r" using pathTo_det by blast
    from r ne cr have "pathTo (par[nat cur := int16 r]) r 0 r"
      by (intro pathTo.root) (simp_all add: upd)
    with r ne cr have "pathTo (par[nat cur := int16 r]) cur (Suc 0) r"
      by (intro pathTo.step) simp_all
    with True rj show ?thesis by auto
  next
    case False
    from step.IH obtain m' where m': "m' \<le> m" "pathTo (par[nat cur := int16 r]) (par ! nat j) m' rj"
      by blast
    from False step.hyps have "par[nat cur := int16 r] ! nat j = par ! nat j"
      by (simp add: upd)
    with step.hyps m' have "pathTo (par[nat cur := int16 r]) j (Suc m') rj"
      by (intro pathTo.step) simp_all
    with m' show ?thesis by auto
  qed
qed
qed

text \<open>The compression loop ends, keeps the length of the table and every root.\<close>

lemma compress_ok:
  assumes "pathTo par cur k r" "length par \<le> 32768"
  shows "\<exists>par'. compress par r cur = Some par' \<and> length par' = length par \<and>
           (\<forall>j m rj. pathTo par j m rj \<longrightarrow> (\<exists>m'. pathTo par' j m' rj))"
  using assms
proof (induction k arbitrary: par cur rule: less_induct)
  case (less k)
  show ?case
  proof (cases "cur = r")
    case True
    then have "compress par r cur = Some par" by (subst compress.simps) simp
    then show ?thesis by blast
  next
    case False
    from pathTo_ne [OF less.prems(1) False] obtain k0 where k: "k = Suc k0" by blast
    let ?par = "par[nat cur := int16 r]"
    from pathTo_Suc [OF less.prems(1) [unfolded k]]
    have nx: "pathTo par (par ! nat cur) k0 r" by simp
    from pathTo_compress_step [OF less.prems(1) False less.prems(2) nx]
    obtain k1 where k1: "k1 \<le> k0" "pathTo ?par (par ! nat cur) k1 r" by blast
    from k1(1) k have "k1 < k" by simp
    from less.IH [OF this k1(2)] less.prems(2)
    obtain par' where p': "compress ?par r (par ! nat cur) = Some par'" "length par' = length par"
      "\<forall>j m rj. pathTo ?par j m rj \<longrightarrow> (\<exists>m'. pathTo par' j m' rj)" by auto
    from pathTo_range [OF less.prems(1)] False p'(1)
    have "compress par r cur = Some par'" by (subst compress.simps) simp
    moreover have "\<forall>j m rj. pathTo par j m rj \<longrightarrow> (\<exists>m'. pathTo par' j m' rj)"
    proof (intro allI impI)
      fix j m rj assume "pathTo par j m rj"
      from pathTo_compress_step [OF less.prems(1) False less.prems(2) this] p'(3)
      show "\<exists>m'. pathTo par' j m' rj" by blast
    qed
    ultimately show ?thesis using p'(2) by blast
  qed
qed

lemma uf_inv_pathTo: "uf_inv par \<Longrightarrow> i < length par \<Longrightarrow> \<exists>k r. pathTo par (int i) k r"
  by (simp add: uf_inv_def)

lemma uf_inv_len: "uf_inv par \<Longrightarrow> length par \<le> 32768"
  by (simp add: uf_inv_def)

lemma findRoot_pathTo:
  assumes "uf_inv par" "i < length par" "findRoot par (int i) = Some r"
  shows "\<exists>k. pathTo par (int i) k r"
proof -
  from uf_inv_pathTo [OF assms(1,2)] obtain k r' where p: "pathTo par (int i) k r'" by blast
  from pathTo_findRoot [OF this] assms(3) have "r' = r" by simp
  with p show ?thesis by blast
qed

lemma findRoot_some:
  assumes "uf_inv par" "i < length par"
  shows "\<exists>r. findRoot par (int i) = Some r"
  using uf_inv_pathTo [OF assms] pathTo_findRoot by blast

lemma root_facts:
  assumes "uf_inv par" "i < length par" "findRoot par (int i) = Some r"
  shows "0 \<le> r" "nat r < length par" "par ! nat r = r" "findRoot par r = Some r"
    "findRoot par (int (nat r)) = Some r"
proof -
  from findRoot_pathTo [OF assms] obtain k where p: "pathTo par (int i) k r" by blast
  from pathTo_root [OF p] show "0 \<le> r" "par ! nat r = r" by simp_all
  from pathTo_root [OF p] show "nat r < length par" by linarith
  from pathTo_findRoot [OF pathTo_self [OF p]] show "findRoot par r = Some r" .
  with \<open>0 \<le> r\<close> show "findRoot par (int (nat r)) = Some r" by simp
qed

text \<open>A table with the same length whose paths end at the same roots.\<close>

lemma same_roots:
  assumes inv: "uf_inv par" and len: "length par' = length par"
    and pres: "\<forall>j m rj. pathTo par j m rj \<longrightarrow> (\<exists>m'. pathTo par' j m' rj)"
  shows "uf_inv par'" "\<forall>j < length par. findRoot par' (int j) = findRoot par (int j)"
proof -
  have *: "\<exists>m' rj. pathTo par' (int j) m' rj \<and> findRoot par (int j) = Some rj"
    if "j < length par" for j
  proof -
    from uf_inv_pathTo [OF inv that] obtain k r where p: "pathTo par (int j) k r" by blast
    with pres obtain m' where "pathTo par' (int j) m' r" by blast
    with pathTo_findRoot [OF p] show ?thesis by blast
  qed
  show "uf_inv par'" unfolding uf_inv_def
  proof (intro conjI allI impI)
    from len uf_inv_len [OF inv] show "length par' \<le> 32768" by simp
  next
    fix i assume "i < length par'"
    with len have "i < length par" by simp
    from * [OF this] show "\<exists>k r. pathTo par' (int i) k r" by blast
  qed
  show "\<forall>j < length par. findRoot par' (int j) = findRoot par (int j)"
  proof (intro allI impI)
    fix j assume "j < length par"
    from * [OF this] obtain m' rj where "pathTo par' (int j) m' rj" "findRoot par (int j) = Some rj"
      by blast
    with pathTo_findRoot [of par' "int j" m' rj] show "findRoot par' (int j) = findRoot par (int j)"
      by simp
  qed
qed

lemma find_ok:
  assumes "uf_inv par" "i < length par"
  shows "\<exists>par' r. find par (int i) = Some (par', r) \<and> findRoot par (int i) = Some r \<and>
           uf_inv par' \<and> length par' = length par \<and>
           (\<forall>j < length par. findRoot par' (int j) = findRoot par (int j))"
proof -
  from uf_inv_pathTo [OF assms] obtain k r where p: "pathTo par (int i) k r" by blast
  from compress_ok [OF p uf_inv_len [OF assms(1)]]
  obtain par' where c: "compress par r (int i) = Some par'" "length par' = length par"
    "\<forall>j m rj. pathTo par j m rj \<longrightarrow> (\<exists>m'. pathTo par' j m' rj)" by blast
  from pathTo_findRoot [OF p] c(1) have "find par (int i) = Some (par', r)"
    by (simp add: find_def)
  with same_roots [OF assms(1) c(2,3)] pathTo_findRoot [OF p] c(2) show ?thesis by blast
qed

text \<open>\<open>parent[rootI] = rootJ\<close> for two different roots: the trees of \<open>rootI\<close> hang under
  \<open>rootJ\<close>, all others stay.\<close>

lemma link_pathTo:
  assumes ri: "0 \<le> ri" "ri < int (length par)" "par ! nat ri = ri"
    and rj: "0 \<le> rj" "rj < int (length par)" "par ! nat rj = rj"
    and ne: "ri \<noteq> rj" and len: "length par \<le> 32768"
    and p: "pathTo par j m rt"
  shows "\<exists>m'. pathTo (par[nat ri := int16 rj]) j m' (if rt = ri then rj else rt)"
proof -
  let ?par = "par[nat ri := int16 rj]"
  from rj len have i16: "int16 rj = rj" by (simp add: int16_id)
  have upd: "?par ! nat x = par ! nat x" if "0 \<le> x" "x \<noteq> ri" for x
  proof -
    from that ri have "nat x \<noteq> nat ri" by simp
    then show ?thesis by (simp add: nth_list_update)
  qed
  from ri i16 have at: "?par ! nat ri = rj" by simp
  from rj ne have rjr: "pathTo ?par rj 0 rj" by (intro pathTo.root) (simp_all add: upd)
  show ?thesis using p
  proof (induction rule: pathTo.induct)
    case (root r)
    show ?case
    proof (cases "r = ri")
      case True
      from ri at ne rjr have "pathTo ?par ri (Suc 0) rj" by (intro pathTo.step) simp_all
      with True show ?thesis by auto
    next
      case False
      with root have "pathTo ?par r 0 r" by (intro pathTo.root) (simp_all add: upd)
      with False show ?thesis by auto
    qed
  next
    case (step j k r)
    from step.hyps ri have "j \<noteq> ri" by auto
    with step.hyps have "?par ! nat j = par ! nat j" by (simp add: upd)
    from step.IH obtain m' where "pathTo ?par (par ! nat j) m' (if r = ri then rj else r)" by blast
    with step.hyps \<open>?par ! nat j = par ! nat j\<close>
    have "pathTo ?par j (Suc m') (if r = ri then rj else r)"
      by (intro pathTo.step) simp_all
    then show ?case by blast
  qed
qed

lemma link_ok:
  assumes inv: "uf_inv par"
    and ri: "0 \<le> ri" "ri < int (length par)" "par ! nat ri = ri"
    and rj: "0 \<le> rj" "rj < int (length par)" "par ! nat rj = rj"
    and ne: "ri \<noteq> rj"
  shows "uf_inv (par[nat ri := int16 rj])"
    "\<forall>j < length par. findRoot (par[nat ri := int16 rj]) (int j)
         = (if findRoot par (int j) = Some ri then Some rj else findRoot par (int j))"
proof -
  let ?par = "par[nat ri := int16 rj]"
  have *: "\<exists>m' rt. pathTo ?par (int j) m' (if rt = ri then rj else rt) \<and>
                    findRoot par (int j) = Some rt" if "j < length par" for j
  proof -
    from uf_inv_pathTo [OF inv that] obtain k r where p: "pathTo par (int j) k r" by blast
    from link_pathTo [OF ri rj ne uf_inv_len [OF inv] p] pathTo_findRoot [OF p]
    show ?thesis by blast
  qed
  show "uf_inv ?par" unfolding uf_inv_def
  proof (intro conjI allI impI)
    from uf_inv_len [OF inv] show "length ?par \<le> 32768" by simp
  next
    fix i assume "i < length ?par"
    then have "i < length par" by simp
    from * [OF this] show "\<exists>k r. pathTo ?par (int i) k r" by blast
  qed
  show "\<forall>j < length par. findRoot ?par (int j)
         = (if findRoot par (int j) = Some ri then Some rj else findRoot par (int j))"
  proof (intro allI impI)
    fix j assume "j < length par"
    from * [OF this] obtain m' rt where
      a: "pathTo ?par (int j) m' (if rt = ri then rj else rt)" "findRoot par (int j) = Some rt"
      by blast
    from pathTo_findRoot [OF a(1)] a(2)
    show "findRoot ?par (int j)
            = (if findRoot par (int j) = Some ri then Some rj else findRoot par (int j))"
      by simp
  qed
qed

lemma uf_union_ok:
  assumes inv: "uf_inv par" and a: "a < length par" and b: "b < length par"
  shows "\<exists>par' ra rb. uf_union par (int a) (int b) = Some par' \<and>
           findRoot par (int a) = Some ra \<and> findRoot par (int b) = Some rb \<and>
           uf_inv par' \<and> length par' = length par \<and>
           (\<forall>j < length par. findRoot par' (int j)
              = (if ra \<noteq> rb \<and> findRoot par (int j) = Some ra then Some rb
                 else findRoot par (int j)))"
proof -
  from find_ok [OF inv a] obtain par1 ra where
    1: "find par (int a) = Some (par1, ra)" "findRoot par (int a) = Some ra" "uf_inv par1"
       "length par1 = length par" "\<forall>j < length par. findRoot par1 (int j) = findRoot par (int j)"
    by blast
  from b 1(4) have b1: "b < length par1" by simp
  from find_ok [OF 1(3) b1] obtain par2 rb where
    2: "find par1 (int b) = Some (par2, rb)" "findRoot par1 (int b) = Some rb" "uf_inv par2"
       "length par2 = length par1" "\<forall>j < length par1. findRoot par2 (int j) = findRoot par1 (int j)"
    by blast
  from 1 2 b have rb: "findRoot par (int b) = Some rb" by simp
  have same2: "\<forall>j < length par. findRoot par2 (int j) = findRoot par (int j)"
    using 1(4,5) 2(5) by simp
  show ?thesis
  proof (cases "ra = rb")
    case True
    with 1 2 have "uf_union par (int a) (int b) = Some par2" by (simp add: uf_union_def)
    with True 1 2 rb same2 show ?thesis by auto
  next
    case False
    with 1 2 have u: "uf_union par (int a) (int b) = Some (par2[nat ra := int16 rb])"
      by (simp add: uf_union_def)
    from a b 1(4) 2(4) have a2: "a < length par2" "b < length par2" by simp_all
    from same2 a 1(2) have "findRoot par2 (int a) = Some ra" by simp
    from root_facts [OF 2(3) a2(1) this]
    have ra2: "0 \<le> ra" "ra < int (length par2)" "par2 ! nat ra = ra" by simp_all
    from same2 b rb have "findRoot par2 (int b) = Some rb" by simp
    from root_facts [OF 2(3) a2(2) this]
    have rb2: "0 \<le> rb" "rb < int (length par2)" "par2 ! nat rb = rb" by simp_all
    from link_ok [OF 2(3) ra2 rb2 False]
    have l: "uf_inv (par2[nat ra := int16 rb])"
      "\<forall>j < length par2. findRoot (par2[nat ra := int16 rb]) (int j)
         = (if findRoot par2 (int j) = Some ra then Some rb else findRoot par2 (int j))"
      by simp_all
    from l(2) same2 1(4) 2(4) False
    have "\<forall>j < length par. findRoot (par2[nat ra := int16 rb]) (int j)
              = (if ra \<noteq> rb \<and> findRoot par (int j) = Some ra then Some rb
                 else findRoot par (int j))" by simp
    with u l(1) 1(2,4) 2(4) rb show ?thesis by auto
  qed
qed

text \<open>The equivalence generated by a set of edges and by one edge more.\<close>

lemma eqcl_sym: "(a, b) \<in> (E \<union> E\<inverse>)\<^sup>* \<Longrightarrow> (b, a) \<in> (E \<union> E\<inverse>)\<^sup>*"
  using sym_rtrancl [OF sym_Un_converse, of E] by (simp add: sym_def)

lemma eqcl_insert:
  "(a, b) \<in> (insert (i, j) E \<union> (insert (i, j) E)\<inverse>)\<^sup>* \<longleftrightarrow>
     (a, b) \<in> (E \<union> E\<inverse>)\<^sup>* \<or>
     ((a, i) \<in> (E \<union> E\<inverse>)\<^sup>* \<and> (j, b) \<in> (E \<union> E\<inverse>)\<^sup>*) \<or>
     ((a, j) \<in> (E \<union> E\<inverse>)\<^sup>* \<and> (i, b) \<in> (E \<union> E\<inverse>)\<^sup>*)"
  (is "(a, b) \<in> ?R' \<longleftrightarrow> ?rhs a b")
proof
  assume "(a, b) \<in> ?R'"
  then show "?rhs a b"
  proof (induction rule: rtrancl_induct)
    case base
    show ?case by simp
  next
    case (step b c)
    from step.hyps(2) consider "(b, c) \<in> E \<union> E\<inverse>" | "b = i \<and> c = j" | "b = j \<and> c = i" by auto
    then show ?case
    proof cases
      case 1
      then have "(b, c) \<in> (E \<union> E\<inverse>)\<^sup>*" by (rule r_into_rtrancl)
      with step.IH show ?thesis by (meson rtrancl_trans)
    next
      case 2
      with step.IH show ?thesis by (auto dest: eqcl_sym)
    next
      case 3
      with step.IH show ?thesis by (auto dest: eqcl_sym)
    qed
  qed
next
  have sub: "(x, y) \<in> (E \<union> E\<inverse>)\<^sup>* \<Longrightarrow> (x, y) \<in> ?R'" for x y
    by (erule rtrancl_mono [THEN subsetD, rotated]) auto
  have ij: "(i, j) \<in> ?R'" "(j, i) \<in> ?R'" by auto
  assume "?rhs a b"
  then show "(a, b) \<in> ?R'"
  proof (elim disjE conjE)
    assume "(a, b) \<in> (E \<union> E\<inverse>)\<^sup>*"
    then show ?thesis by (rule sub)
  next
    assume h: "(a, i) \<in> (E \<union> E\<inverse>)\<^sup>*" "(j, b) \<in> (E \<union> E\<inverse>)\<^sup>*"
    from sub [OF h(1)] ij(1) have "(a, j) \<in> ?R'" by (rule rtrancl_trans)
    from this sub [OF h(2)] show ?thesis by (rule rtrancl_trans)
  next
    assume h: "(a, j) \<in> (E \<union> E\<inverse>)\<^sup>*" "(i, b) \<in> (E \<union> E\<inverse>)\<^sup>*"
    from sub [OF h(1)] ij(2) have "(a, i) \<in> ?R'" by (rule rtrancl_trans)
    from this sub [OF h(2)] show ?thesis by (rule rtrancl_trans)
  qed
qed

lemma groups_invD:
  assumes "groups_inv par gs cs M E"
  shows "uf_inv par" "length gs = length par" "M \<subseteq> {0 ..< length par}"
    "\<And>i j. i < length par \<Longrightarrow> j < length par \<Longrightarrow>
        findRoot par (int i) = findRoot par (int j) \<longleftrightarrow> (i, j) \<in> (E \<union> E\<inverse>)\<^sup>*"
    "\<And>i r b. i < length par \<Longrightarrow> findRoot par (int i) = Some r \<Longrightarrow>
        bit (gs ! nat r) b \<longleftrightarrow> (\<exists>j \<in> M. findRoot par (int j) = Some r \<and> bit (cs j) b)"
  using assms unfolding groups_inv_def by blast+

lemma groups_invI:
  assumes "uf_inv par" "length gs = length par" "M \<subseteq> {0 ..< length par}"
    "\<And>i j. i < length par \<Longrightarrow> j < length par \<Longrightarrow>
        findRoot par (int i) = findRoot par (int j) \<longleftrightarrow> (i, j) \<in> (E \<union> E\<inverse>)\<^sup>*"
    "\<And>i r b. i < length par \<Longrightarrow> findRoot par (int i) = Some r \<Longrightarrow>
        bit (gs ! nat r) b \<longleftrightarrow> (\<exists>j \<in> M. findRoot par (int j) = Some r \<and> bit (cs j) b)"
  shows "groups_inv par gs cs M E"
  using assms unfolding groups_inv_def by blast

text \<open>Tables with the same roots are interchangeable.\<close>

lemma groups_inv_same_roots:
  assumes inv: "groups_inv par gs cs M E" and u: "uf_inv par'" and len: "length par' = length par"
    and same: "\<forall>j < length par. findRoot par' (int j) = findRoot par (int j)"
  shows "groups_inv par' gs cs M E"
proof (rule groups_invI)
  note d = groups_invD [OF inv]
  show "uf_inv par'" by (rule u)
  show "length gs = length par'" using d(2) len by simp
  show "M \<subseteq> {0 ..< length par'}" using d(3) len by simp
  show "findRoot par' (int i) = findRoot par' (int j) \<longleftrightarrow> (i, j) \<in> (E \<union> E\<inverse>)\<^sup>*"
    if "i < length par'" "j < length par'" for i j
    using that d(4) [of i j] same len by simp
  show "bit (gs ! nat r) b \<longleftrightarrow> (\<exists>j \<in> M. findRoot par' (int j) = Some r \<and> bit (cs j) b)"
    if "i < length par'" "findRoot par' (int i) = Some r" for i r b
  proof -
    from that same len have i: "i < length par" "findRoot par (int i) = Some r" by simp_all
    have "findRoot par' (int j) = findRoot par (int j)" if "j \<in> M" for j
      using that d(3) same by auto
    then have "(\<exists>j \<in> M. findRoot par' (int j) = Some r \<and> bit (cs j) b)
               \<longleftrightarrow> (\<exists>j \<in> M. findRoot par (int j) = Some r \<and> bit (cs j) b)" by auto
    with d(5) [OF i] show ?thesis by simp
  qed
qed

lemma groups_inv_find:
  assumes inv: "groups_inv par gs cs M E" and i: "i < length par"
  shows "\<exists>par' r. find par (int i) = Some (par', r) \<and> findRoot par (int i) = Some r \<and>
           0 \<le> r \<and> nat r < length par \<and> length par' = length par \<and> groups_inv par' gs cs M E \<and>
           (\<forall>j < length par. findRoot par' (int j) = findRoot par (int j))"
proof -
  note d = groups_invD [OF inv]
  from find_ok [OF d(1) i] obtain par' r where
    f: "find par (int i) = Some (par', r)" "findRoot par (int i) = Some r"
       "uf_inv par'" "length par' = length par"
       "\<forall>j < length par. findRoot par' (int j) = findRoot par (int j)" by blast
  from root_facts [OF d(1) i f(2)] have r: "0 \<le> r" "nat r < length par" by simp_all
  from groups_inv_same_roots [OF inv f(3,4,5)] f r show ?thesis by blast
qed

text \<open>Entering the boundary bits of a cell at its root.\<close>

lemma groups_inv_init:
  assumes inv: "groups_inv par gs cs M E" and i: "i < length par"
    and rt: "findRoot par (int i) = Some rt"
  shows "groups_inv par (gs[nat rt := (gs ! nat rt) OR cs i]) cs (insert i M) E"
proof (rule groups_invI)
  note d = groups_invD [OF inv]
  from root_facts [OF d(1) i rt] have r: "0 \<le> rt" "nat rt < length par" by simp_all
  show "uf_inv par" by (rule d(1))
  show "length (gs[nat rt := (gs ! nat rt) OR cs i]) = length par" using d(2) by simp
  show "insert i M \<subseteq> {0 ..< length par}" using d(3) i by simp
  show "findRoot par (int a) = findRoot par (int b) \<longleftrightarrow> (a, b) \<in> (E \<union> E\<inverse>)\<^sup>*"
    if "a < length par" "b < length par" for a b
    using that by (rule d(4))
  show "bit (gs[nat rt := (gs ! nat rt) OR cs i] ! nat r) b
          \<longleftrightarrow> (\<exists>j \<in> insert i M. findRoot par (int j) = Some r \<and> bit (cs j) b)"
    if a: "a < length par" "findRoot par (int a) = Some r" for a r b
  proof (cases "r = rt")
    case True
    from r d(2) have "gs[nat rt := (gs ! nat rt) OR cs i] ! nat rt = (gs ! nat rt) OR cs i"
      by simp
    with True d(5) [OF i rt, of b] rt show ?thesis by (auto simp: bit_or_iff)
  next
    case False
    from root_facts(1) [OF d(1) a] r False have "nat r \<noteq> nat rt" by simp
    then have "gs[nat rt := (gs ! nat rt) OR cs i] ! nat r = gs ! nat r" by simp
    with False d(5) [OF a, of b] rt show ?thesis by auto
  qed
qed

lemma eqcl_trans:
  "(a, b) \<in> (E \<union> E\<inverse>)\<^sup>* \<Longrightarrow> (b, c) \<in> (E \<union> E\<inverse>)\<^sup>* \<Longrightarrow> (a, c) \<in> (E \<union> E\<inverse>)\<^sup>*"
  by (rule rtrancl_trans)

lemma groups_inv_union_same:
  assumes inv: "groups_inv par gs cs M E" and i: "i < length par" and j: "j < length par"
    and eq: "findRoot par (int i) = findRoot par (int j)"
  shows "groups_inv par gs cs M (insert (i, j) E)"
proof (rule groups_invI)
  note d = groups_invD [OF inv]
  show "uf_inv par" "length gs = length par" "M \<subseteq> {0 ..< length par}" by (rule d)+
  from d(4) [OF i j] eq have ij: "(i, j) \<in> (E \<union> E\<inverse>)\<^sup>*" by simp
  then have ji: "(j, i) \<in> (E \<union> E\<inverse>)\<^sup>*" by (rule eqcl_sym)
  have "(a, b) \<in> (insert (i, j) E \<union> (insert (i, j) E)\<inverse>)\<^sup>* \<longleftrightarrow> (a, b) \<in> (E \<union> E\<inverse>)\<^sup>*" for a b
    unfolding eqcl_insert using ij ji by (blast intro: eqcl_trans)
  then show "findRoot par (int a) = findRoot par (int b)
               \<longleftrightarrow> (a, b) \<in> (insert (i, j) E \<union> (insert (i, j) E)\<inverse>)\<^sup>*"
    if "a < length par" "b < length par" for a b
    using d(4) [OF that] by simp
  show "bit (gs ! nat r) b \<longleftrightarrow> (\<exists>j \<in> M. findRoot par (int j) = Some r \<and> bit (cs j) b)"
    if "a < length par" "findRoot par (int a) = Some r" for a r b
    using that by (rule d(5))
qed

lemma groups_inv_union_diff:
  assumes inv: "groups_inv par gs cs M E" and i: "i < length par" and j: "j < length par"
    and ri: "findRoot par (int i) = Some ri" and rj: "findRoot par (int j) = Some rj"
    and ne: "ri \<noteq> rj"
    and u: "uf_inv par'" and len: "length par' = length par"
    and roots: "\<forall>x < length par. findRoot par' (int x)
                  = (if findRoot par (int x) = Some ri then Some rj else findRoot par (int x))"
  shows "groups_inv par' (gs[nat rj := (gs ! nat ri) OR (gs ! nat rj)]) cs M (insert (i, j) E)"
proof (rule groups_invI)
  note d = groups_invD [OF inv]
  let ?gs = "gs[nat rj := (gs ! nat ri) OR (gs ! nat rj)]"
  from root_facts [OF d(1) j rj] have rj0: "0 \<le> rj" "nat rj < length par" by simp_all
  show "uf_inv par'" by (rule u)
  show "length ?gs = length par'" using d(2) len by simp
  show "M \<subseteq> {0 ..< length par'}" using d(3) len by simp
  show "findRoot par' (int a) = findRoot par' (int b)
               \<longleftrightarrow> (a, b) \<in> (insert (i, j) E \<union> (insert (i, j) E)\<inverse>)\<^sup>*"
    if ab: "a < length par'" "b < length par'" for a b
  proof -
    from ab len have ab': "a < length par" "b < length par" by simp_all
    from findRoot_some [OF d(1) ab'(1)] obtain ra where ra: "findRoot par (int a) = Some ra" by blast
    from findRoot_some [OF d(1) ab'(2)] obtain rb where rb: "findRoot par (int b) = Some rb" by blast
    have 1: "(a, b) \<in> (E \<union> E\<inverse>)\<^sup>* \<longleftrightarrow> ra = rb" using d(4) [OF ab'] ra rb by simp
    have 2: "(a, i) \<in> (E \<union> E\<inverse>)\<^sup>* \<longleftrightarrow> ra = ri" using d(4) [OF ab'(1) i] ra ri by simp
    have 3: "(j, b) \<in> (E \<union> E\<inverse>)\<^sup>* \<longleftrightarrow> rj = rb" using d(4) [OF j ab'(2)] rb rj by simp
    have 4: "(a, j) \<in> (E \<union> E\<inverse>)\<^sup>* \<longleftrightarrow> ra = rj" using d(4) [OF ab'(1) j] ra rj by simp
    have 5: "(i, b) \<in> (E \<union> E\<inverse>)\<^sup>* \<longleftrightarrow> ri = rb" using d(4) [OF i ab'(2)] rb ri by simp
    from roots ab' ra rb have
      "findRoot par' (int a) = Some (if ra = ri then rj else ra)"
      "findRoot par' (int b) = Some (if rb = ri then rj else rb)" by simp_all
    then show ?thesis unfolding eqcl_insert 1 2 3 4 5 using ne by auto
  qed
  show "bit (?gs ! nat r) b \<longleftrightarrow> (\<exists>m \<in> M. findRoot par' (int m) = Some r \<and> bit (cs m) b)"
    if a: "a < length par'" "findRoot par' (int a) = Some r" for a r b
  proof -
    from a len have a': "a < length par" by simp
    have mem: "findRoot par' (int m)
                 = (if findRoot par (int m) = Some ri then Some rj else findRoot par (int m))"
      if "m \<in> M" for m using that d(3) roots by auto
    show ?thesis
    proof (cases "r = rj")
      case True
      from rj0 d(2) have "?gs ! nat rj = (gs ! nat ri) OR (gs ! nat rj)" by simp
      moreover have "(\<exists>m \<in> M. findRoot par' (int m) = Some rj \<and> bit (cs m) b)
            \<longleftrightarrow> (\<exists>m \<in> M. findRoot par (int m) = Some ri \<and> bit (cs m) b) \<or>
                (\<exists>m \<in> M. findRoot par (int m) = Some rj \<and> bit (cs m) b)"
        using mem ne by (auto split: if_splits)
      ultimately show ?thesis using True d(5) [OF i ri, of b] d(5) [OF j rj, of b]
        by (simp add: bit_or_iff)
    next
      case False
      from roots a' a(2) False have ra: "findRoot par (int a) = Some r" "r \<noteq> ri"
        by (auto split: if_splits)
      from root_facts(1) [OF d(1) a' ra(1)] rj0 False have "nat r \<noteq> nat rj" by simp
      then have "?gs ! nat r = gs ! nat r" by simp
      moreover have "findRoot par' (int m) = Some r \<longleftrightarrow> findRoot par (int m) = Some r"
        if "m \<in> M" for m using mem [OF that] False ra(2) by auto
      then have "(\<exists>m \<in> M. findRoot par' (int m) = Some r \<and> bit (cs m) b)
            \<longleftrightarrow> (\<exists>m \<in> M. findRoot par (int m) = Some r \<and> bit (cs m) b)"
        by blast
      ultimately show ?thesis using d(5) [OF a' ra(1), of b] by simp
    qed
  qed
qed

lemma unionGroups_ok:
  assumes inv: "tracker_rel s M E" and i: "i < length (board_f s)" and j: "j < length (board_f s)"
  shows "\<exists>par gs. unionGroups s i j = Some (s \<lparr> parent := par, groupStatus := gs \<rparr>) \<and>
           tracker_rel (s \<lparr> parent := par, groupStatus := gs \<rparr>) M (insert (i, j) E)"
proof -
  let ?cs = "\<lambda>j. cellStatus (size_f s) j (board_f s ! j)"
  let ?par = "parent s" and ?gs = "groupStatus s"
  from inv have len: "length ?par = length (board_f s)" and inv0: "groups_inv ?par ?gs ?cs M E"
    by (simp_all add: tracker_rel_def)
  from i j len have i': "i < length ?par" and j': "j < length ?par" by simp_all
  from groups_inv_find [OF inv0 i'] obtain par1 ri where
    1: "find ?par (int i) = Some (par1, ri)" "findRoot ?par (int i) = Some ri"
       "0 \<le> ri" "nat ri < length ?par" "length par1 = length ?par" "groups_inv par1 ?gs ?cs M E"
       "\<forall>x < length ?par. findRoot par1 (int x) = findRoot ?par (int x)" by blast
  from j' 1(5) have j1: "j < length par1" by simp
  from groups_inv_find [OF 1(6) j1] obtain par2 rj where
    2: "find par1 (int j) = Some (par2, rj)" "findRoot par1 (int j) = Some rj"
       "0 \<le> rj" "nat rj < length par1" "length par2 = length par1" "groups_inv par2 ?gs ?cs M E"
       "\<forall>x < length par1. findRoot par2 (int x) = findRoot par1 (int x)" by blast
  from 1(7) 2(2) j' have rj: "findRoot ?par (int j) = Some rj" by simp
  have same2: "\<forall>x < length ?par. findRoot par2 (int x) = findRoot ?par (int x)"
    using 1(5,7) 2(7) by simp
  have len2: "length par2 = length ?par" using 1(5) 2(5) by simp
  show ?thesis
  proof (cases "ri = rj")
    case True
    with 1(1) 2(1) have "unionGroups s i j = Some (s \<lparr> parent := par2 \<rparr>)"
      by (simp add: unionGroups_def)
    then have u: "unionGroups s i j = Some (s \<lparr> parent := par2, groupStatus := ?gs \<rparr>)" by simp
    from i' j' len2 have ij2: "i < length par2" "j < length par2" by simp_all
    from same2 i' j' 1(2) rj True have "findRoot par2 (int i) = findRoot par2 (int j)" by simp
    from groups_inv_union_same [OF 2(6) ij2 this] len2 len
    have "tracker_rel (s \<lparr> parent := par2, groupStatus := ?gs \<rparr>) M (insert (i, j) E)"
      by (simp add: tracker_rel_def)
    with u show ?thesis by blast
  next
    case False
    note d2 = groups_invD [OF 2(6)]
    from 1(4) 2(4) 1(5) len2 have r2: "nat ri < length par2" "nat rj < length par2" by simp_all
    from uf_union_ok [OF d2(1) r2] 1(3) 2(3) obtain par3 ra rb where
      3: "uf_union par2 ri rj = Some par3" "findRoot par2 ri = Some ra" "findRoot par2 rj = Some rb"
         "uf_inv par3" "length par3 = length par2"
         "\<forall>x < length par2. findRoot par3 (int x)
              = (if ra \<noteq> rb \<and> findRoot par2 (int x) = Some ra then Some rb
                 else findRoot par2 (int x))" by auto
    from same2 i' 1(2) have "findRoot par2 (int i) = Some ri" by simp
    from root_facts(4) [OF d2(1) _ this] i' len2 3(2) have ra: "ra = ri" by simp
    from same2 j' rj have "findRoot par2 (int j) = Some rj" by simp
    from root_facts(4) [OF d2(1) _ this] j' len2 3(3) have rb: "rb = rj" by simp
    have roots3: "\<forall>x < length ?par. findRoot par3 (int x)
              = (if findRoot ?par (int x) = Some ri then Some rj else findRoot ?par (int x))"
      using 3(6) ra rb False same2 len2 by simp
    from r2(1) 3(5) have "nat ri < length par3" by simp
    from find_ok [OF 3(4) this] 1(3) obtain par4 nr where
      4: "find par3 ri = Some (par4, nr)" "findRoot par3 ri = Some nr" "uf_inv par4"
         "length par4 = length par3"
         "\<forall>x < length par3. findRoot par4 (int x) = findRoot par3 (int x)" by auto
    from roots3 1(3,4) root_facts(5) [OF groups_invD(1) [OF inv0] i' 1(2)] 4(2)
    have nr: "nr = rj" by (auto split: if_splits)
    have roots4: "\<forall>x < length ?par. findRoot par4 (int x)
              = (if findRoot ?par (int x) = Some ri then Some rj else findRoot ?par (int x))"
      using 4(5) roots3 3(5) len2 by simp
    have len4: "length par4 = length ?par" using 4(4) 3(5) len2 by simp
    let ?gs' = "?gs[nat rj := (?gs ! nat ri) OR (?gs ! nat rj)]"
    from False 1(1) 2(1) 3(1) 4(1) nr
    have u: "unionGroups s i j = Some (s \<lparr> parent := par4, groupStatus := ?gs' \<rparr>)"
      by (simp add: unionGroups_def Let_def)
    from groups_inv_union_diff [OF inv0 i' j' 1(2) rj False 4(3) len4 roots4] len4 len
    have "tracker_rel (s \<lparr> parent := par4, groupStatus := ?gs' \<rparr>) M (insert (i, j) E)"
      by (simp add: tracker_rel_def)
    with u show ?thesis by blast
  qed
qed

lemma initCell_ok:
  assumes inv: "tracker_rel s M E" and i: "i < length (board_f s)"
  shows "\<exists>par gs. initCell s i (board_f s ! i) = Some (s \<lparr> parent := par, groupStatus := gs \<rparr>) \<and>
           tracker_rel (s \<lparr> parent := par, groupStatus := gs \<rparr>) (insert i M) E"
proof -
  let ?cs = "\<lambda>j. cellStatus (size_f s) j (board_f s ! j)"
  let ?par = "parent s" and ?gs = "groupStatus s"
  from inv have len: "length ?par = length (board_f s)" and inv0: "groups_inv ?par ?gs ?cs M E"
    by (simp_all add: tracker_rel_def)
  from i len have i': "i < length ?par" by simp
  from groups_inv_find [OF inv0 i'] obtain par1 ri where
    1: "find ?par (int i) = Some (par1, ri)" "findRoot ?par (int i) = Some ri"
       "0 \<le> ri" "nat ri < length ?par" "length par1 = length ?par" "groups_inv par1 ?gs ?cs M E"
       "\<forall>x < length ?par. findRoot par1 (int x) = findRoot ?par (int x)" by blast
  let ?gs' = "?gs[nat ri := (?gs ! nat ri) OR ?cs i]"
  from 1(1) have u: "initCell s i (board_f s ! i) = Some (s \<lparr> parent := par1, groupStatus := ?gs' \<rparr>)"
    by (simp add: initCell_def)
  from i' 1(5) have i1: "i < length par1" by simp
  from 1(7) i' 1(2) have "findRoot par1 (int i) = Some ri" by simp
  from groups_inv_init [OF 1(6) i1 this] 1(5) len
  have "tracker_rel (s \<lparr> parent := par1, groupStatus := ?gs' \<rparr>) (insert i M) E"
    by (simp add: tracker_rel_def)
  with u show ?thesis by blast
qed

lemma flat_index_less:
  assumes "0 \<le> r" "r < int n" "0 \<le> c" "c < int n"
  shows "nat (r * int n + c) < n * n"
proof -
  from assms have "r + 1 \<le> int n" by simp
  then have "(r + 1) * int n \<le> int n * int n" by (intro mult_right_mono) simp_all
  then have "r * int n + int n \<le> int n * int n" by (simp add: algebra_simps)
  with assms have "r * int n + c < int (n * n)" by simp
  moreover from assms have "0 \<le> r * int n + c" by simp
  ultimately show ?thesis by linarith
qed

lemma getNeighborsIdx_eq:
  "getNeighborsIdx s idx
     = map (\<lambda>(nr, nc). nat (nr * int (size_f s) + nc))
         (getNeighbors (gridOf s) (int (idx div size_f s)) (int (idx mod size_f s)))"
  by (simp add: getNeighborsIdx_def getNeighbors_def gridOf_def Let_def del: filter.simps)

lemma getNeighbors_range:
  "x \<in> set (getNeighbors g r c) \<Longrightarrow>
     0 \<le> fst x \<and> fst x < int (size_g g) \<and> 0 \<le> snd x \<and> snd x < int (size_g g)"
  unfolding getNeighbors_def set_filter by (simp only: mem_Collect_eq case_prod_beta)

lemma getNeighborsIdx_less:
  assumes "nb \<in> set (getNeighborsIdx s idx)" "length (board_f s) = size_f s * size_f s"
  shows "nb < length (board_f s)"
proof -
  from assms(1) obtain x where x: "x \<in> set (getNeighbors (gridOf s) (int (idx div size_f s))
                                      (int (idx mod size_f s)))"
    "nb = nat (fst x * int (size_f s) + snd x)"
    unfolding getNeighborsIdx_eq by (auto simp: case_prod_beta)
  from getNeighbors_range [OF x(1)] have "nat (fst x * int (size_f s) + snd x) < size_f s * size_f s"
    by (intro flat_index_less) (simp_all add: gridOf_def)
  with x(2) assms(2) show ?thesis by simp
qed

lemma unionNeighbors_ok:
  assumes "tracker_rel s M E" "idx < length (board_f s)" "\<forall>n \<in> set ns. n < length (board_f s)"
  shows "\<exists>par gs. unionNeighbors s idx p ns = Some (s \<lparr> parent := par, groupStatus := gs \<rparr>) \<and>
           tracker_rel (s \<lparr> parent := par, groupStatus := gs \<rparr>) M
             (E \<union> {(idx, n) | n. n \<in> set ns \<and> board_f s ! n = p})"
  using assms
proof (induction ns arbitrary: s E)
  case Nil
  have "unionNeighbors s idx p []
          = Some (s \<lparr> parent := parent s, groupStatus := groupStatus s \<rparr>)" by simp
  moreover from Nil.prems(1)
  have "tracker_rel (s \<lparr> parent := parent s, groupStatus := groupStatus s \<rparr>) M
          (E \<union> {(idx, n) | n. n \<in> set [] \<and> board_f s ! n = p})" by simp
  ultimately show ?case by blast
next
  case (Cons n ns)
  show ?case
  proof (cases "board_f s ! n = p")
    case True
    from Cons.prems have n: "n < length (board_f s)" by simp
    from unionGroups_ok [OF Cons.prems(1,2) n] obtain par1 gs1 where
      1: "unionGroups s idx n = Some (s \<lparr> parent := par1, groupStatus := gs1 \<rparr>)"
         "tracker_rel (s \<lparr> parent := par1, groupStatus := gs1 \<rparr>) M (insert (idx, n) E)" by blast
    let ?s1 = "s \<lparr> parent := par1, groupStatus := gs1 \<rparr>"
    from Cons.prems have "idx < length (board_f ?s1)" "\<forall>n \<in> set ns. n < length (board_f ?s1)"
      by simp_all
    from Cons.IH [OF 1(2) this] obtain par gs where
      2: "unionNeighbors ?s1 idx p ns = Some (?s1 \<lparr> parent := par, groupStatus := gs \<rparr>)"
         "tracker_rel (?s1 \<lparr> parent := par, groupStatus := gs \<rparr>) M
            (insert (idx, n) E \<union> {(idx, m) | m. m \<in> set ns \<and> board_f ?s1 ! m = p})" by blast
    have eqE: "insert (idx, n) E \<union> {(idx, m) | m. m \<in> set ns \<and> board_f ?s1 ! m = p}
          = E \<union> {(idx, m) | m. m \<in> set (n # ns) \<and> board_f s ! m = p}"
      using True by auto
    from True 1(1) 2(1)
    have "unionNeighbors s idx p (n # ns) = Some (s \<lparr> parent := par, groupStatus := gs \<rparr>)"
      by simp
    moreover from 2(2) have "tracker_rel (s \<lparr> parent := par, groupStatus := gs \<rparr>) M
             (E \<union> {(idx, m) | m. m \<in> set (n # ns) \<and> board_f s ! m = p})"
      unfolding eqE by simp
    ultimately show ?thesis by blast
  next
    case False
    from Cons.prems have "\<forall>n \<in> set ns. n < length (board_f s)" by simp
    from Cons.IH [OF Cons.prems(1,2) this] obtain par gs where
      2: "unionNeighbors s idx p ns = Some (s \<lparr> parent := par, groupStatus := gs \<rparr>)"
         "tracker_rel (s \<lparr> parent := par, groupStatus := gs \<rparr>) M
            (E \<union> {(idx, m) | m. m \<in> set ns \<and> board_f s ! m = p})" by blast
    have eqE: "E \<union> {(idx, m) | m. m \<in> set ns \<and> board_f s ! m = p}
          = E \<union> {(idx, m) | m. m \<in> set (n # ns) \<and> board_f s ! m = p}"
      using False by auto
    from False 2(1)
    have "unionNeighbors s idx p (n # ns) = Some (s \<lparr> parent := par, groupStatus := gs \<rparr>)"
      by simp
    moreover from 2(2) have "tracker_rel (s \<lparr> parent := par, groupStatus := gs \<rparr>) M
             (E \<union> {(idx, m) | m. m \<in> set (n # ns) \<and> board_f s ! m = p})"
      unfolding eqE by simp
    ultimately show ?thesis by blast
  qed
qed

lemma initCells_ok:
  assumes "tracker_rel s M E" "\<forall>i \<in> set js. i < length (board_f s)"
  shows "\<exists>par gs. initCells s js = Some (s \<lparr> parent := par, groupStatus := gs \<rparr>) \<and>
           tracker_rel (s \<lparr> parent := par, groupStatus := gs \<rparr>)
             (M \<union> {i. i \<in> set js \<and> board_f s ! i \<noteq> 0}) E"
  using assms
proof (induction js arbitrary: s M)
  case Nil
  have "initCells s [] = Some (s \<lparr> parent := parent s, groupStatus := groupStatus s \<rparr>)" by simp
  moreover from Nil.prems(1)
  have "tracker_rel (s \<lparr> parent := parent s, groupStatus := groupStatus s \<rparr>)
          (M \<union> {i. i \<in> set [] \<and> board_f s ! i \<noteq> 0}) E" by simp
  ultimately show ?case by blast
next
  case (Cons i js)
  from Cons.prems have i: "i < length (board_f s)" and js: "\<forall>i \<in> set js. i < length (board_f s)"
    by simp_all
  show ?case
  proof (cases "board_f s ! i \<noteq> 0")
    case True
    from initCell_ok [OF Cons.prems(1) i] obtain par1 gs1 where
      1: "initCell s i (board_f s ! i) = Some (s \<lparr> parent := par1, groupStatus := gs1 \<rparr>)"
         "tracker_rel (s \<lparr> parent := par1, groupStatus := gs1 \<rparr>) (insert i M) E" by blast
    let ?s1 = "s \<lparr> parent := par1, groupStatus := gs1 \<rparr>"
    from js have "\<forall>i \<in> set js. i < length (board_f ?s1)" by simp
    from Cons.IH [OF 1(2) this] obtain par gs where
      2: "initCells ?s1 js = Some (?s1 \<lparr> parent := par, groupStatus := gs \<rparr>)"
         "tracker_rel (?s1 \<lparr> parent := par, groupStatus := gs \<rparr>)
            (insert i M \<union> {k. k \<in> set js \<and> board_f ?s1 ! k \<noteq> 0}) E" by blast
    have eqM: "insert i M \<union> {k. k \<in> set js \<and> board_f ?s1 ! k \<noteq> 0}
          = M \<union> {k. k \<in> set (i # js) \<and> board_f s ! k \<noteq> 0}"
      using True by auto
    from True 1(1) 2(1)
    have "initCells s (i # js) = Some (s \<lparr> parent := par, groupStatus := gs \<rparr>)" by simp
    moreover from 2(2) have "tracker_rel (s \<lparr> parent := par, groupStatus := gs \<rparr>)
             (M \<union> {k. k \<in> set (i # js) \<and> board_f s ! k \<noteq> 0}) E"
      unfolding eqM by simp
    ultimately show ?thesis by blast
  next
    case False
    from Cons.IH [OF Cons.prems(1) js] obtain par gs where
      2: "initCells s js = Some (s \<lparr> parent := par, groupStatus := gs \<rparr>)"
         "tracker_rel (s \<lparr> parent := par, groupStatus := gs \<rparr>)
            (M \<union> {k. k \<in> set js \<and> board_f s ! k \<noteq> 0}) E" by blast
    have eqM: "M \<union> {k. k \<in> set js \<and> board_f s ! k \<noteq> 0}
          = M \<union> {k. k \<in> set (i # js) \<and> board_f s ! k \<noteq> 0}"
      using False by auto
    from False 2(1)
    have "initCells s (i # js) = Some (s \<lparr> parent := par, groupStatus := gs \<rparr>)" by simp
    moreover from 2(2) have "tracker_rel (s \<lparr> parent := par, groupStatus := gs \<rparr>)
             (M \<union> {k. k \<in> set (i # js) \<and> board_f s ! k \<noteq> 0}) E"
      unfolding eqM by simp
    ultimately show ?thesis by blast
  qed
qed

lemma unionCells_ok:
  assumes "tracker_rel s M E" "length (board_f s) = size_f s * size_f s"
    "\<forall>i \<in> set js. i < length (board_f s)"
  shows "\<exists>par gs. unionCells s js = Some (s \<lparr> parent := par, groupStatus := gs \<rparr>) \<and>
           tracker_rel (s \<lparr> parent := par, groupStatus := gs \<rparr>) M
             (E \<union> {(i, n). i \<in> set js \<and> board_f s ! i \<noteq> 0 \<and>
                           n \<in> set (getNeighborsIdx s i) \<and> board_f s ! n = board_f s ! i})"
  using assms
proof (induction js arbitrary: s E)
  case Nil
  have "unionCells s [] = Some (s \<lparr> parent := parent s, groupStatus := groupStatus s \<rparr>)" by simp
  moreover from Nil.prems(1)
  have "tracker_rel (s \<lparr> parent := parent s, groupStatus := groupStatus s \<rparr>) M
          (E \<union> {(i, n). i \<in> set [] \<and> board_f s ! i \<noteq> 0 \<and>
                        n \<in> set (getNeighborsIdx s i) \<and> board_f s ! n = board_f s ! i})" by simp
  ultimately show ?case by blast
next
  case (Cons i js)
  from Cons.prems have i: "i < length (board_f s)" and js: "\<forall>i \<in> set js. i < length (board_f s)"
    by simp_all
  have nbeq: "getNeighborsIdx (s \<lparr> parent := p, groupStatus := g \<rparr>) k = getNeighborsIdx s k"
    for p g k by (simp add: getNeighborsIdx_def)
  show ?case
  proof (cases "board_f s ! i \<noteq> 0")
    case True
    have "\<forall>n \<in> set (getNeighborsIdx s i). n < length (board_f s)"
      using getNeighborsIdx_less [OF _ Cons.prems(2)] by blast
    from unionNeighbors_ok [OF Cons.prems(1) i this, of "board_f s ! i"] obtain par1 gs1 where
      1: "unionNeighbors s i (board_f s ! i) (getNeighborsIdx s i)
            = Some (s \<lparr> parent := par1, groupStatus := gs1 \<rparr>)"
         "tracker_rel (s \<lparr> parent := par1, groupStatus := gs1 \<rparr>) M
            (E \<union> {(i, n) | n. n \<in> set (getNeighborsIdx s i) \<and> board_f s ! n = board_f s ! i})"
      by blast
    let ?s1 = "s \<lparr> parent := par1, groupStatus := gs1 \<rparr>"
    let ?E1 = "E \<union> {(i, n) | n. n \<in> set (getNeighborsIdx s i) \<and> board_f s ! n = board_f s ! i}"
    from js Cons.prems(2) have "length (board_f ?s1) = size_f ?s1 * size_f ?s1"
      "\<forall>i \<in> set js. i < length (board_f ?s1)" by simp_all
    from Cons.IH [OF 1(2) this] obtain par gs where
      2: "unionCells ?s1 js = Some (?s1 \<lparr> parent := par, groupStatus := gs \<rparr>)"
         "tracker_rel (?s1 \<lparr> parent := par, groupStatus := gs \<rparr>) M
            (?E1 \<union> {(k, n). k \<in> set js \<and> board_f ?s1 ! k \<noteq> 0 \<and>
                           n \<in> set (getNeighborsIdx ?s1 k) \<and> board_f ?s1 ! n = board_f ?s1 ! k})"
      by blast
    have eqE: "?E1 \<union> {(k, n). k \<in> set js \<and> board_f ?s1 ! k \<noteq> 0 \<and>
                           n \<in> set (getNeighborsIdx ?s1 k) \<and> board_f ?s1 ! n = board_f ?s1 ! k}
          = E \<union> {(k, n). k \<in> set (i # js) \<and> board_f s ! k \<noteq> 0 \<and>
                           n \<in> set (getNeighborsIdx s k) \<and> board_f s ! n = board_f s ! k}"
      using True unfolding nbeq by auto
    from True 1(1) 2(1)
    have "unionCells s (i # js) = Some (s \<lparr> parent := par, groupStatus := gs \<rparr>)" by simp
    moreover from 2(2) have "tracker_rel (s \<lparr> parent := par, groupStatus := gs \<rparr>) M
             (E \<union> {(k, n). k \<in> set (i # js) \<and> board_f s ! k \<noteq> 0 \<and>
                           n \<in> set (getNeighborsIdx s k) \<and> board_f s ! n = board_f s ! k})"
      unfolding eqE by simp
    ultimately show ?thesis by blast
  next
    case False
    from Cons.IH [OF Cons.prems(1,2) js] obtain par gs where
      2: "unionCells s js = Some (s \<lparr> parent := par, groupStatus := gs \<rparr>)"
         "tracker_rel (s \<lparr> parent := par, groupStatus := gs \<rparr>) M
            (E \<union> {(k, n). k \<in> set js \<and> board_f s ! k \<noteq> 0 \<and>
                           n \<in> set (getNeighborsIdx s k) \<and> board_f s ! n = board_f s ! k})"
      by blast
    have eqE: "E \<union> {(k, n). k \<in> set js \<and> board_f s ! k \<noteq> 0 \<and>
                           n \<in> set (getNeighborsIdx s k) \<and> board_f s ! n = board_f s ! k}
          = E \<union> {(k, n). k \<in> set (i # js) \<and> board_f s ! k \<noteq> 0 \<and>
                           n \<in> set (getNeighborsIdx s k) \<and> board_f s ! n = board_f s ! k}"
      using False by auto
    from False 2(1)
    have "unionCells s (i # js) = Some (s \<lparr> parent := par, groupStatus := gs \<rparr>)" by simp
    moreover from 2(2) have "tracker_rel (s \<lparr> parent := par, groupStatus := gs \<rparr>) M
             (E \<union> {(k, n). k \<in> set (i # js) \<and> board_f s ! k \<noteq> 0 \<and>
                           n \<in> set (getNeighborsIdx s k) \<and> board_f s ! n = board_f s ! k})"
      unfolding eqE by simp
    ultimately show ?thesis by blast
  qed
qed

lemma grid_concat_length:
  "length (concat (map (\<lambda>r. map (f r) [0 ..< m]) [0 ..< n])) = n * m"
  by (induction n) simp_all

lemma grid_concat_nth:
  "r < n \<Longrightarrow> c < m \<Longrightarrow> concat (map (\<lambda>r. map (f r) [0 ..< m]) [0 ..< n]) ! (r * m + c) = f r c"
proof (induction n)
  case 0
  then show ?case by simp
next
  case (Suc n)
  show ?case
  proof (cases "r < n")
    case True
    then have "Suc r \<le> n" by simp
    then have "Suc r * m \<le> n * m" by (rule mult_le_mono1)
    with Suc.prems(2) have "r * m + c < n * m" by simp
    with Suc.IH [OF True Suc.prems(2)] show ?thesis
      by (simp add: nth_append grid_concat_length)
  next
    case False
    with Suc.prems have "r = n" by simp
    with Suc.prems(2) show ?thesis by (simp add: nth_append grid_concat_length)
  qed
qed

lemma uf_new_nth: "i < n \<Longrightarrow> n \<le> 32768 \<Longrightarrow> uf_new n ! i = int i"
  by (simp add: uf_new_def int16_id)

lemma uf_new_pathTo: "i < n \<Longrightarrow> n \<le> 32768 \<Longrightarrow> pathTo (uf_new n) (int i) 0 (int i)"
  by (rule pathTo.root) (simp_all add: uf_new_nth, simp add: uf_new_def)

lemma uf_new_inv: "n \<le> 32768 \<Longrightarrow> uf_inv (uf_new n)"
  unfolding uf_inv_def
proof (intro conjI allI impI)
  assume n: "n \<le> 32768"
  then show "length (uf_new n) \<le> 32768" by (simp add: uf_new_def)
  fix i assume "i < length (uf_new n)"
  then have "i < n" by (simp add: uf_new_def)
  from uf_new_pathTo [OF this n] show "\<exists>k r. pathTo (uf_new n) (int i) k r" by blast
qed

lemma uf_new_findRoot: "i < n \<Longrightarrow> n \<le> 32768 \<Longrightarrow> findRoot (uf_new n) (int i) = Some (int i)"
  by (rule pathTo_findRoot [OF uf_new_pathTo])

lemma groups_inv_new:
  assumes "n \<le> 32768"
  shows "groups_inv (uf_new n) (replicate n 0) cs {} {}"
proof (rule groups_invI)
  have len: "length (uf_new n) = n" by (simp add: uf_new_def)
  show "uf_inv (uf_new n)" by (rule uf_new_inv [OF assms])
  show "length (replicate n (0 :: 8 word)) = length (uf_new n)" by (simp add: len)
  show "{} \<subseteq> {0 ..< length (uf_new n)}" by simp
  show "findRoot (uf_new n) (int i) = findRoot (uf_new n) (int j) \<longleftrightarrow> (i, j) \<in> ({} \<union> {}\<inverse>)\<^sup>*"
    if "i < length (uf_new n)" "j < length (uf_new n)" for i j
    using that assms by (simp add: len uf_new_findRoot)
  show "bit (replicate n (0 :: 8 word) ! nat r) b
          \<longleftrightarrow> (\<exists>j \<in> {}. findRoot (uf_new n) (int j) = Some r \<and> bit (cs j) b)"
    if "i < length (uf_new n)" "findRoot (uf_new n) (int i) = Some r" for i r b
  proof -
    from that assms have "r = int i" "i < n" by (simp_all add: len uf_new_findRoot)
    then show ?thesis by simp
  qed
qed

lemma tracker_rel_frame:
  "parent s' = parent s \<Longrightarrow> groupStatus s' = groupStatus s \<Longrightarrow> board_f s' = board_f s \<Longrightarrow>
   size_f s' = size_f s \<Longrightarrow> tracker_rel s' M E = tracker_rel s M E"
  by (simp add: tracker_rel_def)

lemma wf_board_cell:
  assumes "wf_board g" "r < size_g g" "c < size_g g"
  shows "board g ! r ! c = 0 \<or> board g ! r ! c = 1 \<or> board g ! r ! c = 2"
proof -
  from assms(1) have len: "length (board g) = size_g g"
    and rows: "\<forall>row \<in> set (board g). length row = size_g g \<and>
                 (\<forall>v \<in> set row. v = EMPTY \<or> v = PLAYER_RED \<or> v = PLAYER_BLUE)"
    by (simp_all add: wf_board_def list_all_iff)
  from len assms(2) have "board g ! r \<in> set (board g)" by simp
  with rows assms(3) have "board g ! r ! c \<in> set (board g ! r)"
    "\<forall>v \<in> set (board g ! r). v = EMPTY \<or> v = PLAYER_RED \<or> v = PLAYER_BLUE" by simp_all
  then show ?thesis by (auto simp: EMPTY_def PLAYER_RED_def PLAYER_BLUE_def)
qed

lemma flat_cells:
  assumes "wf_board g" "i < size_g g * size_g g"
  shows "concat (map (\<lambda>r. map (\<lambda>c. board g ! r ! c) [0 ..< size_g g]) [0 ..< size_g g]) ! i
           \<in> {0, 1, 2}"
proof -
  let ?n = "size_g g"
  from assms(2) have pos: "0 < ?n" by (cases "?n") simp_all
  then have c: "i mod ?n < ?n" by simp
  have r: "i div ?n < ?n" using assms(2) by (simp add: less_mult_imp_div_less)
  have "i = (i div ?n) * ?n + i mod ?n" by simp
  then have "concat (map (\<lambda>r. map (\<lambda>c. board g ! r ! c) [0 ..< ?n]) [0 ..< ?n]) ! i
        = board g ! (i div ?n) ! (i mod ?n)"
    using grid_concat_nth [OF r c, of "\<lambda>r c. board g ! r ! c"] by simp
  with wf_board_cell [OF assms(1) r c] show ?thesis by auto
qed

lemma newFastHexGame_ok:
  assumes wf: "wf_board g" and sz: "size_g g * size_g g \<le> 32768"
    and cp: "currentPlayer g = 1 \<or> currentPlayer g = 2"
  shows "\<exists>s0. newFastHexGame g = Some s0 \<and> tracker_inv s0 \<and> size_f s0 = size_g g \<and>
           board_f s0 = concat (map (\<lambda>r. map (\<lambda>c. board g ! r ! c) [0 ..< size_g g])
                                  [0 ..< size_g g])"
proof -
  let ?n = "size_g g"
  let ?flat = "concat (map (\<lambda>r. map (\<lambda>c. board g ! r ! c) [0 ..< ?n]) [0 ..< ?n])"
  let ?empties = "concat (map (\<lambda>r. concat (map (\<lambda>c.
                       if board g ! r ! c = 0 then [r * ?n + c] else []) [0 ..< ?n])) [0 ..< ?n])"
  let ?s0 = "\<lparr> size_f = ?n, board_f = ?flat, emptyCells = ?empties, movesHistory = [],
                 currentPlayer_f = currentPlayer g,
                 parent = uf_new (?n * ?n), groupStatus = replicate (?n * ?n) 0,
                 initialBoard = [], initialPlayer = 0, initialEmpty = [],
                 initialGroupStatus = [], initialUF = [],
                 initialFilledCount = 0, filledCount = 0 \<rparr>"
  have lf: "length ?flat = ?n * ?n" by (rule grid_concat_length)
  have t0: "tracker_rel ?s0 {} {}"
    using groups_inv_new [OF sz] by (simp add: tracker_rel_def lf uf_new_def)
  have rng: "\<forall>i \<in> set [0 ..< length ?flat]. i < length (board_f ?s0)" by simp
  define M1 where "M1 = {} \<union> {i. i \<in> set [0 ..< length ?flat] \<and> board_f ?s0 ! i \<noteq> 0}"
  from initCells_ok [OF t0 rng] obtain par1 gs1 where
    1: "initCells ?s0 [0 ..< length ?flat] = Some (?s0 \<lparr> parent := par1, groupStatus := gs1 \<rparr>)"
       "tracker_rel (?s0 \<lparr> parent := par1, groupStatus := gs1 \<rparr>) M1 {}"
    unfolding M1_def by blast
  let ?s1 = "?s0 \<lparr> parent := par1, groupStatus := gs1 \<rparr>"
  have l1: "length (board_f ?s1) = size_f ?s1 * size_f ?s1" using lf by simp
  have rng1: "\<forall>i \<in> set [0 ..< length ?flat]. i < length (board_f ?s1)" by simp
  define E2 where "E2 = {} \<union> {(i, n). i \<in> set [0 ..< length ?flat] \<and> board_f ?s1 ! i \<noteq> 0 \<and>
                  n \<in> set (getNeighborsIdx ?s1 i) \<and> board_f ?s1 ! n = board_f ?s1 ! i}"
  from unionCells_ok [OF 1(2) l1 rng1] obtain par2 gs2 where
    2: "unionCells ?s1 [0 ..< length ?flat] = Some (?s1 \<lparr> parent := par2, groupStatus := gs2 \<rparr>)"
       "tracker_rel (?s1 \<lparr> parent := par2, groupStatus := gs2 \<rparr>) M1 E2"
    unfolding E2_def by blast
  let ?s2 = "?s1 \<lparr> parent := par2, groupStatus := gs2 \<rparr>"
  let ?s = "?s2 \<lparr> initialBoard := board_f ?s2,
                    initialPlayer := currentPlayer_f ?s2,
                    initialEmpty := emptyCells ?s2,
                    initialGroupStatus := groupStatus ?s2,
                    initialUF := parent ?s2,
                    initialFilledCount := ?n * ?n - length (emptyCells ?s2),
                    filledCount := ?n * ?n - length (emptyCells ?s2) \<rparr>"
  from 1(1) 2(1) have new: "newFastHexGame g = Some ?s"
    by (simp add: newFastHexGame_def Let_def)
  have occ: "M1 = occupied ?s"
    unfolding M1_def by (auto simp: occupied_def)
  have nb: "getNeighborsIdx ?s k = getNeighborsIdx ?s1 k" for k
    by (simp add: getNeighborsIdx_def)
  have edg: "E2 = sameEdges ?s"
    unfolding E2_def sameEdges_def nb by auto
  have "tracker_rel ?s M1 E2 = tracker_rel ?s2 M1 E2"
    by (rule tracker_rel_frame) simp_all
  from this 2(2) have "tracker_rel ?s M1 E2" by (rule iffD2)
  then have t: "tracker_rel ?s (occupied ?s) (sameEdges ?s)" unfolding occ edg .
  have cells: "\<forall>i < length (board_f ?s). board_f ?s ! i = 0 \<or> board_f ?s ! i = 1 \<or> board_f ?s ! i = 2"
    using flat_cells [OF wf] lf by auto
  have "length (board_f ?s) = size_f ?s * size_f ?s" using lf by simp
  moreover have "currentPlayer_f ?s = 1 \<or> currentPlayer_f ?s = 2" using cp by simp
  ultimately have "tracker_inv ?s" using t cells unfolding tracker_inv_def by blast
  moreover have "size_f ?s = size_g g" "board_f ?s = ?flat" by simp_all
  ultimately show ?thesis using new by blast
qed

lemma groups_inv_cong_cs:
  assumes "groups_inv par gs cs M E" "\<forall>j \<in> M. cs' j = cs j"
  shows "groups_inv par gs cs' M E"
proof (rule groups_invI)
  note d = groups_invD [OF assms(1)]
  show "uf_inv par" "length gs = length par" "M \<subseteq> {0 ..< length par}" by (rule d)+
  show "findRoot par (int a) = findRoot par (int b) \<longleftrightarrow> (a, b) \<in> (E \<union> E\<inverse>)\<^sup>*"
    if "a < length par" "b < length par" for a b
    using that by (rule d(4))
  show "bit (gs ! nat r) b \<longleftrightarrow> (\<exists>j \<in> M. findRoot par (int j) = Some r \<and> bit (cs' j) b)"
    if "a < length par" "findRoot par (int a) = Some r" for a r b
    using d(5) [OF that, of b] assms(2) by auto
qed

lemma groups_inv_cong_E:
  assumes "groups_inv par gs cs M E" "E \<union> E\<inverse> = E' \<union> E'\<inverse>"
  shows "groups_inv par gs cs M E'"
  using assms unfolding groups_inv_def by simp

lemma flat_nat:
  assumes "0 \<le> r" "0 \<le> c"
  shows "nat (r * int n + c) = nat r * n + nat c"
  using assms by (simp add: nat_add_distrib nat_mult_distrib)

lemma flat_div_mod:
  assumes "0 \<le> r" "0 \<le> c" "c < int n"
  shows "nat (r * int n + c) div n = nat r" "nat (r * int n + c) mod n = nat c"
proof -
  from assms have "nat c < n" by simp
  then show "nat (r * int n + c) div n = nat r" "nat (r * int n + c) mod n = nat c"
    unfolding flat_nat [OF assms(1,2)] by simp_all
qed

lemma getNeighbors_iff:
  "x \<in> set (getNeighbors g r c) \<longleftrightarrow>
     (0 \<le> fst x \<and> fst x < int (size_g g) \<and> 0 \<le> snd x \<and> snd x < int (size_g g)) \<and>
     (\<exists>d \<in> set [(- 1, 0), (- 1, 1), (0, - 1), (0, 1), (1, - 1), (1, 0)].
        x = (r + fst d, c + snd d))"
proof -
  have "[(r - 1, c), (r - 1, c + 1), (r, c - 1), (r, c + 1), (r + 1, c - 1), (r + 1, c)]
          = map (\<lambda>d. (r + fst d, c + snd d)) [(- 1, 0), (- 1, 1), (0, - 1), (0, 1), (1, - 1), (1, 0)]"
    by simp
  then have "getNeighbors g r c
     = filter (\<lambda>(r, c). r \<ge> 0 \<and> r < int (size_g g) \<and> c \<ge> 0 \<and> c < int (size_g g))
         (map (\<lambda>d. (r + fst d, c + snd d)) [(- 1, 0), (- 1, 1), (0, - 1), (0, 1), (1, - 1), (1, 0)])"
    unfolding getNeighbors_def by (rule arg_cong)
  then have "x \<in> set (getNeighbors g r c) \<longleftrightarrow>
     x \<in> {x \<in> (\<lambda>d. (r + fst d, c + snd d)) ` set [(- 1, 0), (- 1, 1), (0, - 1), (0, 1), (1, - 1), (1, 0)].
            (\<lambda>(r, c). r \<ge> 0 \<and> r < int (size_g g) \<and> c \<ge> 0 \<and> c < int (size_g g)) x}"
    by (simp only: set_filter set_map)
  also have "\<dots> \<longleftrightarrow> (0 \<le> fst x \<and> fst x < int (size_g g) \<and> 0 \<le> snd x \<and> snd x < int (size_g g)) \<and>
     (\<exists>d \<in> set [(- 1, 0), (- 1, 1), (0, - 1), (0, 1), (1, - 1), (1, 0)].
        x = (r + fst d, c + snd d))"
    unfolding mem_Collect_eq case_prod_beta image_iff by (rule conj_commute)
  finally show ?thesis .
qed

lemma offsets_neg:
  "d \<in> set [(- 1, 0), (- 1, 1), (0, - 1), (0, 1), (1, - 1), (1 :: int, 0 :: int)] \<Longrightarrow>
   (- fst d, - snd d) \<in> set [(- 1, 0), (- 1, 1), (0, - 1), (0, 1), (1, - 1), (1 :: int, 0 :: int)]"
  by auto

lemma getNeighbors_sym:
  assumes "x \<in> set (getNeighbors g r c)" "0 \<le> r" "r < int (size_g g)" "0 \<le> c" "c < int (size_g g)"
  shows "(r, c) \<in> set (getNeighbors g (fst x) (snd x))"
proof -
  from assms(1) obtain d where
    d: "d \<in> set [(- 1, 0), (- 1, 1), (0, - 1), (0, 1), (1, - 1), (1 :: int, 0 :: int)]"
       "x = (r + fst d, c + snd d)"
    unfolding getNeighbors_iff by blast
  let ?d = "(- fst d, - snd d)"
  from d(2) have "(r, c) = (fst x + fst ?d, snd x + snd ?d)" by simp
  with offsets_neg [OF d(1)]
  have "\<exists>e \<in> set [(- 1, 0), (- 1, 1), (0, - 1), (0, 1), (1, - 1), (1 :: int, 0 :: int)].
          (r, c) = (fst x + fst e, snd x + snd e)" by (rule rev_bexI)
  with assms(2-) show ?thesis unfolding getNeighbors_iff [of "(r, c)"]
    by (simp only: fst_conv snd_conv simp_thms)
qed

lemma getNeighborsIdx_sym:
  assumes nb: "nb \<in> set (getNeighborsIdx s i)" and i: "i < size_f s * size_f s"
  shows "i \<in> set (getNeighborsIdx s nb)"
proof -
  let ?n = "size_f s"
  let ?g = "gridOf s"
  from i have pos: "0 < ?n" by (cases "?n") simp_all
  have r: "i div ?n < ?n" using i by (simp add: less_mult_imp_div_less)
  have c: "i mod ?n < ?n" using pos by simp
  from nb obtain x where x: "x \<in> set (getNeighbors ?g (int (i div ?n)) (int (i mod ?n)))"
    "nb = nat (fst x * int ?n + snd x)"
    unfolding getNeighborsIdx_eq by (auto simp: case_prod_beta)
  have sz: "size_g ?g = ?n" by (simp add: gridOf_def)
  from getNeighbors_range [OF x(1)] sz
  have xr: "0 \<le> fst x" "fst x < int ?n" "0 \<le> snd x" "snd x < int ?n" by simp_all
  from flat_div_mod [OF xr(1,3,4)] x(2) xr
  have dm: "int (nb div ?n) = fst x" "int (nb mod ?n) = snd x" by simp_all
  from getNeighbors_sym [OF x(1)] r c sz
  have "(int (i div ?n), int (i mod ?n)) \<in> set (getNeighbors ?g (fst x) (snd x))" by simp
  then have "nat (int (i div ?n) * int ?n + int (i mod ?n)) \<in> set (getNeighborsIdx s nb)"
    unfolding getNeighborsIdx_eq [of s nb] dm by force
  moreover have "nat (int (i div ?n) * int ?n + int (i mod ?n)) = i"
    by (simp add: flat_nat)
  ultimately show ?thesis by simp
qed

lemma symcl_eqI:
  assumes "E \<subseteq> S" "S \<subseteq> E \<union> E\<inverse>"
  shows "E \<union> E\<inverse> = S \<union> S\<inverse>"
  using assms by blast

lemma tracker_rel_cong:
  assumes t: "tracker_rel s M E"
    and f: "parent s' = parent s" "groupStatus s' = groupStatus s" "size_f s' = size_f s"
      "length (board_f s') = length (board_f s)"
    and b: "\<forall>j \<in> M. board_f s' ! j = board_f s ! j"
    and e: "E \<union> E\<inverse> = E' \<union> E'\<inverse>"
  shows "tracker_rel s' M E'"
proof -
  from t have len: "length (parent s) = length (board_f s)"
    and t0: "groups_inv (parent s) (groupStatus s) (\<lambda>j. cellStatus (size_f s) j (board_f s ! j)) M E"
    by (simp_all add: tracker_rel_def)
  from b have "\<forall>j \<in> M. cellStatus (size_f s) j (board_f s' ! j) = cellStatus (size_f s) j (board_f s ! j)"
    by simp
  from groups_inv_cong_E [OF groups_inv_cong_cs [OF t0 this] e] len f show ?thesis
    by (simp add: tracker_rel_def)
qed

lemma placeStone_ok:
  assumes inv: "tracker_inv s" and idx: "idx < length (board_f s)" and emp: "board_f s ! idx = 0"
  shows "\<exists>s'. placeStone s idx = Some s' \<and> tracker_inv s' \<and> size_f s' = size_f s \<and>
           board_f s' = (board_f s)[idx := currentPlayer_f s]"
proof -
  let ?p = "currentPlayer_f s"
  let ?b = "(board_f s)[idx := ?p]"
  from inv have len: "length (board_f s) = size_f s * size_f s"
    and cells: "\<forall>i < length (board_f s). board_f s ! i = 0 \<or> board_f s ! i = 1 \<or> board_f s ! i = 2"
    and cp: "?p = 1 \<or> ?p = 2"
    and t: "tracker_rel s (occupied s) (sameEdges s)"
    by (simp_all add: tracker_inv_def)
  define s1 where "s1 = s \<lparr> board_f := ?b, movesHistory := movesHistory s @ [(idx, ?p)],
                            emptyCells := removeEmpty (emptyCells s) idx \<rparr>"
  have s1: "board_f s1 = ?b" "size_f s1 = size_f s" "parent s1 = parent s"
    "groupStatus s1 = groupStatus s" "currentPlayer_f s1 = ?p"
    by (simp_all add: s1_def)
  have occ_ne: "j \<noteq> idx" if "j \<in> occupied s" for j using that emp by (auto simp: occupied_def)
  have t1: "tracker_rel s1 (occupied s) (sameEdges s)"
  proof (rule tracker_rel_cong [OF t])
    show "\<forall>j \<in> occupied s. board_f s1 ! j = board_f s ! j"
    proof
      fix j assume "j \<in> occupied s"
      from occ_ne [OF this] show "board_f s1 ! j = board_f s ! j" by (simp add: s1)
    qed
  qed (simp_all add: s1)
  from idx have idx1: "idx < length (board_f s1)" by (simp add: s1)
  from idx have at: "board_f s1 ! idx = ?p" by (simp add: s1)
  from initCell_ok [OF t1 idx1] obtain par2 gs2 where
    2: "initCell s1 idx ?p = Some (s1 \<lparr> parent := par2, groupStatus := gs2 \<rparr>)"
       "tracker_rel (s1 \<lparr> parent := par2, groupStatus := gs2 \<rparr>) (insert idx (occupied s)) (sameEdges s)"
    unfolding at by blast
  define s2 where "s2 = s1 \<lparr> parent := par2, groupStatus := gs2 \<rparr>"
  have s2: "board_f s2 = ?b" "size_f s2 = size_f s" by (simp_all add: s2_def s1)
  have len2: "length (board_f s2) = size_f s2 * size_f s2" using len by (simp add: s2)
  have nb2: "\<forall>n \<in> set (getNeighborsIdx s2 idx). n < length (board_f s2)"
    using getNeighborsIdx_less [OF _ len2] by blast
  from idx have idx2: "idx < length (board_f s2)" by (simp add: s2)
  define E3 where "E3 = sameEdges s \<union> {(idx, n) | n. n \<in> set (getNeighborsIdx s2 idx) \<and>
                                                      board_f s2 ! n = ?p}"
  from unionNeighbors_ok [OF 2(2) [folded s2_def] idx2 nb2, of ?p] obtain par3 gs3 where
    3: "unionNeighbors s2 idx ?p (getNeighborsIdx s2 idx)
          = Some (s2 \<lparr> parent := par3, groupStatus := gs3 \<rparr>)"
       "tracker_rel (s2 \<lparr> parent := par3, groupStatus := gs3 \<rparr>) (insert idx (occupied s)) E3"
    unfolding E3_def by blast
  define s3 where "s3 = s2 \<lparr> parent := par3, groupStatus := gs3 \<rparr>"
  define s' where "s' = s3 \<lparr> currentPlayer_f := (if ?p = 1 then 2 else 1) \<rparr>"
  have s': "board_f s' = ?b" "size_f s' = size_f s" "parent s' = parent s3"
    "groupStatus s' = groupStatus s3" "board_f s3 = ?b" "size_f s3 = size_f s"
    by (simp_all add: s'_def s3_def s2)
  from 2(1) have i2: "initCell s1 idx ?p = Some s2" by (simp add: s2_def)
  from 3(1) have u3: "unionNeighbors s2 idx ?p (getNeighborsIdx s2 idx) = Some s3"
    by (simp add: s3_def)
  have "placeStone s idx
          = (case initCell s1 idx ?p of
               None \<Rightarrow> None
             | Some s2 \<Rightarrow>
                (case unionNeighbors s2 idx ?p (getNeighborsIdx s2 idx) of
                   None \<Rightarrow> None
                 | Some s3 \<Rightarrow> Some (s3 \<lparr> currentPlayer_f := (if ?p = 1 then 2 else 1) \<rparr>)))"
    using idx unfolding placeStone_def Let_def s1_def by simp
  then have ps: "placeStone s idx = Some s'" by (simp add: i2 u3 s'_def)
  have nbs: "getNeighborsIdx s' k = getNeighborsIdx s k" "getNeighborsIdx s2 k = getNeighborsIdx s k"
    for k by (simp_all add: getNeighborsIdx_def s' s2)
  from cp have p0: "?p \<noteq> 0" by auto
  have occ: "insert idx (occupied s) = occupied s'"
    using idx p0 emp by (auto simp: occupied_def s' nth_list_update)
  have sub1: "E3 \<subseteq> sameEdges s'"
  proof
    fix x assume "x \<in> E3"
    then consider "x \<in> sameEdges s"
      | n where "x = (idx, n)" "n \<in> set (getNeighborsIdx s idx)" "?b ! n = ?p"
      unfolding E3_def nbs s2 by blast
    then show "x \<in> sameEdges s'"
    proof cases
      case 1
      then obtain i n where x: "x = (i, n)" "i < length (board_f s)" "board_f s ! i \<noteq> 0"
        "n \<in> set (getNeighborsIdx s i)" "board_f s ! n = board_f s ! i"
        by (auto simp: sameEdges_def)
      with emp have "i \<noteq> idx" "n \<noteq> idx" by auto
      with x show ?thesis by (simp add: sameEdges_def s' nbs)
    next
      case 2
      with idx p0 show ?thesis by (simp add: sameEdges_def s' nbs)
    qed
  qed
  have sub2: "sameEdges s' \<subseteq> E3 \<union> E3\<inverse>"
  proof
    fix x assume "x \<in> sameEdges s'"
    then obtain i n where x: "x = (i, n)" "i < length (board_f s)" "?b ! i \<noteq> 0"
      "n \<in> set (getNeighborsIdx s i)" "?b ! n = ?b ! i"
      by (auto simp: sameEdges_def s' nbs)
    show "x \<in> E3 \<union> E3\<inverse>"
    proof (cases "i = idx")
      case True
      with x idx have "(idx, n) \<in> E3" unfolding E3_def nbs s2 by simp
      with True x(1) show ?thesis by simp
    next
      case False
      show ?thesis
      proof (cases "n = idx")
        case True
        from x(2) len have "i < size_f s * size_f s" by simp
        from getNeighborsIdx_sym [OF x(4) this] True have "i \<in> set (getNeighborsIdx s idx)" by simp
        moreover from x(5) True idx have "?b ! i = ?p" by simp
        ultimately have "(idx, i) \<in> E3" unfolding E3_def nbs s2 by simp
        with True x(1) show ?thesis by simp
      next
        case n: False
        with False x have "(i, n) \<in> sameEdges s" by (simp add: sameEdges_def)
        with x(1) show ?thesis unfolding E3_def by simp
      qed
    qed
  qed
  have t3: "tracker_rel s3 (insert idx (occupied s)) E3" using 3(2) by (simp add: s3_def)
  have "tracker_rel s' (insert idx (occupied s)) (sameEdges s')"
    by (rule tracker_rel_cong [OF t3 _ _ _ _ _ symcl_eqI [OF sub1 sub2]]) (simp_all add: s')
  then have t': "tracker_rel s' (occupied s') (sameEdges s')" unfolding occ .
  have "length (board_f s') = size_f s' * size_f s'" using len by (simp add: s')
  moreover have "\<forall>i < length (board_f s'). board_f s' ! i = 0 \<or> board_f s' ! i = 1 \<or> board_f s' ! i = 2"
  proof (intro allI impI)
    fix i assume "i < length (board_f s')"
    then have i: "i < length (board_f s)" by (simp add: s')
    show "board_f s' ! i = 0 \<or> board_f s' ! i = 1 \<or> board_f s' ! i = 2"
    proof (cases "i = idx")
      case True
      with i have "board_f s' ! i = ?p" by (simp add: s')
      with cp show ?thesis by simp
    next
      case False
      then have "board_f s' ! i = board_f s ! i" by (simp add: s')
      with cells i show ?thesis by simp
    qed
  qed
  moreover have "currentPlayer_f s' = 1 \<or> currentPlayer_f s' = 2" by (simp add: s'_def)
  ultimately have "tracker_inv s'" using t' unfolding tracker_inv_def by blast
  with ps s'(1,2) show ?thesis by blast
qed

lemma tracker_inv_frame:
  assumes "board_f s' = board_f s" "size_f s' = size_f s" "currentPlayer_f s' = currentPlayer_f s"
    "parent s' = parent s" "groupStatus s' = groupStatus s"
  shows "tracker_inv s' = tracker_inv s"
proof -
  have "occupied s' = occupied s" using assms by (simp add: occupied_def)
  moreover have "sameEdges s' = sameEdges s" using assms
    by (simp add: sameEdges_def getNeighborsIdx_def)
  moreover have "tracker_rel s' M E = tracker_rel s M E" for M E using assms by (simp add: tracker_rel_def)
  ultimately show ?thesis using assms by (simp add: tracker_inv_def)
qed

lemma flat_less: "r < n \<Longrightarrow> c < n \<Longrightarrow> r * n + c < n * (n :: nat)"
proof -
  assume "r < n" "c < n"
  then have "Suc r * n \<le> n * n" by (intro mult_le_mono1) simp
  with \<open>c < n\<close> show ?thesis by simp
qed

lemma flat_inj:
  assumes "r * n + c = r' * n + c'" "c < n" "c' < (n :: nat)"
  shows "r = r' \<and> c = c'"
proof -
  from assms(2) have "(r * n + c) div n = r" "(r * n + c) mod n = c" by simp_all
  moreover from assms(3) have "(r' * n + c') div n = r'" "(r' * n + c') mod n = c'" by simp_all
  ultimately show ?thesis using assms(1) by simp
qed

lemma makeMove_f_ok:
  assumes inv: "tracker_inv s" and r: "r < size_f s" and c: "c < size_f s"
    and emp: "board_f s ! (r * size_f s + c) = 0"
  shows "\<exists>s'. makeMove_f s r c = Some s' \<and> tracker_inv s' \<and> size_f s' = size_f s \<and>
           board_f s' = (board_f s)[r * size_f s + c := currentPlayer_f s]"
proof -
  let ?s = "s \<lparr> filledCount := filledCount s + 1 \<rparr>"
  have "tracker_inv ?s = tracker_inv s" by (rule tracker_inv_frame) simp_all
  with inv have inv': "tracker_inv ?s" by simp
  from inv have "length (board_f s) = size_f s * size_f s" by (simp add: tracker_inv_def)
  with flat_less [OF r c] have idx: "r * size_f s + c < length (board_f ?s)" by simp
  from emp have emp': "board_f ?s ! (r * size_f s + c) = 0" by simp
  from placeStone_ok [OF inv' idx emp'] show ?thesis by (simp add: makeMove_f_def)
qed

lemma replay_ok:
  assumes "tracker_inv s" "distinct ms"
    "\<forall>m \<in> set ms. fst m < size_f s \<and> snd m < size_f s \<and>
                    board_f s ! (fst m * size_f s + snd m) = 0"
  shows "\<exists>s'. runOps s (map (\<lambda>m. MakeMove (fst m) (snd m)) ms) = Some s' \<and> tracker_inv s' \<and>
           size_f s' = size_f s"
  using assms
proof (induction ms arbitrary: s)
  case Nil
  then show ?case by simp
next
  case (Cons m ms)
  let ?n = "size_f s"
  from Cons.prems(3) have m: "fst m < ?n" "snd m < ?n" "board_f s ! (fst m * ?n + snd m) = 0"
    by simp_all
  from makeMove_f_ok [OF Cons.prems(1) m] obtain s1 where
    1: "makeMove_f s (fst m) (snd m) = Some s1" "tracker_inv s1" "size_f s1 = ?n"
       "board_f s1 = (board_f s)[fst m * ?n + snd m := currentPlayer_f s]" by blast
  have "\<forall>m' \<in> set ms. fst m' < size_f s1 \<and> snd m' < size_f s1 \<and>
                    board_f s1 ! (fst m' * size_f s1 + snd m') = 0"
  proof
    fix m' assume m': "m' \<in> set ms"
    with Cons.prems(3) have a: "fst m' < ?n" "snd m' < ?n" "board_f s ! (fst m' * ?n + snd m') = 0"
      by simp_all
    from m' Cons.prems(2) have "m' \<noteq> m" by auto
    then have "fst m' * ?n + snd m' \<noteq> fst m * ?n + snd m"
      using flat_inj [of "fst m'" ?n "snd m'" "fst m" "snd m"] a(2) m(2) by (auto simp: prod_eq_iff)
    with a 1(3,4) show "fst m' < size_f s1 \<and> snd m' < size_f s1 \<and>
                    board_f s1 ! (fst m' * size_f s1 + snd m') = 0" by simp
  qed
  moreover from Cons.prems(2) have "distinct ms" by simp
  ultimately obtain s' where
    "runOps s1 (map (\<lambda>m. MakeMove (fst m) (snd m)) ms) = Some s'" "tracker_inv s'"
    "size_f s' = size_f s1" using Cons.IH [OF 1(2)] by blast
  with 1(1,3) show ?case by simp
qed

lemma bit_word_cases:
  fixes w :: "8 word"
  shows "bit (1 :: 8 word) b \<longleftrightarrow> b = 0"
    and "bit (2 :: 8 word) b \<longleftrightarrow> b = 1"
    and "bit (4 :: 8 word) b \<longleftrightarrow> b = 2"
    and "bit (8 :: 8 word) b \<longleftrightarrow> b = 3"
proof -
  show "bit (1 :: 8 word) b \<longleftrightarrow> b = 0" by (simp add: bit_1_iff)
  have p: "(2 :: 8 word) = push_bit 1 1" "(4 :: 8 word) = push_bit 2 1" "(8 :: 8 word) = push_bit 3 1"
    by simp_all
  show "bit (2 :: 8 word) b \<longleftrightarrow> b = 1" unfolding p(1) bit_push_bit_iff
    by (auto simp: bit_1_iff simp del: push_bit_of_1)
  show "bit (4 :: 8 word) b \<longleftrightarrow> b = 2" unfolding p(2) bit_push_bit_iff
    by (auto simp: bit_1_iff simp del: push_bit_of_1)
  show "bit (8 :: 8 word) b \<longleftrightarrow> b = 3" unfolding p(3) bit_push_bit_iff
    by (auto simp: bit_1_iff simp del: push_bit_of_1)
qed

lemma mask3: "(w AND 3 = (3 :: 8 word)) \<longleftrightarrow> bit w 0 \<and> bit w 1"
proof
  have 3: "(3 :: 8 word) = 1 OR 2" by simp
  assume "w AND 3 = 3"
  then have "bit (w AND (1 OR 2)) n = bit (1 OR 2 :: 8 word) n" for n unfolding 3 by simp
  from this [of 0] this [of 1] show "bit w 0 \<and> bit w 1"
    unfolding bit_and_iff bit_or_iff bit_word_cases by simp
next
  have 3: "(3 :: 8 word) = 1 OR 2" by simp
  assume "bit w 0 \<and> bit w 1"
  then have "bit (w AND (1 OR 2)) n = bit (1 OR 2 :: 8 word) n" for n
    unfolding bit_and_iff bit_or_iff bit_word_cases by auto
  then show "w AND 3 = 3" unfolding 3 by (intro bit_eqI)
qed

lemma mask12: "(w AND 12 = (12 :: 8 word)) \<longleftrightarrow> bit w 2 \<and> bit w 3"
proof
  have 3: "(12 :: 8 word) = 4 OR 8" by simp
  assume "w AND 12 = 12"
  then have "bit (w AND (4 OR 8)) n = bit (4 OR 8 :: 8 word) n" for n unfolding 3 by simp
  from this [of 2] this [of 3] show "bit w 2 \<and> bit w 3"
    unfolding bit_and_iff bit_or_iff bit_word_cases by simp
next
  have 3: "(12 :: 8 word) = 4 OR 8" by simp
  assume "bit w 2 \<and> bit w 3"
  then have "bit (w AND (4 OR 8)) n = bit (4 OR 8 :: 8 word) n" for n
    unfolding bit_and_iff bit_or_iff bit_word_cases by auto
  then show "w AND 12 = 12" unfolding 3 by (intro bit_eqI)
qed

lemma bit_if_zero: "bit (if c then v else (0 :: 8 word)) b \<longleftrightarrow> c \<and> bit v b"
  by simp

lemma cellStatus_bits_red:
  "bit (cellStatus n idx 1) b \<longleftrightarrow>
     (idx div n = 0 \<and> b = 0) \<or> (int (idx div n) = int n - 1 \<and> b = 1)"
proof -
  have "cellStatus n idx 1 = (if idx div n = 0 then 1 else 0)
           OR (if int (idx div n) = int n - 1 then 2 else 0)"
    by (simp add: cellStatus_def Let_def)
  then show ?thesis by (simp only: bit_or_iff bit_if_zero bit_word_cases)
qed

lemma cellStatus_bits_blue:
  "p \<noteq> 1 \<Longrightarrow> bit (cellStatus n idx p) b \<longleftrightarrow>
     (idx mod n = 0 \<and> b = 2) \<or> (int (idx mod n) = int n - 1 \<and> b = 3)"
proof -
  assume "p \<noteq> 1"
  then have "cellStatus n idx p = (if idx mod n = 0 then 4 else 0)
           OR (if int (idx mod n) = int n - 1 then 8 else 0)"
    by (simp add: cellStatus_def Let_def)
  then show ?thesis by (simp only: bit_or_iff bit_if_zero bit_word_cases)
qed


lemma tracker_rel_find:
  assumes inv: "tracker_rel s M E" and i: "i < length (board_f s)"
  shows "\<exists>par rt. find (parent s) (int i) = Some (par, rt) \<and>
           findRoot (parent s) (int i) = Some rt \<and> tracker_rel (s \<lparr> parent := par \<rparr>) M E \<and>
           (\<forall>j < length (board_f s). findRoot par (int j) = findRoot (parent s) (int j))"
proof -
  from inv have len: "length (parent s) = length (board_f s)"
    and t0: "groups_inv (parent s) (groupStatus s) (\<lambda>j. cellStatus (size_f s) j (board_f s ! j)) M E"
    by (simp_all add: tracker_rel_def)
  from i len have "i < length (parent s)" by simp
  from groups_inv_find [OF t0 this] obtain par rt where
    f: "find (parent s) (int i) = Some (par, rt)" "findRoot (parent s) (int i) = Some rt"
       "length par = length (parent s)"
       "groups_inv par (groupStatus s) (\<lambda>j. cellStatus (size_f s) j (board_f s ! j)) M E"
       "\<forall>j < length (parent s). findRoot par (int j) = findRoot (parent s) (int j)" by blast
  from f(3,4) len have "tracker_rel (s \<lparr> parent := par \<rparr>) M E" by (simp add: tracker_rel_def)
  with f(1,2,5) len show ?thesis by auto
qed

lemma checkWinLoop_ok:
  assumes "tracker_rel s M E" "\<forall>i \<in> set js. i < length (board_f s)"
  shows "\<exists>b s'. checkWinLoop p msk js s = Some (b, s') \<and>
           (b \<longleftrightarrow> (\<exists>i \<in> set js. board_f s ! i = p \<and>
                     (\<exists>r. findRoot (parent s) (int i) = Some r \<and>
                          (groupStatus s ! nat r) AND msk = msk)))"
  using assms
proof (induction js arbitrary: s)
  case Nil
  show ?case by (intro exI [of _ False] exI [of _ s]) simp
next
  case (Cons i js)
  from Cons.prems have i: "i < length (board_f s)" and js: "\<forall>i \<in> set js. i < length (board_f s)"
    by simp_all
  show ?case
  proof (cases "board_f s ! i = p")
    case False
    from Cons.IH [OF Cons.prems(1) js] obtain b s' where
      "checkWinLoop p msk js s = Some (b, s')"
      "b \<longleftrightarrow> (\<exists>i \<in> set js. board_f s ! i = p \<and>
                     (\<exists>r. findRoot (parent s) (int i) = Some r \<and>
                          (groupStatus s ! nat r) AND msk = msk))" by blast
    with False show ?thesis by auto
  next
    case True
    from tracker_rel_find [OF Cons.prems(1) i] obtain par rt where
      f: "find (parent s) (int i) = Some (par, rt)" "findRoot (parent s) (int i) = Some rt"
         "tracker_rel (s \<lparr> parent := par \<rparr>) M E"
         "\<forall>j < length (board_f s). findRoot par (int j) = findRoot (parent s) (int j)" by blast
    show ?thesis
    proof (cases "(groupStatus s ! nat rt) AND msk = msk")
      case win: True
      with True f(1) have "checkWinLoop p msk (i # js) s = Some (True, s \<lparr> parent := par \<rparr>)"
        by simp
      moreover from True f(2) win
      have "\<exists>i' \<in> set (i # js). board_f s ! i' = p \<and>
                     (\<exists>r. findRoot (parent s) (int i') = Some r \<and>
                          (groupStatus s ! nat r) AND msk = msk)" by auto
      ultimately show ?thesis by blast
    next
      case nowin: False
      let ?s1 = "s \<lparr> parent := par \<rparr>"
      from js have "\<forall>i \<in> set js. i < length (board_f ?s1)" by simp
      from Cons.IH [OF f(3) this] obtain b s' where
        r: "checkWinLoop p msk js ?s1 = Some (b, s')"
        "b \<longleftrightarrow> (\<exists>i \<in> set js. board_f ?s1 ! i = p \<and>
                     (\<exists>r. findRoot (parent ?s1) (int i) = Some r \<and>
                          (groupStatus ?s1 ! nat r) AND msk = msk))" by blast
      have same: "findRoot (parent ?s1) (int j) = findRoot (parent s) (int j)" if "j \<in> set js" for j
        using that js f(4) by simp
      from r(2) have b: "b \<longleftrightarrow> (\<exists>i \<in> set js. board_f s ! i = p \<and>
                     (\<exists>r. findRoot (parent s) (int i) = Some r \<and>
                          (groupStatus s ! nat r) AND msk = msk))"
        using same by auto
      from True f(1) nowin r(1) have "checkWinLoop p msk (i # js) s = Some (b, s')" by simp
      moreover from b f(2) nowin
      have "b \<longleftrightarrow> (\<exists>i' \<in> set (i # js). board_f s ! i' = p \<and>
                     (\<exists>r. findRoot (parent s) (int i') = Some r \<and>
                          (groupStatus s ! nat r) AND msk = msk))" by auto
      ultimately show ?thesis by blast
    qed
  qed
qed

lemma sameEdges_colour:
  assumes "(i, j) \<in> (sameEdges s \<union> (sameEdges s)\<inverse>)\<^sup>*"
  shows "board_f s ! j = board_f s ! i"
  using assms by (induction rule: rtrancl_induct) (auto simp: sameEdges_def)

lemma sameEdges_range:
  assumes "(i, j) \<in> (sameEdges s \<union> (sameEdges s)\<inverse>)\<^sup>*" "i < length (board_f s)"
    "length (board_f s) = size_f s * size_f s"
  shows "j < length (board_f s)"
  using assms(1,2)
proof (induction rule: rtrancl_induct)
  case base
  then show ?case .
next
  case (step j k)
  from step.hyps(2) show ?case
    using getNeighborsIdx_less [OF _ assms(3)] by (auto simp: sameEdges_def)
qed

lemma status_bit:
  assumes inv: "tracker_inv s" and i: "i < length (board_f s)" and col: "board_f s ! i = p"
    and p0: "p \<noteq> 0" and r: "findRoot (parent s) (int i) = Some r"
  shows "bit (groupStatus s ! nat r) \<beta> \<longleftrightarrow>
           (\<exists>j < length (board_f s). board_f s ! j = p \<and>
              (i, j) \<in> (sameEdges s \<union> (sameEdges s)\<inverse>)\<^sup>* \<and>
              bit (cellStatus (size_f s) j p) \<beta>)"
proof -
  from inv have len: "length (parent s) = length (board_f s)"
    and t0: "groups_inv (parent s) (groupStatus s) (\<lambda>j. cellStatus (size_f s) j (board_f s ! j))
               (occupied s) (sameEdges s)"
    by (simp_all add: tracker_inv_def tracker_rel_def)
  note d = groups_invD [OF t0]
  from i len have i': "i < length (parent s)" by simp
  have "bit (groupStatus s ! nat r) \<beta> \<longleftrightarrow>
          (\<exists>j \<in> occupied s. findRoot (parent s) (int j) = Some r \<and>
                bit (cellStatus (size_f s) j (board_f s ! j)) \<beta>)"
    by (rule d(5) [OF i' r])
  also have "\<dots> \<longleftrightarrow> (\<exists>j < length (board_f s). board_f s ! j = p \<and>
              (i, j) \<in> (sameEdges s \<union> (sameEdges s)\<inverse>)\<^sup>* \<and>
              bit (cellStatus (size_f s) j p) \<beta>)"
  proof
    assume "\<exists>j \<in> occupied s. findRoot (parent s) (int j) = Some r \<and>
                bit (cellStatus (size_f s) j (board_f s ! j)) \<beta>"
    then obtain j where j: "j \<in> occupied s" "findRoot (parent s) (int j) = Some r"
      "bit (cellStatus (size_f s) j (board_f s ! j)) \<beta>" by blast
    from j(1) have jl: "j < length (board_f s)" by (simp add: occupied_def)
    with len have "j < length (parent s)" by simp
    from d(4) [OF i' this] r j(2) have cl: "(i, j) \<in> (sameEdges s \<union> (sameEdges s)\<inverse>)\<^sup>*" by simp
    from sameEdges_colour [OF cl] col have "board_f s ! j = p" by simp
    with jl cl j(3) show "\<exists>j < length (board_f s). board_f s ! j = p \<and>
              (i, j) \<in> (sameEdges s \<union> (sameEdges s)\<inverse>)\<^sup>* \<and>
              bit (cellStatus (size_f s) j p) \<beta>" by auto
  next
    assume "\<exists>j < length (board_f s). board_f s ! j = p \<and>
              (i, j) \<in> (sameEdges s \<union> (sameEdges s)\<inverse>)\<^sup>* \<and>
              bit (cellStatus (size_f s) j p) \<beta>"
    then obtain j where j: "j < length (board_f s)" "board_f s ! j = p"
      "(i, j) \<in> (sameEdges s \<union> (sameEdges s)\<inverse>)\<^sup>*" "bit (cellStatus (size_f s) j p) \<beta>"
      by blast
    from j(1,2) p0 have "j \<in> occupied s" by (simp add: occupied_def)
    moreover from j(1) len have "j < length (parent s)" by simp
    from d(4) [OF i' this] j(3) r have "findRoot (parent s) (int j) = Some r" by simp
    ultimately show "\<exists>j \<in> occupied s. findRoot (parent s) (int j) = Some r \<and>
                bit (cellStatus (size_f s) j (board_f s ! j)) \<beta>" using j(2,4) by auto
  qed
  finally show ?thesis .
qed

lemma checkWin_f_iff:
  assumes inv: "tracker_inv s" and p: "p = 1 \<or> p = 2"
  shows "\<exists>b s'. checkWin_f s p = Some (b, s') \<and>
     (b \<longleftrightarrow> (\<exists>j k. j < length (board_f s) \<and> k < length (board_f s) \<and>
                  board_f s ! j = p \<and> board_f s ! k = p \<and>
                  (j, k) \<in> (sameEdges s \<union> (sameEdges s)\<inverse>)\<^sup>* \<and>
                  (if p = 1 then j div size_f s = 0 \<and> int (k div size_f s) = int (size_f s) - 1
                   else j mod size_f s = 0 \<and> int (k mod size_f s) = int (size_f s) - 1)))"
proof -
  let ?N = "length (board_f s)" and ?n = "size_f s"
  let ?cl = "(sameEdges s \<union> (sameEdges s)\<inverse>)\<^sup>*"
  let ?msk = "(if p = 1 then 3 else 12) :: 8 word"
  from inv have t: "tracker_rel s (occupied s) (sameEdges s)"
    and len: "length (parent s) = ?N" by (simp_all add: tracker_inv_def tracker_rel_def)
  from t have u: "uf_inv (parent s)" by (simp add: tracker_rel_def groups_inv_def)
  from p have p0: "p \<noteq> 0" by auto
  have "\<forall>i \<in> set [0 ..< ?N]. i < ?N" by simp
  from checkWinLoop_ok [OF t this, of p ?msk] obtain b s' where
    c0: "checkWinLoop p ?msk [0 ..< ?N] s = Some (b, s')"
    and b0: "b \<longleftrightarrow> (\<exists>i \<in> set [0 ..< ?N]. board_f s ! i = p \<and>
                     (\<exists>r. findRoot (parent s) (int i) = Some r \<and>
                          (groupStatus s ! nat r) AND ?msk = ?msk))"
    by blast
  from c0 have c: "checkWin_f s p = Some (b, s')" by (simp add: checkWin_f_def)
  have b: "b \<longleftrightarrow> (\<exists>i < ?N. board_f s ! i = p \<and>
                     (\<exists>r. findRoot (parent s) (int i) = Some r \<and>
                          (groupStatus s ! nat r) AND ?msk = ?msk))"
    unfolding b0 by (simp only: set_upt atLeastLessThan_iff Bex_def) auto
  let ?start = "\<lambda>j. if p = 1 then j div ?n = 0 else j mod ?n = 0"
  let ?goal = "\<lambda>k. if p = 1 then int (k div ?n) = int ?n - 1 else int (k mod ?n) = int ?n - 1"
  have one: "(\<exists>r. findRoot (parent s) (int i) = Some r \<and> (groupStatus s ! nat r) AND ?msk = ?msk)
      \<longleftrightarrow> (\<exists>j < ?N. board_f s ! j = p \<and> (i, j) \<in> ?cl \<and> ?start j) \<and>
          (\<exists>k < ?N. board_f s ! k = p \<and> (i, k) \<in> ?cl \<and> ?goal k)"
    if i: "i < ?N" "board_f s ! i = p" for i
  proof -
    from i(1) len have "i < length (parent s)" by simp
    from findRoot_some [OF u this] obtain r where r: "findRoot (parent s) (int i) = Some r" by blast
    note sb = status_bit [OF inv i p0 r]
    show ?thesis
    proof (cases "p = 1")
      case True
      note sb1 = sb [unfolded True cellStatus_bits_red]
      have "(groupStatus s ! nat r) AND 3 = 3
              \<longleftrightarrow> (\<exists>j < ?N. board_f s ! j = 1 \<and> (i, j) \<in> ?cl \<and> j div ?n = 0) \<and>
                  (\<exists>k < ?N. board_f s ! k = 1 \<and> (i, k) \<in> ?cl \<and> int (k div ?n) = int ?n - 1)"
        unfolding mask3 sb1 [of 0] sb1 [of 1] by simp
      with True r show ?thesis by simp
    next
      case False
      note sb2 = sb [unfolded cellStatus_bits_blue [OF False]]
      have "(groupStatus s ! nat r) AND 12 = 12
              \<longleftrightarrow> (\<exists>j < ?N. board_f s ! j = p \<and> (i, j) \<in> ?cl \<and> j mod ?n = 0) \<and>
                  (\<exists>k < ?N. board_f s ! k = p \<and> (i, k) \<in> ?cl \<and> int (k mod ?n) = int ?n - 1)"
        unfolding mask12 sb2 [of 2] sb2 [of 3] by simp
      with False r show ?thesis by simp
    qed
  qed
  have "b \<longleftrightarrow> (\<exists>j k. j < ?N \<and> k < ?N \<and> board_f s ! j = p \<and> board_f s ! k = p \<and>
                  (j, k) \<in> ?cl \<and> ?start j \<and> ?goal k)"
  proof
    assume b
    with b one obtain i j k where "i < ?N" "board_f s ! i = p"
      and j: "j < ?N" "board_f s ! j = p" "(i, j) \<in> ?cl" "?start j"
      and k: "k < ?N" "board_f s ! k = p" "(i, k) \<in> ?cl" "?goal k" by blast
    from eqcl_sym [OF j(3)] k(3) have "(j, k) \<in> ?cl" by (rule eqcl_trans)
    with j k show "\<exists>j k. j < ?N \<and> k < ?N \<and> board_f s ! j = p \<and> board_f s ! k = p \<and>
                  (j, k) \<in> ?cl \<and> ?start j \<and> ?goal k" by blast
  next
    assume "\<exists>j k. j < ?N \<and> k < ?N \<and> board_f s ! j = p \<and> board_f s ! k = p \<and>
                  (j, k) \<in> ?cl \<and> ?start j \<and> ?goal k"
    then obtain j k where j: "j < ?N" "board_f s ! j = p" "?start j"
      and k: "k < ?N" "board_f s ! k = p" "(j, k) \<in> ?cl" "?goal k" by blast
    have "(j, j) \<in> ?cl" by simp
    with j k one [OF j(1,2)] have "\<exists>r. findRoot (parent s) (int j) = Some r \<and>
        (groupStatus s ! nat r) AND ?msk = ?msk" by blast
    with b j show b by blast
  qed
  then have "b \<longleftrightarrow> (\<exists>j k. j < ?N \<and> k < ?N \<and> board_f s ! j = p \<and> board_f s ! k = p \<and>
                  (j, k) \<in> ?cl \<and>
                  (if p = 1 then j div ?n = 0 \<and> int (k div ?n) = int ?n - 1
                   else j mod ?n = 0 \<and> int (k mod ?n) = int ?n - 1))"
    by (cases "p = 1") simp_all
  with c show ?thesis by blast
qed

lemma fold_visitNeighbor:
  "fst (fold (visitNeighbor g p) ns (V, q))
     = V \<union> {n \<in> set ns. cellAt (board g) (fst n) (snd n) = p} \<and>
   set (snd (fold (visitNeighbor g p) ns (V, q)))
     = set q \<union> ({n \<in> set ns. cellAt (board g) (fst n) (snd n) = p} - V)"
proof (induction ns arbitrary: V q)
  case Nil
  show ?case by simp
next
  case (Cons n ns)
  show ?case
  proof (cases "n \<notin> V \<and> cellAt (board g) (fst n) (snd n) = p")
    case True
    then have "visitNeighbor g p n (V, q) = (insert n V, q @ [n])" by (simp add: visitNeighbor_def)
    with Cons.IH [of "insert n V" "q @ [n]"] True show ?thesis by auto
  next
    case False
    then have "visitNeighbor g p n (V, q) = (V, q)" by (simp add: visitNeighbor_def)
    with Cons.IH [of V q] False show ?thesis by auto
  qed
qed

lemma bfsLoop_correct:
  assumes "set q \<subseteq> V" "S \<subseteq> V" "V \<subseteq> (stepRel g p)\<^sup>* `` S"
    "\<forall>c \<in> V - set q. \<not> goal c \<and> (\<forall>d. (c, d) \<in> stepRel g p \<longrightarrow> d \<in> V)"
  shows "bfsLoop g p goal V q \<longleftrightarrow> (\<exists>c \<in> (stepRel g p)\<^sup>* `` S. goal c)"
  using assms
proof (induction g p goal V q rule: bfsLoop.induct)
  case (1 g p goal V)
  have "(stepRel g p)\<^sup>* `` S \<subseteq> V"
  proof
    fix c assume "c \<in> (stepRel g p)\<^sup>* `` S"
    then obtain a where a: "a \<in> S" "(a, c) \<in> (stepRel g p)\<^sup>*" by blast
    from a(2) show "c \<in> V"
    proof (induction rule: rtrancl_induct)
      case base
      with a(1) 1(2) show ?case by blast
    next
      case (step y z)
      with 1(4) show ?case by (cases z) auto
    qed
  qed
  with 1(4) show ?case by auto
next
  case (2 g p goal V row col queue)
  show ?case
  proof (cases "goal (row, col)")
    case True
    with 2(2,4) show ?thesis by auto
  next
    case False
    let ?vq = "fold (visitNeighbor g p) (getNeighbors g row col) (V, queue)"
    let ?New = "{n \<in> set (getNeighbors g row col). cellAt (board g) (fst n) (snd n) = p}"
    from fold_visitNeighbor [of g p "getNeighbors g row col" V queue]
    have v: "fst ?vq = V \<union> ?New" and q: "set (snd ?vq) = set queue \<union> (?New - V)" by simp_all
    have new: "?New = {d. ((row, col), d) \<in> stepRel g p}" by (auto simp: stepRel_def)
    have a: "set (snd ?vq) \<subseteq> fst ?vq" using 2(2) unfolding v q by auto
    have b: "S \<subseteq> fst ?vq" using 2(3) unfolding v by auto
    have c: "fst ?vq \<subseteq> (stepRel g p)\<^sup>* `` S"
    proof
      fix x assume "x \<in> fst ?vq"
      then consider "x \<in> V" | "((row, col), x) \<in> stepRel g p" unfolding v new by blast
      then show "x \<in> (stepRel g p)\<^sup>* `` S"
      proof cases
        case 1
        with 2(4) show ?thesis by blast
      next
        case st: 2
        from 2(2,4) obtain s where "s \<in> S" "(s, (row, col)) \<in> (stepRel g p)\<^sup>*" by auto
        with st show ?thesis by (meson Image_iff rtrancl.rtrancl_into_rtrancl)
      qed
    qed
    have d: "\<forall>c \<in> fst ?vq - set (snd ?vq).
               \<not> goal c \<and> (\<forall>d. (c, d) \<in> stepRel g p \<longrightarrow> d \<in> fst ?vq)"
    proof
      fix c assume "c \<in> fst ?vq - set (snd ?vq)"
      then have cV: "c \<in> V" "c \<notin> set queue" unfolding v q by auto
      show "\<not> goal c \<and> (\<forall>d. (c, d) \<in> stepRel g p \<longrightarrow> d \<in> fst ?vq)"
      proof (cases "c = (row, col)")
        case True
        with False show ?thesis unfolding v new by auto
      next
        case ne: False
        with cV have "c \<in> V - set ((row, col) # queue)" by simp
        with 2(5) show ?thesis unfolding v by blast
      qed
    qed
    from 2(1) [OF False refl a b c d] False show ?thesis by (simp add: Let_def)
  qed
qed

lemma image_goal:
  assumes "\<And>x. x \<in> S \<longleftrightarrow> (\<exists>k < n. x = f k \<and> P k)"
  shows "(\<exists>c \<in> R\<^sup>* `` S. Q c) \<longleftrightarrow> (\<exists>k < n. P k \<and> (\<exists>c. (f k, c) \<in> R\<^sup>* \<and> Q c))"
  unfolding Image_iff Bex_def assms by blast

lemma checkWin_red:
  "checkWin g PLAYER_RED \<longleftrightarrow>
     (\<exists>col < size_g g. cellAt (board g) 0 (int col) = PLAYER_RED \<and>
        (\<exists>c. ((0, int col), c) \<in> (stepRel g PLAYER_RED)\<^sup>* \<and> fst c = int (size_g g) - 1))"
proof -
  let ?start = "filter (\<lambda>n. cellAt (board g) (fst n) (snd n) = PLAYER_RED)
                       (map (\<lambda>col. (0, int col)) [0 ..< size_g g])"
  let ?goal = "\<lambda>(row, col). row = int (size_g g) - 1"
  have "bfsLoop g PLAYER_RED ?goal (set ?start) ?start
          \<longleftrightarrow> (\<exists>c \<in> (stepRel g PLAYER_RED)\<^sup>* `` set ?start. ?goal c)"
    by (rule bfsLoop_correct) auto
  moreover have "checkWin g PLAYER_RED = bfsLoop g PLAYER_RED ?goal (set ?start) ?start"
    by (simp add: checkWin_def Let_def)
  moreover have "x \<in> set ?start \<longleftrightarrow>
      (\<exists>col < size_g g. x = (0, int col) \<and> cellAt (board g) 0 (int col) = PLAYER_RED)" for x
    by auto
  from image_goal [of "set ?start" "size_g g" "\<lambda>col. (0, int col)"
      "\<lambda>col. cellAt (board g) 0 (int col) = PLAYER_RED" "stepRel g PLAYER_RED" ?goal, OF this]
  have "(\<exists>c \<in> (stepRel g PLAYER_RED)\<^sup>* `` set ?start. ?goal c) \<longleftrightarrow>
      (\<exists>col < size_g g. cellAt (board g) 0 (int col) = PLAYER_RED \<and>
        (\<exists>c. ((0, int col), c) \<in> (stepRel g PLAYER_RED)\<^sup>* \<and> fst c = int (size_g g) - 1))"
    by (simp only: case_prod_beta)
  ultimately show ?thesis by simp
qed

lemma checkWin_blue:
  assumes "p \<noteq> PLAYER_RED"
  shows "checkWin g p \<longleftrightarrow>
     (\<exists>row < size_g g. cellAt (board g) (int row) 0 = PLAYER_BLUE \<and>
        (\<exists>c. ((int row, 0), c) \<in> (stepRel g PLAYER_BLUE)\<^sup>* \<and> snd c = int (size_g g) - 1))"
proof -
  let ?start = "filter (\<lambda>n. cellAt (board g) (fst n) (snd n) = PLAYER_BLUE)
                       (map (\<lambda>row. (int row, 0)) [0 ..< size_g g])"
  let ?goal = "\<lambda>(row, col). col = int (size_g g) - 1"
  have "bfsLoop g PLAYER_BLUE ?goal (set ?start) ?start
          \<longleftrightarrow> (\<exists>c \<in> (stepRel g PLAYER_BLUE)\<^sup>* `` set ?start. ?goal c)"
    by (rule bfsLoop_correct) auto
  moreover from assms have "checkWin g p = bfsLoop g PLAYER_BLUE ?goal (set ?start) ?start"
    by (simp add: checkWin_def Let_def)
  moreover have "x \<in> set ?start \<longleftrightarrow>
      (\<exists>row < size_g g. x = (int row, 0) \<and> cellAt (board g) (int row) 0 = PLAYER_BLUE)" for x
    by auto
  from image_goal [of "set ?start" "size_g g" "\<lambda>row. (int row, 0)"
      "\<lambda>row. cellAt (board g) (int row) 0 = PLAYER_BLUE" "stepRel g PLAYER_BLUE" ?goal, OF this]
  have "(\<exists>c \<in> (stepRel g PLAYER_BLUE)\<^sup>* `` set ?start. ?goal c) \<longleftrightarrow>
      (\<exists>row < size_g g. cellAt (board g) (int row) 0 = PLAYER_BLUE \<and>
        (\<exists>c. ((int row, 0), c) \<in> (stepRel g PLAYER_BLUE)\<^sup>* \<and> snd c = int (size_g g) - 1))"
    by (simp only: case_prod_beta)
  ultimately show ?thesis by simp
qed

lemma cellAt_gridOf:
  assumes "0 \<le> fst x" "fst x < int (size_f s)" "0 \<le> snd x" "snd x < int (size_f s)"
  shows "cellAt (board (gridOf s)) (fst x) (snd x)
           = board_f s ! nat (fst x * int (size_f s) + snd x)"
proof -
  from assms have "nat (fst x) < size_f s" "nat (snd x) < size_f s" by linarith+
  then have "cellAt (board (gridOf s)) (fst x) (snd x)
           = board_f s ! (nat (fst x) * size_f s + nat (snd x))"
    by (simp add: cellAt_def gridOf_def)
  with assms show ?thesis by (simp add: flat_nat)
qed

lemma edge_step:
  assumes k: "k < size_f s * size_f s" and l: "l \<in> set (getNeighborsIdx s k)"
    and col: "board_f s ! l = p"
  shows "((int (k div size_f s), int (k mod size_f s)),
          (int (l div size_f s), int (l mod size_f s))) \<in> stepRel (gridOf s) p"
proof -
  let ?n = "size_f s" and ?g = "gridOf s"
  from l obtain x where x: "x \<in> set (getNeighbors ?g (int (k div ?n)) (int (k mod ?n)))"
    "l = nat (fst x * int ?n + snd x)"
    unfolding getNeighborsIdx_eq by (auto simp: case_prod_beta)
  have sz: "size_g ?g = ?n" by (simp add: gridOf_def)
  from getNeighbors_range [OF x(1)] sz
  have xr: "0 \<le> fst x" "fst x < int ?n" "0 \<le> snd x" "snd x < int ?n" by simp_all
  from flat_div_mod [OF xr(1,3,4)] x(2) xr
  have dm: "int (l div ?n) = fst x" "int (l mod ?n) = snd x" by simp_all
  from cellAt_gridOf [OF xr] x(2) col have "cellAt (board ?g) (fst x) (snd x) = p" by simp
  with x(1) have "((int (k div ?n), int (k mod ?n)), x) \<in> stepRel ?g p"
    by (simp add: stepRel_def)
  then show ?thesis unfolding dm by simp
qed

lemma cl_to_steps:
  assumes len: "length (board_f s) = size_f s * size_f s"
    and j: "j < length (board_f s)" and col: "board_f s ! j = p"
    and cl: "(j, k) \<in> (sameEdges s \<union> (sameEdges s)\<inverse>)\<^sup>*"
  shows "((int (j div size_f s), int (j mod size_f s)),
          (int (k div size_f s), int (k mod size_f s))) \<in> (stepRel (gridOf s) p)\<^sup>*"
  using cl
proof (induction rule: rtrancl_induct)
  case base
  show ?case by simp
next
  case (step k l)
  from sameEdges_range [OF step.hyps(1) j len] len have k: "k < size_f s * size_f s" by simp
  from sameEdges_colour [OF step.hyps(1)] col have ck: "board_f s ! k = p" by simp
  have "l \<in> set (getNeighborsIdx s k) \<and> board_f s ! l = p"
  proof (cases "(k, l) \<in> sameEdges s")
    case True
    with ck show ?thesis by (auto simp: sameEdges_def)
  next
    case False
    with step.hyps(2) have "(l, k) \<in> sameEdges s" by simp
    then have l: "l < length (board_f s)" "k \<in> set (getNeighborsIdx s l)"
      "board_f s ! k = board_f s ! l" by (auto simp: sameEdges_def)
    from getNeighborsIdx_sym [OF l(2)] l(1) len have "l \<in> set (getNeighborsIdx s k)" by simp
    with l(3) ck show ?thesis by simp
  qed
  with edge_step [OF k] have "((int (k div size_f s), int (k mod size_f s)),
          (int (l div size_f s), int (l mod size_f s))) \<in> stepRel (gridOf s) p" by blast
  with step.IH show ?case by (rule rtrancl_into_rtrancl)
qed

lemma steps_to_cl:
  assumes len: "length (board_f s) = size_f s * size_f s"
    and a: "0 \<le> fst a" "fst a < int (size_f s)" "0 \<le> snd a" "snd a < int (size_f s)"
    and col: "board_f s ! nat (fst a * int (size_f s) + snd a) = p" and p0: "p \<noteq> 0"
    and st: "(a, b) \<in> (stepRel (gridOf s) p)\<^sup>*"
  shows "0 \<le> fst b \<and> fst b < int (size_f s) \<and> 0 \<le> snd b \<and> snd b < int (size_f s) \<and>
         board_f s ! nat (fst b * int (size_f s) + snd b) = p \<and>
         (nat (fst a * int (size_f s) + snd a), nat (fst b * int (size_f s) + snd b))
           \<in> (sameEdges s \<union> (sameEdges s)\<inverse>)\<^sup>*"
  using st
proof (induction rule: rtrancl_induct)
  case base
  from a col show ?case by simp
next
  case (step b c)
  let ?n = "size_f s" and ?g = "gridOf s"
  let ?f = "\<lambda>x. nat (fst x * int ?n + snd x)"
  from step.IH have b: "0 \<le> fst b" "fst b < int ?n" "0 \<le> snd b" "snd b < int ?n"
    and cb: "board_f s ! ?f b = p"
    and cl: "(?f a, ?f b) \<in> (sameEdges s \<union> (sameEdges s)\<inverse>)\<^sup>*" by simp_all
  from step.hyps(2) have c: "c \<in> set (getNeighbors ?g (fst b) (snd b))"
    "cellAt (board ?g) (fst c) (snd c) = p" by (simp_all add: stepRel_def)
  have sz: "size_g ?g = ?n" by (simp add: gridOf_def)
  from getNeighbors_range [OF c(1)] sz
  have cr: "0 \<le> fst c" "fst c < int ?n" "0 \<le> snd c" "snd c < int ?n" by simp_all
  from cellAt_gridOf [OF cr] c(2) have cc: "board_f s ! ?f c = p" by simp
  from flat_div_mod [OF b(1,3,4)] b
  have dm: "int (?f b div ?n) = fst b" "int (?f b mod ?n) = snd b" by simp_all
  from c(1) have "?f c \<in> set (getNeighborsIdx s (?f b))"
    unfolding getNeighborsIdx_eq [of s "?f b"] dm by force
  moreover from flat_index_less [OF b] len have "?f b < length (board_f s)" by simp
  ultimately have "(?f b, ?f c) \<in> sameEdges s" using cb cc p0 by (simp add: sameEdges_def)
  then have "(?f b, ?f c) \<in> sameEdges s \<union> (sameEdges s)\<inverse>" by simp
  with cl have "(?f a, ?f c) \<in> (sameEdges s \<union> (sameEdges s)\<inverse>)\<^sup>*"
    by (rule rtrancl_into_rtrancl)
  with cr cc show ?case by simp
qed

lemma tracker_agrees_red:
  assumes inv: "tracker_inv s"
  shows "(\<exists>j k. j < length (board_f s) \<and> k < length (board_f s) \<and>
                  board_f s ! j = 1 \<and> board_f s ! k = 1 \<and>
                  (j, k) \<in> (sameEdges s \<union> (sameEdges s)\<inverse>)\<^sup>* \<and>
                  j div size_f s = 0 \<and> int (k div size_f s) = int (size_f s) - 1)
         \<longleftrightarrow> checkWin (gridOf s) PLAYER_RED"
proof -
  let ?n = "size_f s" and ?g = "gridOf s"
  let ?cl = "(sameEdges s \<union> (sameEdges s)\<inverse>)\<^sup>*"
  from inv have len: "length (board_f s) = ?n * ?n" by (simp add: tracker_inv_def)
  have sz: "size_g ?g = ?n" by (simp add: gridOf_def)
  let ?T = "\<exists>j k. j < length (board_f s) \<and> k < length (board_f s) \<and>
                  board_f s ! j = 1 \<and> board_f s ! k = 1 \<and> (j, k) \<in> ?cl \<and>
                  j div ?n = 0 \<and> int (k div ?n) = int ?n - 1"
  let ?B = "\<exists>col < ?n. cellAt (board ?g) 0 (int col) = 1 \<and>
        (\<exists>c. ((0, int col), c) \<in> (stepRel ?g 1)\<^sup>* \<and> fst c = int ?n - 1)"
  have R: "checkWin ?g PLAYER_RED \<longleftrightarrow> ?B"
    using checkWin_red [of ?g] unfolding sz PLAYER_RED_def .
  have "?T \<longleftrightarrow> ?B"
  proof
    assume ?T
    then obtain j k where j: "j < length (board_f s)" "board_f s ! j = 1" "j div ?n = 0"
      and k: "(j, k) \<in> ?cl" "int (k div ?n) = int ?n - 1" by auto
    from j(1) len have pos: "0 < ?n" by (cases ?n) simp_all
    with j(3) have jn: "j < ?n" "j mod ?n = j" by (simp_all add: div_eq_0_iff)
    from cellAt_gridOf [of "(0, int j)" s] jn j(2)
    have "cellAt (board ?g) 0 (int j) = 1" by simp
    moreover from cl_to_steps [OF len j(1,2) k(1)] j(3) jn(2)
    have "((0, int j), (int (k div ?n), int (k mod ?n))) \<in> (stepRel ?g 1)\<^sup>*" by simp
    moreover have "fst (int (k div ?n), int (k mod ?n)) = int ?n - 1" using k(2) by simp
    ultimately show ?B using jn(1)
      by (intro exI [of _ j] conjI exI [of _ "(int (k div ?n), int (k mod ?n))"])
  next
    assume ?B
    then obtain col c where col: "col < ?n" "cellAt (board ?g) 0 (int col) = 1"
      and c: "((0, int col), c) \<in> (stepRel ?g 1)\<^sup>*" "fst c = int ?n - 1" by auto
    let ?a = "(0, int col) :: cell"
    have a: "0 \<le> fst ?a" "fst ?a < int ?n" "0 \<le> snd ?a" "snd ?a < int ?n" using col(1) by simp_all
    from cellAt_gridOf [OF a] col(2)
    have ca: "board_f s ! nat (fst ?a * int ?n + snd ?a) = 1" by simp
    from steps_to_cl [OF len a ca _ c(1)]
    have b: "0 \<le> fst c" "fst c < int ?n" "0 \<le> snd c" "snd c < int ?n"
      "board_f s ! nat (fst c * int ?n + snd c) = 1"
      "(nat (fst ?a * int ?n + snd ?a), nat (fst c * int ?n + snd c)) \<in> ?cl" by simp_all
    let ?k = "nat (fst c * int ?n + snd c)"
    from flat_index_less [OF b(1-4)] len have kN: "?k < length (board_f s)" by simp
    from flat_div_mod(1) [OF b(1,3,4)] b(1) c(2) have kd: "int (?k div ?n) = int ?n - 1" by simp
    from col(1) len have jN: "col < length (board_f s)"
      using flat_less [of 0 ?n col] by (cases ?n) simp_all
    from col(1) have jd: "col div ?n = 0" by simp
    from ca b(6) have "board_f s ! col = 1" "(col, ?k) \<in> ?cl" by simp_all
    with jN kN b(5) jd kd show ?T
      by (intro exI [of _ col] exI [of _ ?k]) simp
  qed
  with R show ?thesis by simp
qed

lemma tracker_agrees_blue:
  assumes inv: "tracker_inv s"
  shows "(\<exists>j k. j < length (board_f s) \<and> k < length (board_f s) \<and>
                  board_f s ! j = 2 \<and> board_f s ! k = 2 \<and>
                  (j, k) \<in> (sameEdges s \<union> (sameEdges s)\<inverse>)\<^sup>* \<and>
                  j mod size_f s = 0 \<and> int (k mod size_f s) = int (size_f s) - 1)
         \<longleftrightarrow> checkWin (gridOf s) PLAYER_BLUE"
proof -
  let ?n = "size_f s" and ?g = "gridOf s"
  let ?cl = "(sameEdges s \<union> (sameEdges s)\<inverse>)\<^sup>*"
  from inv have len: "length (board_f s) = ?n * ?n" by (simp add: tracker_inv_def)
  have sz: "size_g ?g = ?n" by (simp add: gridOf_def)
  have ne: "PLAYER_BLUE \<noteq> PLAYER_RED" by (simp add: PLAYER_BLUE_def PLAYER_RED_def)
  let ?T = "\<exists>j k. j < length (board_f s) \<and> k < length (board_f s) \<and>
                  board_f s ! j = 2 \<and> board_f s ! k = 2 \<and> (j, k) \<in> ?cl \<and>
                  j mod ?n = 0 \<and> int (k mod ?n) = int ?n - 1"
  let ?B = "\<exists>row < ?n. cellAt (board ?g) (int row) 0 = 2 \<and>
        (\<exists>c. ((int row, 0), c) \<in> (stepRel ?g 2)\<^sup>* \<and> snd c = int ?n - 1)"
  have R: "checkWin ?g PLAYER_BLUE \<longleftrightarrow> ?B"
    using checkWin_blue [OF ne, of ?g] unfolding sz PLAYER_BLUE_def .
  have "?T \<longleftrightarrow> ?B"
  proof
    assume ?T
    then obtain j k where j: "j < length (board_f s)" "board_f s ! j = 2" "j mod ?n = 0"
      and k: "(j, k) \<in> ?cl" "int (k mod ?n) = int ?n - 1" by auto
    from j(1) len have rn: "j div ?n < ?n" by (simp add: less_mult_imp_div_less)
    have "j = (j div ?n) * ?n + j mod ?n" by simp
    with j(3) have jeq: "j div ?n * ?n = j" by simp
    have "nat (int (j div ?n) * int ?n) = j div ?n * ?n" by (simp add: nat_mult_distrib)
    with jeq have "nat (int (j div ?n) * int ?n) = j" by simp
    with cellAt_gridOf [of "(int (j div ?n), 0)" s] rn j(2)
    have "cellAt (board ?g) (int (j div ?n)) 0 = 2" by simp
    moreover from cl_to_steps [OF len j(1,2) k(1)] j(3)
    have "((int (j div ?n), 0), (int (k div ?n), int (k mod ?n))) \<in> (stepRel ?g 2)\<^sup>*" by simp
    moreover have "snd (int (k div ?n), int (k mod ?n)) = int ?n - 1" using k(2) by simp
    ultimately show ?B using rn
      by (intro exI [of _ "j div ?n"] conjI exI [of _ "(int (k div ?n), int (k mod ?n))"])
  next
    assume ?B
    then obtain row c where row: "row < ?n" "cellAt (board ?g) (int row) 0 = 2"
      and c: "((int row, 0), c) \<in> (stepRel ?g 2)\<^sup>*" "snd c = int ?n - 1" by auto
    let ?a = "(int row, 0) :: cell"
    have a: "0 \<le> fst ?a" "fst ?a < int ?n" "0 \<le> snd ?a" "snd ?a < int ?n" using row(1) by simp_all
    from cellAt_gridOf [OF a] row(2)
    have ca: "board_f s ! nat (fst ?a * int ?n + snd ?a) = 2" by simp
    from steps_to_cl [OF len a ca _ c(1)]
    have b: "0 \<le> fst c" "fst c < int ?n" "0 \<le> snd c" "snd c < int ?n"
      "board_f s ! nat (fst c * int ?n + snd c) = 2"
      "(nat (fst ?a * int ?n + snd ?a), nat (fst c * int ?n + snd c)) \<in> ?cl" by simp_all
    let ?j = "nat (fst ?a * int ?n + snd ?a)" and ?k = "nat (fst c * int ?n + snd c)"
    from flat_index_less [OF b(1-4)] len have kN: "?k < length (board_f s)" by simp
    from flat_index_less [OF a] len have jN: "?j < length (board_f s)" by simp
    from flat_div_mod(2) [OF b(1,3,4)] b(3) c(2) have kd: "int (?k mod ?n) = int ?n - 1" by simp
    from flat_div_mod(2) [OF a(1,3,4)] have jd: "?j mod ?n = 0" by simp
    from jN kN ca b(5,6) jd kd show ?T
      by (intro exI [of _ ?j] exI [of _ ?k]) simp
  qed
  with R show ?thesis by simp
qed

lemma checkWin_f_agrees:
  assumes inv: "tracker_inv s" and p: "p = PLAYER_RED \<or> p = PLAYER_BLUE"
  shows "\<exists>s'. checkWin_f s p = Some (checkWin (gridOf s) p, s')"
proof -
  from p have p12: "p = 1 \<or> p = 2" by (simp add: PLAYER_RED_def PLAYER_BLUE_def)
  from checkWin_f_iff [OF inv p12] obtain b s' where
    c: "checkWin_f s p = Some (b, s')"
    and b: "b \<longleftrightarrow> (\<exists>j k. j < length (board_f s) \<and> k < length (board_f s) \<and>
                  board_f s ! j = p \<and> board_f s ! k = p \<and>
                  (j, k) \<in> (sameEdges s \<union> (sameEdges s)\<inverse>)\<^sup>* \<and>
                  (if p = 1 then j div size_f s = 0 \<and> int (k div size_f s) = int (size_f s) - 1
                   else j mod size_f s = 0 \<and> int (k mod size_f s) = int (size_f s) - 1))"
    by blast
  have "b = checkWin (gridOf s) p"
  proof (cases "p = 1")
    case True
    then have "p = PLAYER_RED" by (simp add: PLAYER_RED_def)
    with b True tracker_agrees_red [OF inv] show ?thesis by simp
  next
    case False
    with p12 have 2: "p = 2" by simp
    then have "p = PLAYER_BLUE" by (simp add: PLAYER_BLUE_def)
    with b 2 tracker_agrees_blue [OF inv] show ?thesis by simp
  qed
  with c show ?thesis by blast
qed

lemma gridOf_new:
  assumes wf: "wf_board g"
    and b: "board_f s = concat (map (\<lambda>r. map (\<lambda>c. board g ! r ! c) [0 ..< size_g g])
                                  [0 ..< size_g g])"
    and sz: "size_f s = size_g g"
  shows "board (gridOf s) = board g"
proof -
  let ?n = "size_g g"
  from wf have len: "length (board g) = ?n"
    and rows: "\<forall>row \<in> set (board g). length row = ?n"
    by (simp_all add: wf_board_def list_all_iff)
  have "map (\<lambda>c. board_f s ! (r * ?n + c)) [0 ..< ?n] = board g ! r" if r: "r < ?n" for r
  proof -
    from r len rows have lr: "length (board g ! r) = ?n" by simp
    have "map (\<lambda>c. board_f s ! (r * ?n + c)) [0 ..< ?n] = map (\<lambda>c. board g ! r ! c) [0 ..< ?n]"
      unfolding b using grid_concat_nth [OF r, of _ ?n "\<lambda>r c. board g ! r ! c"] by simp
    also have "\<dots> = board g ! r" using map_nth [of "board g ! r"] unfolding lr .
    finally show ?thesis .
  qed
  then have "map (\<lambda>r. map (\<lambda>c. board_f s ! (r * ?n + c)) [0 ..< ?n]) [0 ..< ?n]
               = map (\<lambda>r. board g ! r) [0 ..< ?n]" by simp
  also have "\<dots> = board g" using map_nth [of "board g"] unfolding len .
  finally show ?thesis by (simp add: gridOf_def sz)
qed

text \<open>
  Claim C1. Take a well-formed board of side at most 181 (the parent table of the
  union-find is an \<open>Int16Array\<close>, which holds the indices up to 32767; the program
  creates boards of side 7 to 19) with red or blue to move, and replay through
  \<open>FastHexGame.makeMove\<close> any sequence of moves onto distinct cells of the board that are
  empty. Then the constructor and every move return, the grid of the freshly built
  tracker is the given board, and for each side the win check of the tracker returns
  the verdict of the reference breadth-first win check on the grid the tracker holds
  after the moves.
\<close>

theorem tracker_agrees_with_reference:
  assumes wf: "wf_board g" and sz: "size_g g \<le> 181"
    and cp: "currentPlayer g = PLAYER_RED \<or> currentPlayer g = PLAYER_BLUE"
    and dist: "distinct ms"
    and emp: "\<forall>m \<in> set ms. fst m < size_g g \<and> snd m < size_g g \<and>
                             board g ! fst m ! snd m = EMPTY"
    and p: "p = PLAYER_RED \<or> p = PLAYER_BLUE"
  shows "\<exists>s0 s s'. newFastHexGame g = Some s0 \<and> board (gridOf s0) = board g \<and>
           runOps s0 (map (\<lambda>m. MakeMove (fst m) (snd m)) ms) = Some s \<and>
           checkWin_f s p = Some (checkWin (gridOf s) p, s')"
proof -
  let ?n = "size_g g"
  from sz have "?n * ?n \<le> 181 * 181" by (intro mult_le_mono)
  then have sz2: "?n * ?n \<le> 32768" by simp
  from cp have cp12: "currentPlayer g = 1 \<or> currentPlayer g = 2"
    by (simp add: PLAYER_RED_def PLAYER_BLUE_def)
  from newFastHexGame_ok [OF wf sz2 cp12] obtain s0 where
    0: "newFastHexGame g = Some s0" "tracker_inv s0" "size_f s0 = ?n"
       "board_f s0 = concat (map (\<lambda>r. map (\<lambda>c. board g ! r ! c) [0 ..< ?n]) [0 ..< ?n])"
    by blast
  have "\<forall>m \<in> set ms. fst m < size_f s0 \<and> snd m < size_f s0 \<and>
                    board_f s0 ! (fst m * size_f s0 + snd m) = 0"
  proof
    fix m assume "m \<in> set ms"
    with emp have m: "fst m < ?n" "snd m < ?n" "board g ! fst m ! snd m = 0"
      by (simp_all add: EMPTY_def)
    from grid_concat_nth [OF m(1,2), of "\<lambda>r c. board g ! r ! c"] m 0(3,4)
    show "fst m < size_f s0 \<and> snd m < size_f s0 \<and>
                    board_f s0 ! (fst m * size_f s0 + snd m) = 0" by simp
  qed
  from replay_ok [OF 0(2) dist this] obtain s where
    1: "runOps s0 (map (\<lambda>m. MakeMove (fst m) (snd m)) ms) = Some s" "tracker_inv s" by blast
  from checkWin_f_agrees [OF 1(2) p] obtain s' where
    "checkWin_f s p = Some (checkWin (gridOf s) p, s')" by blast
  with 0(1) 1(1) gridOf_new [OF wf 0(4,3)] show ?thesis by blast
qed

text \<open>On the empty 3x3 board red plays \<open>(0,1)\<close>, \<open>(1,1)\<close> and \<open>(2,0)\<close>, blue \<open>(0,0)\<close> and
  \<open>(2,2)\<close>: red has connected top and bottom, and both checks say so.\<close>

theorem tracker_agrees_with_reference_witness:
  "\<exists>s0 s s'. newFastHexGame (newGame 3) = Some s0 \<and> board (gridOf s0) = board (newGame 3) \<and>
      runOps s0 [MakeMove 0 1, MakeMove 0 0, MakeMove 1 1, MakeMove 2 2, MakeMove 2 0] = Some s \<and>
      checkWin (gridOf s) PLAYER_RED \<and> checkWin_f s PLAYER_RED = Some (True, s')"
proof -
  let ?ms = "[(0, 1), (0, 0), (1, 1), (2, 2), (2, 0)] :: (nat \<times> nat) list"
  have "wf_board (newGame 3)" by code_simp
  moreover have "size_g (newGame 3) \<le> 181" by code_simp
  moreover have "currentPlayer (newGame 3) = PLAYER_RED \<or> currentPlayer (newGame 3) = PLAYER_BLUE"
    by code_simp
  moreover have "distinct ?ms" by simp
  moreover have "\<forall>m \<in> set ?ms.
      fst m < size_g (newGame 3) \<and> snd m < size_g (newGame 3) \<and>
      board (newGame 3) ! fst m ! snd m = EMPTY" by code_simp
  moreover have "PLAYER_RED = PLAYER_RED \<or> PLAYER_RED = PLAYER_BLUE" by simp
  ultimately obtain s0 s s' where
    r: "newFastHexGame (newGame 3) = Some s0" "board (gridOf s0) = board (newGame 3)"
       "runOps s0 (map (\<lambda>m. MakeMove (fst m) (snd m)) ?ms) = Some s"
       "checkWin_f s PLAYER_RED = Some (checkWin (gridOf s) PLAYER_RED, s')"
    using tracker_agrees_with_reference [of "newGame 3" ?ms PLAYER_RED] by blast
  have v: "(case newFastHexGame (newGame 3) of
             None \<Rightarrow> None
           | Some s0 \<Rightarrow>
              (case runOps s0 [MakeMove 0 1, MakeMove 0 0, MakeMove 1 1, MakeMove 2 2, MakeMove 2 0] of
                 None \<Rightarrow> None
               | Some s \<Rightarrow> Some (checkWin (gridOf s) PLAYER_RED))) = Some True"
    by code_simp
  from r(3) have ops: "runOps s0 [MakeMove 0 1, MakeMove 0 0, MakeMove 1 1, MakeMove 2 2, MakeMove 2 0]
                         = Some s" by simp
  from v r(1) ops have w: "checkWin (gridOf s) PLAYER_RED" by simp
  with r(4) have "checkWin_f s PLAYER_RED = Some (True, s')" by simp
  with r(1,2) ops w show ?thesis by blast
qed


end
